(* ===== verification/Prelude.thy ===== *)
theory Prelude
  imports Main "HOL-Library.Word"
begin

unbundle bit_operations_syntax

text \<open>
  Shared vocabulary of the xv6 development: the C integer types (types.h), the control-flow
  type in which every kernel operation is written (a state-passing computation that returns,
  panics, faults or puts the calling process to sleep), its weakest preconditions, the
  little-endian layout of C integers inside byte arrays, and the list facts that several
  components use.
\<close>

named_theorems wp_intros \<open>weakest-precondition rules of kernel operations\<close>
named_theorems kdefs \<open>definitions unfolded when a kernel operation is executed symbolically\<close>

section \<open>C types\<close>

type_synonym byte = "8 word"
type_synonym ushort = "16 word"
type_synonym uint = "32 word"
type_synonym addr = "32 word"
type_synonym block = "byte list"

section \<open>Kernel operations\<close>

text \<open>
  The addresses that xv6 passes to sleep and wakeup. Each constructor names the object whose
  address the source uses as a channel.
\<close>

datatype chan =
    ChanBuf nat        \<comment> \<open>sleep-lock of bcache.buf[i]\<close>
  | ChanIde nat        \<comment> \<open>the buffer itself, in ide.c\<close>
  | ChanInode nat      \<comment> \<open>sleep-lock of icache.inode[i]\<close>
  | ChanLog            \<comment> \<open>&log\<close>
  | ChanPipeRead nat   \<comment> \<open>&p->nread\<close>
  | ChanPipeWrite nat  \<comment> \<open>&p->nwrite\<close>
  | ChanProc nat       \<comment> \<open>a struct proc, in wait() and exit()\<close>
  | ChanTicks          \<comment> \<open>&ticks\<close>
  | ChanInput          \<comment> \<open>&input.r\<close>

text \<open>
  What calling a kernel function can lead to: it returns a value, it calls panic() with a
  message, it does something C leaves undefined (a null dereference, an access outside an
  array), it calls sleep() and gives up the CPU in the given state, or it calls exit() and
  enters the scheduler for good.
\<close>

datatype ('a, 's) outcome =
    Done 'a 's
  | Panic string
  | Fault string
  | Block chan 's
  | Gone 's

type_synonym ('s, 'a) prog = "'s \<Rightarrow> ('a, 's) outcome"

definition kreturn :: "'a \<Rightarrow> ('s, 'a) prog" where
  "kreturn a = (\<lambda>s. Done a s)"

definition kbind :: "('s, 'a) prog \<Rightarrow> ('a \<Rightarrow> ('s, 'b) prog) \<Rightarrow> ('s, 'b) prog" where
  "kbind m f = (\<lambda>s. case m s of
       Done a s' \<Rightarrow> f a s'
     | Panic e \<Rightarrow> Panic e
     | Fault e \<Rightarrow> Fault e
     | Block c s' \<Rightarrow> Block c s'
     | Gone s' \<Rightarrow> Gone s')"

definition kthen :: "('s, 'a) prog \<Rightarrow> ('s, 'b) prog \<Rightarrow> ('s, 'b) prog" where
  "kthen m k = kbind m (\<lambda>_. k)"

definition kget :: "('s \<Rightarrow> 'a) \<Rightarrow> ('s, 'a) prog" where
  "kget f = (\<lambda>s. Done (f s) s)"

definition kmodify :: "('s \<Rightarrow> 's) \<Rightarrow> ('s, unit) prog" where
  "kmodify f = (\<lambda>s. Done () (f s))"

definition panic :: "string \<Rightarrow> ('s, 'a) prog" where
  "panic msg = (\<lambda>s. Panic msg)"

definition kfault :: "string \<Rightarrow> ('s, 'a) prog" where
  "kfault msg = (\<lambda>s. Fault msg)"

definition kwhen :: "bool \<Rightarrow> ('s, unit) prog \<Rightarrow> ('s, unit) prog" where
  "kwhen b m = (if b then m else kreturn ())"

text \<open>A counted loop whose body is run for each index in turn.\<close>

primrec kfor :: "'a list \<Rightarrow> ('a \<Rightarrow> ('s, unit) prog) \<Rightarrow> ('s, unit) prog" where
  "kfor [] f = kreturn ()"
| "kfor (x # xs) f = kthen (f x) (kfor xs f)"

lemmas kprog_defs = kreturn_def kbind_def kthen_def kget_def kmodify_def panic_def kfault_def kwhen_def

lemma kreturn_eq_Done [simp]: "kreturn a = Done a"
  by (simp add: kreturn_def)

lemma kbind_Done: "m s = Done a t \<Longrightarrow> kbind m f s = f a t"
  by (simp add: kbind_def)

lemma kthen_Done: "m s = Done a t \<Longrightarrow> kthen m k s = k t"
  by (simp add: kthen_def kbind_def)

lemma kbind_eq_Done: "kbind m f s = Done b u \<longleftrightarrow> (\<exists>a t. m s = Done a t \<and> f a t = Done b u)"
  by (simp add: kbind_def split: outcome.split)

lemma kthen_eq_Done: "kthen m k s = Done b u \<longleftrightarrow> (\<exists>a t. m s = Done a t \<and> k t = Done b u)"
  by (simp add: kthen_def kbind_eq_Done)

lemma kget_apply [simp]: "kget f s = Done (f s) s"
  by (simp add: kget_def)

lemma kmodify_apply [simp]: "kmodify f s = Done () (f s)"
  by (simp add: kmodify_def)

lemma panic_apply [simp]: "panic e s = Panic e"
  by (simp add: panic_def)

lemma kfault_apply [simp]: "kfault e s = Fault e"
  by (simp add: kfault_def)

lemma kbind_get [simp]: "kbind (kget f) g s = g (f s) s"
  by (simp add: kbind_def)

lemma kbind_return [simp]: "kbind (Done a) g = g a"
  by (simp add: kbind_def)

lemma kthen_modify [simp]: "kthen (kmodify f) k s = k (f s)"
  by (simp add: kthen_def kbind_def)

lemma kthen_return [simp]: "kthen (Done a) k = k"
  by (simp add: kthen_def kbind_def)

lemma kbind_panic [simp]: "kbind (panic e) g s = Panic e"
  by (simp add: kbind_def)

lemma kbind_cong [fundef_cong]:
  assumes "m s = m' s'" and "s = s'" and "\<And>a t. m' s' = Done a t \<Longrightarrow> f a t = f' a t"
  shows "kbind m f s = kbind m' f' s'"
  using assms by (auto simp: kbind_def split: outcome.split)

lemma kbind_assoc [simp]: "kbind (kbind m f) g = kbind m (\<lambda>a. kbind (f a) g)"
  by (rule ext) (simp add: kbind_def split: outcome.split)

lemma kthen_assoc [simp]:
  "kthen (kthen m k) h = kthen m (kthen k h)"
  "kbind (kthen m k) g = kthen m (kbind k g)"
  "kthen (kbind m f) h = kbind m (\<lambda>a. kthen (f a) h)"
  by (simp_all add: kthen_def)

section \<open>Weakest preconditions\<close>

text \<open>
  \<open>wp m Q s\<close>: run from \<open>s\<close>, \<open>m\<close> returns (it neither panics, nor faults, nor sleeps) and
  the value and the final state satisfy \<open>Q\<close>.
\<close>

definition wp :: "('s, 'a) prog \<Rightarrow> ('a \<Rightarrow> 's \<Rightarrow> bool) \<Rightarrow> 's \<Rightarrow> bool" where
  "wp m Q s \<longleftrightarrow> (case m s of Done a s' \<Rightarrow> Q a s' | _ \<Rightarrow> False)"

lemma wp_iff: "wp m Q s \<longleftrightarrow> (\<exists>a t. m s = Done a t \<and> Q a t)"
  by (simp add: wp_def split: outcome.split)

lemma wpI: "m s = Done a t \<Longrightarrow> Q a t \<Longrightarrow> wp m Q s"
  by (simp add: wp_def)

lemma wpE:
  assumes "wp m Q s"
  obtains a t where "m s = Done a t" and "Q a t"
  using assms by (auto simp: wp_iff)

lemma wp_kreturn [simp]: "wp (Done a) Q s = Q a s"
  by (simp add: wp_def)

lemma wp_kget [simp]: "wp (kget f) Q s = Q (f s) s"
  by (simp add: wp_def)

lemma wp_kmodify [simp]: "wp (kmodify f) Q s = Q () (f s)"
  by (simp add: wp_def)

lemma wp_panic [simp]: "\<not> wp (panic e) Q s"
  by (simp add: wp_def)

lemma wp_kfault [simp]: "\<not> wp (kfault e) Q s"
  by (simp add: wp_def)

lemma wp_kbind [simp]: "wp (kbind m f) Q s = wp m (\<lambda>a. wp (f a) Q) s"
  by (simp add: wp_def kbind_def split: outcome.split)

lemma wp_kthen [simp]: "wp (kthen m k) Q s = wp m (\<lambda>_. wp k Q) s"
  by (simp add: kthen_def)

lemma wp_seq: "wp (kbind m f) Q = wp m (\<lambda>a. wp (f a) Q)" "wp (kthen m k) Q = wp m (\<lambda>_. wp k Q)"
  "wp (Done a) Q = Q a"
  by (simp_all add: fun_eq_iff)

lemma wp_kwhen [simp]: "wp (kwhen b m) Q s = (if b then wp m Q s else Q () s)"
  by (simp add: kwhen_def)

lemma wp_base: "wp (kget f) Q = (\<lambda>s. Q (f s) s)" "wp (kmodify g) R = (\<lambda>s. R () (g s))"
  "wp (kwhen b m) R = (\<lambda>s. if b then wp m R s else R () s)"
  by (simp_all add: fun_eq_iff)

lemma wp_mono: "wp m P s \<Longrightarrow> (\<And>a t. P a t \<Longrightarrow> Q a t) \<Longrightarrow> wp m Q s"
  by (auto simp: wp_iff)

lemma wp_eqI: "m s = m' s \<Longrightarrow> wp m' Q s \<Longrightarrow> wp m Q s"
  by (simp add: wp_def)

lemma wp_conj: "wp m P s \<Longrightarrow> wp m Q s \<Longrightarrow> wp m (\<lambda>a t. P a t \<and> Q a t) s"
  by (auto simp: wp_iff)

text \<open>
  The rule for counted loops: an invariant indexed by how many iterations have run.
\<close>

lemma wp_kfor_upt:
  assumes "I a s" and "a \<le> b"
    and "\<And>i t. a \<le> i \<Longrightarrow> i < b \<Longrightarrow> I i t \<Longrightarrow> wp (f i) (\<lambda>_. I (Suc i)) t"
  shows "wp (kfor [a..<b] f) (\<lambda>_. I b) s"
  using assms
proof (induction "b - a" arbitrary: a s)
  case 0
  then have "a = b" by simp
  with "0.prems" show ?case by simp
next
  case (Suc n)
  then have lt: "a < b" by simp
  have step: "wp (f a) (\<lambda>_. I (Suc a)) s"
    using Suc.prems lt by blast
  have "wp (kfor [Suc a..<b] f) (\<lambda>_. I b) t" if "I (Suc a) t" for t
    using Suc.hyps(1)[of "Suc a" t] Suc.hyps(2) Suc.prems lt that by auto
  with step have "wp (f a) (\<lambda>_. wp (kfor [Suc a..<b] f) (\<lambda>_. I b)) s"
    by (rule wp_mono)
  with lt show ?case by (simp add: upt_conv_Cons)
qed

lemma wp_kforI:
  assumes "wp (kfor [a..<b] f) P s" and "\<And>t. P () t \<Longrightarrow> Q () t"
  shows "wp (kfor [a..<b] f) Q s"
  using assms by (auto simp: wp_iff)

section \<open>Frames\<close>

text \<open>\<open>frames f m\<close>: whenever \<open>m\<close> returns, the part \<open>f\<close> of the state is as before.\<close>

named_theorems frame_intros \<open>what kernel operations leave alone\<close>

definition frames :: "('s \<Rightarrow> 'b) \<Rightarrow> ('s, 'a) prog \<Rightarrow> bool" where
  "frames f m \<longleftrightarrow> (\<forall>s a t. m s = Done a t \<longrightarrow> f t = f s)"

lemma framesD: "frames f m \<Longrightarrow> m s = Done a t \<Longrightarrow> f t = f s"
  by (simp add: frames_def)

lemma frames_base [frame_intros]:
  "frames f (Done a)" "frames f (kget g)" "frames f (panic e)" "frames f (kfault e)"
  by (simp_all add: frames_def)

lemma frames_modify: "(\<And>s. f (g s) = f s) \<Longrightarrow> frames f (kmodify g)"
  by (auto simp: frames_def)

lemma frames_bind [frame_intros]: "frames f m \<Longrightarrow> (\<And>a. frames f (k a)) \<Longrightarrow> frames f (kbind m k)"
  by (fastforce simp: frames_def kbind_def split: outcome.splits)

lemma frames_then [frame_intros]: "frames f m \<Longrightarrow> frames f k \<Longrightarrow> frames f (kthen m k)"
  by (simp add: kthen_def frames_bind)

lemma frames_when [frame_intros]: "frames f m \<Longrightarrow> frames f (kwhen b m)"
  by (simp add: kwhen_def frames_base)

lemma frames_if [frame_intros]: "frames f m \<Longrightarrow> frames f k \<Longrightarrow> frames f (if b then m else k)"
  by simp

lemma frames_option [frame_intros]:
  "frames f m \<Longrightarrow> (\<And>x. frames f (k x)) \<Longrightarrow> frames f (case y of None \<Rightarrow> m | Some x \<Rightarrow> k x)"
  by (simp split: option.split)

lemma frames_for [frame_intros]: "(\<And>x. frames f (m x)) \<Longrightarrow> frames f (kfor xs m)"
  by (induction xs) (simp_all add: frames_base frames_then)

section \<open>Words as numbers\<close>

lemma unat_bound: "unat (x :: uint) < 2 ^ 32"
  by (simp add: unsigned_less [where 'a = nat, of x, simplified])

lemma unat_of_nat_small: "n < 2 ^ 32 \<Longrightarrow> unat (of_nat n :: uint) = n"
  by (simp only: unat_of_nat) simp

section \<open>C integers inside byte arrays\<close>

text \<open>
  xv6 reads and writes the fields of on-disk structures through pointers into a byte array
  (struct dinode, struct superblock, struct logheader, an indirect block). On the x86 the
  bytes of an integer are stored least significant first.
\<close>

definition get16 :: "byte list \<Rightarrow> nat \<Rightarrow> ushort" where
  "get16 d off = ucast (d ! off) OR push_bit 8 (ucast (d ! (off + 1)))"

definition put16 :: "byte list \<Rightarrow> nat \<Rightarrow> ushort \<Rightarrow> byte list" where
  "put16 d off v = d[off := ucast v, off + 1 := ucast (drop_bit 8 v)]"

definition get32 :: "byte list \<Rightarrow> nat \<Rightarrow> uint" where
  "get32 d off = ucast (d ! off) OR push_bit 8 (ucast (d ! (off + 1)))
     OR push_bit 16 (ucast (d ! (off + 2))) OR push_bit 24 (ucast (d ! (off + 3)))"

definition put32 :: "byte list \<Rightarrow> nat \<Rightarrow> uint \<Rightarrow> byte list" where
  "put32 d off v = d[off := ucast v, off + 1 := ucast (drop_bit 8 v),
     off + 2 := ucast (drop_bit 16 v), off + 3 := ucast (drop_bit 24 v)]"

lemma length_put16 [simp]: "length (put16 d off v) = length d"
  by (simp add: put16_def)

lemma length_put32 [simp]: "length (put32 d off v) = length d"
  by (simp add: put32_def)

lemma get16_put16_same [simp]:
  assumes "off + 1 < length d"
  shows "get16 (put16 d off v) off = v"
proof (rule bit_word_eqI)
  fix n assume "n < LENGTH(16)"
  then show "bit (get16 (put16 d off v) off) n \<longleftrightarrow> bit v n"
    using assms by (cases "n < 8") (auto simp: get16_def put16_def bit_simps nth_list_update)
qed

lemma get32_put32_same [simp]:
  assumes "off + 3 < length d"
  shows "get32 (put32 d off v) off = v"
proof (rule bit_word_eqI)
  fix n assume "n < LENGTH(32)"
  moreover have "n < 8 \<or> (8 \<le> n \<and> n < 16) \<or> (16 \<le> n \<and> n < 24) \<or> 24 \<le> n" by arith
  ultimately show "bit (get32 (put32 d off v) off) n \<longleftrightarrow> bit v n"
    using assms by (auto simp: get32_def put32_def bit_simps nth_list_update)
qed

lemma nth_put16_other: "i < off \<or> off + 2 \<le> i \<Longrightarrow> put16 d off v ! i = d ! i"
  by (auto simp: put16_def)

lemma nth_put32_other: "i < off \<or> off + 4 \<le> i \<Longrightarrow> put32 d off v ! i = d ! i"
  by (auto simp: put32_def)

lemma get16_put16_other:
  "off + 2 \<le> off' \<or> off' + 2 \<le> off \<Longrightarrow> get16 (put16 d off v) off' = get16 d off'"
  by (auto simp: get16_def nth_put16_other)

lemma get16_put32_other:
  "off + 4 \<le> off' \<or> off' + 2 \<le> off \<Longrightarrow> get16 (put32 d off v) off' = get16 d off'"
  by (auto simp: get16_def nth_put32_other)

lemma get32_put16_other:
  "off + 2 \<le> off' \<or> off' + 4 \<le> off \<Longrightarrow> get32 (put16 d off v) off' = get32 d off'"
  by (auto simp: get32_def nth_put16_other)

lemma get32_put32_other:
  "off + 4 \<le> off' \<or> off' + 4 \<le> off \<Longrightarrow> get32 (put32 d off v) off' = get32 d off'"
  by (auto simp: get32_def nth_put32_other)

lemmas byte_layout = get16_put16_other get16_put32_other get32_put16_other get32_put32_other

section \<open>First match in a table\<close>

lemma find_Some_sat: "find P xs = Some x \<Longrightarrow> P x \<and> x \<in> set xs"
  by (induction xs) (auto split: if_splits)

lemma find_unique:
  assumes "P i" and "i \<in> set xs" and "\<And>j. P j \<Longrightarrow> j = i"
  shows "find P xs = Some i"
proof (cases "find P xs")
  case None
  then show ?thesis using assms(1,2) by (auto simp: find_None_iff)
next
  case (Some j)
  then have "P j" by (simp add: find_Some_sat)
  then have "j = i" by (rule assms(3))
  with Some show ?thesis by simp
qed

section \<open>Transition systems\<close>

text \<open>
  Interleavings of critical sections are step relations. A safety property of every
  reachable state is proved once here from its initial and its step case.
\<close>

inductive reachable :: "('s \<Rightarrow> bool) \<Rightarrow> ('s \<Rightarrow> 's \<Rightarrow> bool) \<Rightarrow> 's \<Rightarrow> bool"
  for initial :: "'s \<Rightarrow> bool" and step :: "'s \<Rightarrow> 's \<Rightarrow> bool" where
  start: "initial s \<Longrightarrow> reachable initial step s"
| step: "reachable initial step s \<Longrightarrow> step s t \<Longrightarrow> reachable initial step t"

locale safe_system =
  fixes initial :: "'s \<Rightarrow> bool"
    and step :: "'s \<Rightarrow> 's \<Rightarrow> bool"
    and inv :: "'s \<Rightarrow> bool"
  assumes inv_initial: "initial s \<Longrightarrow> inv s"
    and inv_step: "inv s \<Longrightarrow> step s t \<Longrightarrow> inv t"
begin

lemma reachable_inv: "reachable initial step s \<Longrightarrow> inv s"
  by (induction rule: reachable.induct) (auto intro: inv_initial inv_step)

end

end
