(* ===== verification/ProcTable.thy ===== *)
theory ProcTable
  imports Prelude
begin

text \<open>
  The process table of proc.c and the operations every other part of the kernel calls on it:
  finding the current process, going to sleep on a channel, waking the sleepers of a channel,
  and marking a process killed. An array is a function from its index; ptable.proc has
  the indices below NPROC. Operations run with ptable.lock held are single steps.
\<close>

section \<open>Processes\<close>

definition NPROC :: nat where "NPROC = 64"
definition NOFILE :: nat where "NOFILE = 16"

datatype procstate = UNUSED | EMBRYO | SLEEPING | RUNNABLE | RUNNING | ZOMBIE

text \<open>struct trapframe, as built by the hardware and by trapasm.S.\<close>

record trapframe =
  tf_edi :: uint
  tf_esi :: uint
  tf_ebp :: uint
  tf_oesp :: uint
  tf_ebx :: uint
  tf_edx :: uint
  tf_ecx :: uint
  tf_eax :: uint
  tf_gs :: ushort
  tf_fs :: ushort
  tf_es :: ushort
  tf_ds :: ushort
  tf_trapno :: uint
  tf_err :: uint
  tf_eip :: uint
  tf_cs :: ushort
  tf_eflags :: uint
  tf_esp :: uint
  tf_ss :: ushort

record kcontext =
  ctx_edi :: uint
  ctx_esi :: uint
  ctx_ebx :: uint
  ctx_ebp :: uint
  ctx_eip :: uint

text \<open>
  struct proc. Pointers to other table entries are optional indices (a null pointer is
  \<^const>\<open>None\<close>): the parent in ptable, the open files in ftable, the directory in icache.
\<close>

record proc =
  p_sz :: uint
  p_pgdir :: addr
  p_kstack :: addr
  p_state :: procstate
  p_pid :: uint
  p_parent :: "nat option"
  p_tf :: trapframe
  p_context :: kcontext
  p_chan :: "chan option"
  p_killed :: bool
  p_ofile :: "nat \<Rightarrow> nat option"
  p_cwd :: "nat option"
  p_name :: "byte list"

text \<open>Static objects start out zeroed, so every entry of ptable does.\<close>

definition trapframe_zero :: trapframe where
  "trapframe_zero = \<lparr>tf_edi = 0, tf_esi = 0, tf_ebp = 0, tf_oesp = 0, tf_ebx = 0, tf_edx = 0,
     tf_ecx = 0, tf_eax = 0, tf_gs = 0, tf_fs = 0, tf_es = 0, tf_ds = 0, tf_trapno = 0,
     tf_err = 0, tf_eip = 0, tf_cs = 0, tf_eflags = 0, tf_esp = 0, tf_ss = 0\<rparr>"

definition kcontext_zero :: kcontext where
  "kcontext_zero = \<lparr>ctx_edi = 0, ctx_esi = 0, ctx_ebx = 0, ctx_ebp = 0, ctx_eip = 0\<rparr>"

definition proc_zero :: proc where
  "proc_zero = \<lparr>p_sz = 0, p_pgdir = 0, p_kstack = 0, p_state = UNUSED, p_pid = 0,
     p_parent = None, p_tf = trapframe_zero, p_context = kcontext_zero, p_chan = None,
     p_killed = False, p_ofile = (\<lambda>_. None), p_cwd = None, p_name = replicate 16 0\<rparr>"

lemma proc_zero_sel [simp]:
  "p_state proc_zero = UNUSED" "p_pid proc_zero = 0" "p_parent proc_zero = None"
  "p_chan proc_zero = None" "p_killed proc_zero = False" "p_ofile proc_zero = (\<lambda>_. None)"
  "p_cwd proc_zero = None" "p_kstack proc_zero = 0" "p_pgdir proc_zero = 0" "p_sz proc_zero = 0"
  by (simp_all add: proc_zero_def)

text \<open>The state of proc.c; \<open>cpu_proc\<close> is mycpu()->proc of the executing CPU.\<close>

record kproc =
  ptable :: "nat \<Rightarrow> proc"
  nextpid :: uint
  initproc :: "nat option"
  cpu_proc :: "nat option"

definition upd_proc :: "nat \<Rightarrow> (proc \<Rightarrow> proc) \<Rightarrow> 'z kproc_scheme \<Rightarrow> 'z kproc_scheme" where
  "upd_proc i f s = s\<lparr>ptable := (ptable s)(i := f (ptable s i))\<rparr>"

lemma upd_proc_sel [simp]:
  "ptable (upd_proc i f s) = (ptable s)(i := f (ptable s i))"
  "nextpid (upd_proc i f s) = nextpid s"
  "initproc (upd_proc i f s) = initproc s"
  "cpu_proc (upd_proc i f s) = cpu_proc s"
  "more (upd_proc i f s) = more s"
  by (simp_all add: upd_proc_def)

definition myproc :: "('z kproc_scheme, nat option) prog" where
  "myproc = kget cpu_proc"

text \<open>myproc()->pid, a null dereference when no process runs on this CPU.\<close>

definition myproc_pid :: "('z kproc_scheme, uint) prog" where
  "myproc_pid = kbind myproc (\<lambda>p. case p of
       None \<Rightarrow> kfault ''myproc''
     | Some i \<Rightarrow> kget (\<lambda>s. p_pid (ptable s i)))"

lemma myproc_pid_eq: "cpu_proc s = Some i \<Longrightarrow> myproc_pid s = Done (p_pid (ptable s i)) s"
  by (simp add: myproc_pid_def myproc_def)

definition myproc_killed :: "('z kproc_scheme, bool) prog" where
  "myproc_killed = kbind myproc (\<lambda>p. case p of
       None \<Rightarrow> kfault ''myproc''
     | Some i \<Rightarrow> kget (\<lambda>s. p_killed (ptable s i)))"

section \<open>Sleep, wakeup, kill\<close>

text \<open>
  sleep(): under ptable.lock the caller records the channel, becomes SLEEPING and enters the
  scheduler, so the call leaves this CPU in the state it has just built. The rest of the
  function is \<open>sleep_tidy\<close>, run when the scheduler picks the process again.
\<close>

definition sleep :: "chan \<Rightarrow> ('z kproc_scheme, 'a) prog" where
  "sleep c = kbind myproc (\<lambda>p. case p of
       None \<Rightarrow> panic ''sleep''
     | Some i \<Rightarrow> (\<lambda>s. Block c (upd_proc i (\<lambda>q. q\<lparr>p_chan := Some c, p_state := SLEEPING\<rparr>) s)))"

definition sleep_tidy :: "nat \<Rightarrow> ('z kproc_scheme, unit) prog" where
  "sleep_tidy i = kmodify (upd_proc i (\<lambda>q. q\<lparr>p_chan := None\<rparr>))"

definition wakeup1 :: "chan \<Rightarrow> ('z kproc_scheme, unit) prog" where
  "wakeup1 c = kfor [0..<NPROC] (\<lambda>i.
     kbind (kget (\<lambda>s. ptable s i)) (\<lambda>p.
     kwhen (p_state p = SLEEPING \<and> p_chan p = Some c)
       (kmodify (upd_proc i (\<lambda>q. q\<lparr>p_state := RUNNABLE\<rparr>)))))"

definition wakeup :: "chan \<Rightarrow> ('z kproc_scheme, unit) prog" where
  "wakeup c = wakeup1 c"

text \<open>
  kill(): the first entry whose pid matches, in table order, whatever its state.
\<close>

definition kill :: "uint \<Rightarrow> ('z kproc_scheme, int) prog" where
  "kill pid = kbind (kget (\<lambda>s. find (\<lambda>i. p_pid (ptable s i) = pid) [0..<NPROC])) (\<lambda>r. case r of
       None \<Rightarrow> kreturn (-1)
     | Some i \<Rightarrow> kthen (kmodify (upd_proc i (\<lambda>p. p\<lparr>p_killed := True\<rparr>)))
         (kthen (kbind (kget (\<lambda>s. p_state (ptable s i))) (\<lambda>st.
            kwhen (st = SLEEPING) (kmodify (upd_proc i (\<lambda>p. p\<lparr>p_state := RUNNABLE\<rparr>)))))
         (kreturn 0)))"

section \<open>What they do\<close>

definition wake_proc :: "chan \<Rightarrow> proc \<Rightarrow> proc" where
  "wake_proc c p = (if p_state p = SLEEPING \<and> p_chan p = Some c then p\<lparr>p_state := RUNNABLE\<rparr> else p)"

definition wake_below :: "nat \<Rightarrow> chan \<Rightarrow> (nat \<Rightarrow> proc) \<Rightarrow> nat \<Rightarrow> proc" where
  "wake_below n c t = (\<lambda>i. if i < n then wake_proc c (t i) else t i)"

lemma wakeup1_loop:
  "kfor [0..<n] (\<lambda>i. kbind (kget (\<lambda>s. ptable s i)) (\<lambda>p.
     kwhen (p_state p = SLEEPING \<and> p_chan p = Some c)
       (kmodify (upd_proc i (\<lambda>q. q\<lparr>p_state := RUNNABLE\<rparr>))))) s
   = Done () (s\<lparr>ptable := wake_below n c (ptable s)\<rparr>)"
proof -
  have "wp (kfor [0..<n] (\<lambda>i. kbind (kget (\<lambda>s. ptable s i)) (\<lambda>p.
     kwhen (p_state p = SLEEPING \<and> p_chan p = Some c)
       (kmodify (upd_proc i (\<lambda>q. q\<lparr>p_state := RUNNABLE\<rparr>))))))
     (\<lambda>_ t. t = s\<lparr>ptable := wake_below n c (ptable s)\<rparr>) s"
    by (rule wp_kfor_upt [where I = "\<lambda>k t. t = s\<lparr>ptable := wake_below k c (ptable s)\<rparr>"])
      (auto simp: wake_below_def wake_proc_def upd_proc_def fun_eq_iff less_Suc_eq
        intro!: arg_cong [where f = "\<lambda>x. s\<lparr>ptable := x\<rparr>"])
  then show ?thesis by (auto simp: wp_iff)
qed

lemma wakeup_eq: "wakeup c s = Done () (s\<lparr>ptable := wake_below NPROC c (ptable s)\<rparr>)"
  by (simp add: wakeup_def wakeup1_def wakeup1_loop)

lemma wp_wakeup [simp]:
  "wp (wakeup c) Q s = Q () (s\<lparr>ptable := wake_below NPROC c (ptable s)\<rparr>)"
  by (simp add: wp_def wakeup_eq)

lemma wake_below_fields [simp]:
  "p_pid (wake_below n c t i) = p_pid (t i)"
  "p_chan (wake_below n c t i) = p_chan (t i)"
  "p_killed (wake_below n c t i) = p_killed (t i)"
  "p_parent (wake_below n c t i) = p_parent (t i)"
  "p_state (wake_below n c t i) =
     (if i < n \<and> p_state (t i) = SLEEPING \<and> p_chan (t i) = Some c then RUNNABLE else p_state (t i))"
  by (simp_all add: wake_below_def wake_proc_def)

end
