(* ===== verification/Sleeplock.thy ===== *)
theory Sleeplock
  imports ProcTable
begin

text \<open>
  sleeplock.c: long-term locks whose waiters sleep. The spin-lock inside a sleep-lock makes
  each of the three operations atomic, so each is one step here. A lock is reached through a
  \<open>lockref\<close>: the channel its address stands for and how to read and write it in the state.
\<close>

section \<open>The operations\<close>

record sleeplock =
  sl_locked :: bool
  sl_pid :: uint

definition initsleeplock :: sleeplock where
  "initsleeplock = \<lparr>sl_locked = False, sl_pid = 0\<rparr>"

record 's lockref =
  lk_chan :: chan
  lk_get :: "'s \<Rightarrow> sleeplock"
  lk_set :: "sleeplock \<Rightarrow> 's \<Rightarrow> 's"

text \<open>
  The loop of acquiresleep(): while the lock is taken the caller sleeps on it; a process that
  is woken runs the test again, which is a new call from the loop head.
\<close>

definition acquiresleep :: "'z kproc_scheme lockref \<Rightarrow> ('z kproc_scheme, unit) prog" where
  "acquiresleep lk = kbind (kget (\<lambda>s. sl_locked (lk_get lk s))) (\<lambda>l.
     if l then sleep (lk_chan lk)
     else kbind myproc_pid (\<lambda>pid. kmodify (lk_set lk \<lparr>sl_locked = True, sl_pid = pid\<rparr>)))"

definition releasesleep :: "'z kproc_scheme lockref \<Rightarrow> ('z kproc_scheme, unit) prog" where
  "releasesleep lk = kthen (kmodify (lk_set lk \<lparr>sl_locked = False, sl_pid = 0\<rparr>))
     (wakeup (lk_chan lk))"

definition holdingsleep :: "'z kproc_scheme lockref \<Rightarrow> ('z kproc_scheme, bool) prog" where
  "holdingsleep lk = kbind (kget (lk_get lk)) (\<lambda>l. kbind myproc_pid (\<lambda>pid.
     kreturn (sl_locked l \<and> sl_pid l = pid)))"

section \<open>Processes competing for one lock\<close>

text \<open>
  The system in which the processes of the table acquire and release one sleep-lock in any
  order. \<open>holders\<close> records, for the proofs, which processes have returned from
  acquiresleep() and not yet called releasesleep(). A step schedules one process that is not
  asleep and runs one of its critical sections.
\<close>

record slsys = kproc +
  the_lock :: sleeplock
  holders :: "nat set"

definition sys_lock :: "slsys lockref" where
  "sys_lock = \<lparr>lk_chan = ChanInode 0, lk_get = the_lock, lk_set = (\<lambda>l s. s\<lparr>the_lock := l\<rparr>)\<rparr>"

inductive sl_step :: "slsys \<Rightarrow> slsys \<Rightarrow> bool" where
  acquired: "i < NPROC \<Longrightarrow> i \<notin> holders s \<Longrightarrow> p_state (ptable s i) = RUNNABLE \<Longrightarrow>
     acquiresleep sys_lock (s\<lparr>cpu_proc := Some i\<rparr>) = Done () t \<Longrightarrow>
     sl_step s (t\<lparr>holders := insert i (holders t)\<rparr>)"
| slept: "i < NPROC \<Longrightarrow> i \<notin> holders s \<Longrightarrow> p_state (ptable s i) = RUNNABLE \<Longrightarrow>
     acquiresleep sys_lock (s\<lparr>cpu_proc := Some i\<rparr>) = Block c t \<Longrightarrow>
     sl_step s t"
| released: "i < NPROC \<Longrightarrow> i \<in> holders s \<Longrightarrow>
     releasesleep sys_lock (s\<lparr>cpu_proc := Some i\<rparr>) = Done () t \<Longrightarrow>
     sl_step s (t\<lparr>holders := holders t - {i}\<rparr>)"

definition sl_initial :: "slsys \<Rightarrow> bool" where
  "sl_initial s \<longleftrightarrow> the_lock s = initsleeplock \<and> holders s = {} \<and>
     (\<forall>i<NPROC. p_state (ptable s i) = RUNNABLE)"

text \<open>
  The lock is taken exactly while one process is between acquire and release, it carries that
  process's pid, and nobody sleeps on a free lock.
\<close>

definition sl_inv :: "slsys \<Rightarrow> bool" where
  "sl_inv s \<longleftrightarrow>
     (if sl_locked (the_lock s)
      then \<exists>i<NPROC. holders s = {i} \<and> sl_pid (the_lock s) = p_pid (ptable s i)
      else holders s = {} \<and>
        (\<forall>i<NPROC. \<not> (p_state (ptable s i) = SLEEPING \<and> p_chan (ptable s i) = Some (lk_chan sys_lock))))"

lemma acquiresleep_free:
  assumes "\<not> sl_locked (lk_get lk s)" and "cpu_proc s = Some i"
  shows "acquiresleep lk s = Done () (lk_set lk \<lparr>sl_locked = True, sl_pid = p_pid (ptable s i)\<rparr> s)"
  using assms by (simp add: acquiresleep_def kbind_Done [OF myproc_pid_eq])

lemma acquiresleep_taken:
  assumes "sl_locked (lk_get lk s)" and "cpu_proc s = Some i"
  shows "acquiresleep lk s = Block (lk_chan lk)
     (upd_proc i (\<lambda>q. q\<lparr>p_chan := Some (lk_chan lk), p_state := SLEEPING\<rparr>) s)"
  using assms by (simp add: acquiresleep_def sleep_def myproc_def)

lemma releasesleep_eq:
  "releasesleep lk s = wakeup (lk_chan lk) (lk_set lk \<lparr>sl_locked = False, sl_pid = 0\<rparr> s)"
  by (simp add: releasesleep_def)

lemma holdingsleep_eq:
  "cpu_proc s = Some i \<Longrightarrow> holdingsleep lk s =
     Done (sl_locked (lk_get lk s) \<and> sl_pid (lk_get lk s) = p_pid (ptable s i)) s"
  by (simp add: holdingsleep_def kbind_Done [OF myproc_pid_eq])

lemma sl_initial_inv: "sl_initial s \<Longrightarrow> sl_inv s"
  by (simp add: sl_initial_def sl_inv_def initsleeplock_def)

lemma sl_step_inv: "sl_step s t \<Longrightarrow> sl_inv s \<Longrightarrow> sl_inv t"
proof (induction rule: sl_step.induct)
  case (acquired i s t)
  show ?case
  proof (cases "sl_locked (the_lock s)")
    case True
    then show ?thesis using acquired(4)
      by (simp add: acquiresleep_taken [where i = i] sys_lock_def)
  next
    case False
    then have "t = s\<lparr>cpu_proc := Some i, the_lock := \<lparr>sl_locked = True, sl_pid = p_pid (ptable s i)\<rparr>\<rparr>"
      using acquired(4) by (simp add: acquiresleep_free [where i = i] sys_lock_def)
    with False acquired show ?thesis by (simp add: sl_inv_def)
  qed
next
  case (slept i s c t)
  show ?case
  proof (cases "sl_locked (the_lock s)")
    case True
    then have "t = upd_proc i (\<lambda>q. q\<lparr>p_chan := Some (ChanInode 0), p_state := SLEEPING\<rparr>)
        (s\<lparr>cpu_proc := Some i\<rparr>)"
      using slept(4) by (auto simp: acquiresleep_taken [where i = i] sys_lock_def)
    with True slept show ?thesis by (auto simp: sl_inv_def upd_proc_def)
  next
    case False
    then show ?thesis using slept(4)
      by (simp add: acquiresleep_free [where i = i] sys_lock_def)
  qed
next
  case (released i s t)
  then have "sl_locked (the_lock s)" by (auto simp: sl_inv_def split: if_splits)
  with released show ?case
    by (auto simp: sl_inv_def releasesleep_eq wakeup_eq sys_lock_def split: if_splits)
qed

interpretation sl: safe_system sl_initial sl_step sl_inv
  by unfold_locales (blast intro: sl_initial_inv sl_step_inv)+

text \<open>
  C8: Sleep-locks exclude. Whatever the order in which processes run acquiresleep() and
  releasesleep(), at most one process at a time has acquired the lock and not released it;
  the lock word says so, it holds that process's pid, and while the lock is free no process
  is asleep waiting for it, so no wakeup is lost.
\<close>

theorem sleeplock_exclusion_no_lost_wakeup:
  assumes "reachable sl_initial sl_step s"
  shows "(\<forall>i j. i \<in> holders s \<longrightarrow> j \<in> holders s \<longrightarrow> i = j)
    \<and> (sl_locked (the_lock s) \<longleftrightarrow> holders s \<noteq> {})
    \<and> (\<forall>i\<in>holders s. sl_pid (the_lock s) = p_pid (ptable s i))
    \<and> (\<not> sl_locked (the_lock s) \<longrightarrow> (\<forall>i<NPROC. \<not> (p_state (ptable s i) = SLEEPING \<and>
           p_chan (ptable s i) = Some (lk_chan sys_lock))))"
  using sl.reachable_inv [OF assms] by (auto simp: sl_inv_def split: if_splits)

definition sl_start :: slsys where
  "sl_start = \<lparr>ptable = (\<lambda>i. proc_zero\<lparr>p_state := RUNNABLE, p_pid := of_nat (i + 1)\<rparr>),
     nextpid = 65, initproc = Some 0, cpu_proc = None, the_lock = initsleeplock, holders = {}\<rparr>"

theorem sleeplock_exclusion_no_lost_wakeup_witness:
  "\<exists>s. reachable sl_initial sl_step s \<and> holders s = {7} \<and> sl_locked (the_lock s)
     \<and> sl_pid (the_lock s) = 8"
proof -
  let ?t = "sl_start\<lparr>cpu_proc := Some 7, the_lock := \<lparr>sl_locked = True, sl_pid = 8\<rparr>\<rparr>"
  have start: "reachable sl_initial sl_step sl_start"
    by (rule reachable.start) (simp add: sl_initial_def sl_start_def)
  have "acquiresleep sys_lock (sl_start\<lparr>cpu_proc := Some 7\<rparr>) = Done () ?t"
    by (subst acquiresleep_free [where i = 7])
      (simp_all add: sys_lock_def sl_start_def initsleeplock_def)
  then have "sl_step sl_start (?t\<lparr>holders := insert 7 (holders ?t)\<rparr>)"
    by (rule sl_step.acquired [rotated 3]) (simp_all add: NPROC_def sl_start_def)
  with start have r: "reachable sl_initial sl_step (?t\<lparr>holders := insert 7 (holders ?t)\<rparr>)"
    by (rule reachable.step)
  with sleeplock_exclusion_no_lost_wakeup [OF r] show ?thesis
    by (intro exI [of _ "?t\<lparr>holders := insert 7 (holders ?t)\<rparr>"]) (simp add: sl_start_def)
qed

end
