(* ===== verification/Bio.thy ===== *)
theory Bio
  imports Sleeplock
begin

text \<open>
  The buffer cache of bio.c over the in-memory disk of memide.c. Pointers to bcache.buf[i]
  are the index i and &bcache.head is the index NBUF, so the doubly linked recency list is
  the prev/next fields of the source. The disk is a function from block numbers to blocks;
  \<open>dtrace\<close> is history for the crash proofs: the block writes the disk has performed, in order.
\<close>

section \<open>Buffers\<close>

definition BSIZE :: nat where "BSIZE = 512"
definition NBUF :: nat where "NBUF = 30"
definition ROOTDEV :: uint where "ROOTDEV = 1"
definition B_VALID :: uint where "B_VALID = 2"
definition B_DIRTY :: uint where "B_DIRTY = 4"

record buf =
  b_flags :: uint
  b_dev :: uint
  b_blockno :: uint
  b_lock :: sleeplock
  b_refcnt :: uint
  b_prev :: nat
  b_next :: nat
  b_data :: block

record kbio = kproc +
  disk :: "uint \<Rightarrow> block"
  disksize :: uint
  dtrace :: "(uint \<times> block) list"
  bufs :: "nat \<Rightarrow> buf"

abbreviation HEAD :: nat where "HEAD \<equiv> NBUF"

definition upd_buf :: "nat \<Rightarrow> (buf \<Rightarrow> buf) \<Rightarrow> 'z kbio_scheme \<Rightarrow> 'z kbio_scheme" where
  "upd_buf i f s = s\<lparr>bufs := (bufs s)(i := f (bufs s i))\<rparr>"

definition buf_lock :: "nat \<Rightarrow> 'z kbio_scheme lockref" where
  "buf_lock i = \<lparr>lk_chan = ChanBuf i, lk_get = (\<lambda>s. b_lock (bufs s i)),
     lk_set = (\<lambda>l. upd_buf i (\<lambda>b. b\<lparr>b_lock := l\<rparr>))\<rparr>"

text \<open>Assignments through bp->data.\<close>

definition set_data :: "nat \<Rightarrow> (block \<Rightarrow> block) \<Rightarrow> ('z kbio_scheme, unit) prog" where
  "set_data i f = kmodify (upd_buf i (\<lambda>b. b\<lparr>b_data := f (b_data b)\<rparr>))"

section \<open>The in-memory disk\<close>

definition iderw :: "nat \<Rightarrow> ('z kbio_scheme, unit) prog" where
  "iderw i = kbind (holdingsleep (buf_lock i)) (\<lambda>h.
     if \<not> h then panic ''iderw: buf not locked'' else
     kbind (kget (\<lambda>s. bufs s i)) (\<lambda>b.
     if b_flags b AND (B_VALID OR B_DIRTY) = B_VALID then panic ''iderw: nothing to do'' else
     if b_dev b \<noteq> 1 then panic ''iderw: request not for disk 1'' else
     kbind (kget disksize) (\<lambda>n.
     if b_blockno b \<ge> n then panic ''iderw: block out of range'' else
     kthen (if b_flags b AND B_DIRTY \<noteq> 0
            then kthen (kmodify (upd_buf i (\<lambda>b. b\<lparr>b_flags := b_flags b AND NOT B_DIRTY\<rparr>)))
              (kmodify (\<lambda>s. s\<lparr>disk := (disk s)(b_blockno b := b_data b),
                              dtrace := dtrace s @ [(b_blockno b, b_data b)]\<rparr>))
            else kmodify (\<lambda>s. upd_buf i (\<lambda>x. x\<lparr>b_data := disk s (b_blockno b)\<rparr>) s))
       (kmodify (upd_buf i (\<lambda>b. b\<lparr>b_flags := b_flags b OR B_VALID\<rparr>))))))"

section \<open>The cache\<close>

text \<open>The assignments b->next = v and b->prev = v.\<close>

definition set_next :: "nat \<Rightarrow> nat \<Rightarrow> 'z kbio_scheme \<Rightarrow> 'z kbio_scheme" where
  "set_next b v = upd_buf b (\<lambda>x. x\<lparr>b_next := v\<rparr>)"

definition set_prev :: "nat \<Rightarrow> nat \<Rightarrow> 'z kbio_scheme \<Rightarrow> 'z kbio_scheme" where
  "set_prev b v = upd_buf b (\<lambda>x. x\<lparr>b_prev := v\<rparr>)"

text \<open>
  One iteration of the loop of binit(): push buffer i at the front of the list.
\<close>

definition binit_push :: "nat \<Rightarrow> 'z kbio_scheme \<Rightarrow> 'z kbio_scheme" where
  "binit_push i s =
     (let s1 = set_next i (b_next (bufs s HEAD)) s;
          s2 = set_prev i HEAD s1;
          s3 = upd_buf i (\<lambda>b. b\<lparr>b_lock := initsleeplock\<rparr>) s2;
          s4 = set_prev (b_next (bufs s3 HEAD)) i s3
      in set_next HEAD i s4)"

definition binit :: "('z kbio_scheme, unit) prog" where
  "binit = kthen (kmodify (\<lambda>s. set_next HEAD HEAD (set_prev HEAD HEAD s)))
     (kfor [0..<NBUF] (\<lambda>i. kmodify (binit_push i)))"

text \<open>
  The loops of bget() follow one of the two pointer fields from the list head until they are
  back at it. The fuel only makes the recursion structural: \<open>scan_find\<close> below shows that
  on a well-formed list the walk ends by itself.
\<close>

fun scan :: "nat \<Rightarrow> (nat \<Rightarrow> nat) \<Rightarrow> (nat \<Rightarrow> bool) \<Rightarrow> nat \<Rightarrow> nat option" where
  "scan 0 link P b = None"
| "scan (Suc fuel) link P b =
     (if b = HEAD then None else if P b then Some b else scan fuel link P (link b))"

definition bget_hit :: "uint \<Rightarrow> uint \<Rightarrow> 'z kbio_scheme \<Rightarrow> nat option" where
  "bget_hit dev blockno s = scan (Suc NBUF) (\<lambda>i. b_next (bufs s i))
     (\<lambda>i. b_dev (bufs s i) = dev \<and> b_blockno (bufs s i) = blockno) (b_next (bufs s HEAD))"

definition bget_victim :: "'z kbio_scheme \<Rightarrow> nat option" where
  "bget_victim s = scan (Suc NBUF) (\<lambda>i. b_prev (bufs s i))
     (\<lambda>i. b_refcnt (bufs s i) = 0 \<and> b_flags (bufs s i) AND B_DIRTY = 0) (b_prev (bufs s HEAD))"

definition bget :: "uint \<Rightarrow> uint \<Rightarrow> ('z kbio_scheme, nat) prog" where
  "bget dev blockno = kbind (kget (bget_hit dev blockno)) (\<lambda>r. case r of
       Some b \<Rightarrow> kthen (kmodify (upd_buf b (\<lambda>x. x\<lparr>b_refcnt := b_refcnt x + 1\<rparr>)))
         (kthen (acquiresleep (buf_lock b)) (kreturn b))
     | None \<Rightarrow> kbind (kget bget_victim) (\<lambda>v. case v of
         Some b \<Rightarrow> kthen (kmodify (upd_buf b (\<lambda>x.
             x\<lparr>b_dev := dev, b_blockno := blockno, b_flags := 0, b_refcnt := 1\<rparr>)))
           (kthen (acquiresleep (buf_lock b)) (kreturn b))
       | None \<Rightarrow> panic ''bget: no buffers''))"

definition bread :: "uint \<Rightarrow> uint \<Rightarrow> ('z kbio_scheme, nat) prog" where
  "bread dev blockno = kbind (bget dev blockno) (\<lambda>b.
     kbind (kget (\<lambda>s. b_flags (bufs s b))) (\<lambda>f.
     kthen (kwhen (f AND B_VALID = 0) (iderw b)) (kreturn b)))"

definition bwrite :: "nat \<Rightarrow> ('z kbio_scheme, unit) prog" where
  "bwrite b = kbind (holdingsleep (buf_lock b)) (\<lambda>h.
     if \<not> h then panic ''bwrite'' else
     kthen (kmodify (upd_buf b (\<lambda>x. x\<lparr>b_flags := b_flags x OR B_DIRTY\<rparr>))) (iderw b))"

text \<open>The pointer surgery of brelse(): unlink b and push it at the front.\<close>

definition move_front :: "nat \<Rightarrow> 'z kbio_scheme \<Rightarrow> 'z kbio_scheme" where
  "move_front b s =
     (let s1 = set_prev (b_next (bufs s b)) (b_prev (bufs s b)) s;
          s2 = set_next (b_prev (bufs s1 b)) (b_next (bufs s1 b)) s1;
          s3 = set_next b (b_next (bufs s2 HEAD)) s2;
          s4 = set_prev b HEAD s3;
          s5 = set_prev (b_next (bufs s4 HEAD)) b s4
      in set_next HEAD b s5)"

definition brelse :: "nat \<Rightarrow> ('z kbio_scheme, unit) prog" where
  "brelse b = kbind (holdingsleep (buf_lock b)) (\<lambda>h.
     if \<not> h then panic ''brelse'' else
     kthen (releasesleep (buf_lock b))
     (kthen (kmodify (upd_buf b (\<lambda>x. x\<lparr>b_refcnt := b_refcnt x - 1\<rparr>)))
     (kbind (kget (\<lambda>s. b_refcnt (bufs s b))) (\<lambda>r.
      kwhen (r = 0) (kmodify (move_front b))))))"

section \<open>Doubly linked lists\<close>

text \<open>
  Following \<open>link\<close> from \<open>a\<close> visits \<open>xs\<close> and then arrives at \<open>z\<close>.
\<close>

fun linked :: "(nat \<Rightarrow> nat) \<Rightarrow> nat \<Rightarrow> nat list \<Rightarrow> nat \<Rightarrow> bool" where
  "linked link a [] z \<longleftrightarrow> link a = z"
| "linked link a (x # xs) z \<longleftrightarrow> link a = x \<and> linked link x xs z"

lemma linked_append:
  "linked link a (xs @ y # ys) z \<longleftrightarrow> linked link a xs y \<and> linked link y ys z"
  by (induction xs arbitrary: a) auto

lemma linked_upd_notin [simp]:
  "c \<notin> set (a # xs) \<Longrightarrow> linked (link(c := v)) a xs z \<longleftrightarrow> linked link a xs z"
  by (induction xs arbitrary: a) auto

lemma linked_last: "linked link a xs z \<Longrightarrow> link (last (a # xs)) = z"
  by (induction xs arbitrary: a) auto

lemma linked_hd: "linked link a xs z \<Longrightarrow> link a = hd (xs @ [z])"
  by (cases xs) auto

lemma linked_redirect:
  "linked link a xs z \<Longrightarrow> distinct (a # xs) \<Longrightarrow> linked (link(last (a # xs) := w)) a xs w"
proof (induction xs arbitrary: a)
  case Nil
  then show ?case by simp
next
  case (Cons x xs)
  have "linked link x xs z" "distinct (x # xs)" using Cons.prems by simp_all
  then have "linked (link(last (x # xs) := w)) x xs w" by (rule Cons.IH)
  moreover have "a \<noteq> last (x # xs)"
    using Cons.prems(2) last_in_set [of "x # xs"] by auto
  moreover have "last (a # x # xs) = last (x # xs)" by simp
  ultimately show ?case
    using Cons.prems(1) by (simp only: linked.simps fun_upd_other simp_thms)
qed

lemma linked_unlink:
  assumes "linked link a (xs @ b # ys) z" and "distinct (a # xs @ b # ys)"
  shows "linked (link(last (a # xs) := link b)) a (xs @ ys) z"
proof -
  have l: "linked link a xs b" "linked link b ys z"
    using assms(1) by (simp_all add: linked_append)
  have r: "linked (link(last (a # xs) := link b)) a xs (link b)"
    using l(1) assms(2) by (intro linked_redirect) auto
  show ?thesis
  proof (cases ys)
    case Nil
    with l r show ?thesis by simp
  next
    case (Cons y ys')
    have "last (a # xs) \<in> set (a # xs)" by (rule last_in_set) simp
    then have "last (a # xs) \<notin> set (y # ys')" using assms(2) Cons by auto
    with l r Cons show ?thesis by (simp add: linked_append)
  qed
qed

lemma linked_push:
  assumes "linked link a xs z" and "b \<notin> set (a # xs)" and "distinct (a # xs)"
  shows "linked (link(b := link a, a := b)) a (b # xs) z"
proof (cases xs)
  case Nil
  with assms show ?thesis by auto
next
  case (Cons x xs')
  with assms have "linked link x xs' z" "link a = x" by simp_all
  with assms Cons show ?thesis by auto
qed

lemma linked_snoc:
  assumes "linked link a xs z" and "b \<notin> set (a # xs)" and "distinct (a # xs)"
  shows "linked (link(b := z, last (a # xs) := b)) a (xs @ [b]) z"
proof -
  have "last (a # xs) \<in> set (a # xs)" by (rule last_in_set) simp
  then have "b \<noteq> last (a # xs)" using assms(2) by auto
  moreover have "linked (link(b := z)) a xs z" using assms by simp
  then have "linked (link(b := z, last (a # xs) := b)) a xs b"
    using assms(3) by (rule linked_redirect)
  ultimately show ?thesis by (simp add: linked_append)
qed

lemma scan_find:
  assumes "linked link a xs HEAD" and "HEAD \<notin> set xs" and "length xs < fuel"
  shows "scan fuel link P (link a) = find P xs"
  using assms
proof (induction xs arbitrary: a fuel)
  case Nil
  then show ?case by (cases fuel) auto
next
  case (Cons x xs)
  then show ?case by (cases fuel) auto
qed

end
