(* ===== verification/BlockLayer.thy ===== *)
theory BlockLayer
  imports Prelude
begin

text \<open>
  The contract between the block cache and the code that uses blocks (log.c, fs.c): reading
  a block returns a held buffer with the current contents, stores go to the held buffer,
  writing makes them stable, releasing gives the buffer back. The observers are the current
  contents \<open>view\<close>, the contents on the disk \<open>stable\<close>, the disk writes so far \<open>trace\<close>, the
  blocks with changes that are only in memory \<open>pinned\<close>, the blocks being held \<open>taken\<close>, and
  everything the cache leaves alone \<open>rest\<close>. Idioms that clients repeat are proved here once.
\<close>

locale block_cache =
  fixes inv :: "'s \<Rightarrow> bool"
    and view :: "'s \<Rightarrow> uint \<Rightarrow> block"
    and stable :: "'s \<Rightarrow> uint \<Rightarrow> block"
    and trace :: "'s \<Rightarrow> (uint \<times> block) list"
    and pinned :: "'s \<Rightarrow> uint set"
    and taken :: "'s \<Rightarrow> uint set"
    and holds :: "'s \<Rightarrow> nat \<Rightarrow> uint \<Rightarrow> bool"
    and rest :: "'s \<Rightarrow> 'r"
    and in_range :: "'r \<Rightarrow> uint \<Rightarrow> bool"
    and capacity :: nat
    and blksize :: nat
    and rd :: "uint \<Rightarrow> ('s, nat) prog"
    and dat :: "nat \<Rightarrow> ('s, block) prog"
    and st :: "nat \<Rightarrow> (block \<Rightarrow> block) \<Rightarrow> ('s, unit) prog"
    and wr :: "nat \<Rightarrow> ('s, unit) prog"
    and rel :: "nat \<Rightarrow> ('s, unit) prog"
  assumes read_law:
    "\<lbrakk>inv s; in_range (rest s) bno; bno \<notin> taken s;
      bno \<in> pinned s \<or> card (taken s \<union> pinned s) < capacity\<rbrakk> \<Longrightarrow>
     wp (rd bno) (\<lambda>b t. inv t \<and> holds t b bno \<and> view t = view s \<and> stable t = stable s \<and>
       trace t = trace s \<and> pinned t = pinned s \<and> taken t = insert bno (taken s) \<and> rest t = rest s \<and>
       (\<forall>b' x. holds s b' x \<longrightarrow> holds t b' x)) s"
    and data_law: "inv s \<Longrightarrow> holds s b bno \<Longrightarrow> dat b s = Done (view s bno) s"
    and store_law:
    "\<lbrakk>inv s; holds s b bno; length (f (view s bno)) = blksize\<rbrakk> \<Longrightarrow>
     wp (st b f) (\<lambda>_ t. inv t \<and> view t = (view s)(bno := f (view s bno)) \<and> stable t = stable s \<and>
       trace t = trace s \<and> pinned t = pinned s \<and> taken t = taken s \<and> rest t = rest s \<and>
       (\<forall>b' x. holds s b' x \<longrightarrow> holds t b' x)) s"
    and write_law:
    "\<lbrakk>inv s; holds s b bno\<rbrakk> \<Longrightarrow>
     wp (wr b) (\<lambda>_ t. inv t \<and> view t = view s \<and> stable t = (stable s)(bno := view s bno) \<and>
       trace t = trace s @ [(bno, view s bno)] \<and> pinned t = pinned s - {bno} \<and>
       taken t = taken s \<and> rest t = rest s \<and> (\<forall>b' x. holds s b' x \<longrightarrow> holds t b' x)) s"
    and release_law:
    "\<lbrakk>inv s; holds s b bno; bno \<in> pinned s \<or> view s bno = stable s bno\<rbrakk> \<Longrightarrow>
     wp (rel b) (\<lambda>_ t. inv t \<and> view t = view s \<and> stable t = stable s \<and> trace t = trace s \<and>
       pinned t = pinned s \<and> taken t = taken s - {bno} \<and> rest t = rest s \<and>
       (\<forall>b' x. holds s b' x \<and> x \<noteq> bno \<longrightarrow> holds t b' x)) s"
    and clean_law: "inv s \<Longrightarrow> bno \<notin> taken s \<Longrightarrow> bno \<notin> pinned s \<Longrightarrow> view s bno = stable s bno"
    and length_law: "inv s \<Longrightarrow> length (view s bno) = blksize"
    and finite_law: "inv s \<Longrightarrow> finite (pinned s)"
begin

text \<open>The observers at once, and the laws as rules that run a program forwards.\<close>

definition looks :: "'s \<Rightarrow> (uint \<Rightarrow> block) \<Rightarrow> (uint \<Rightarrow> block) \<Rightarrow> (uint \<times> block) list \<Rightarrow> uint set \<Rightarrow>
    uint set \<Rightarrow> 'r \<Rightarrow> bool" where
  "looks s v d tr p k r \<longleftrightarrow> inv s \<and> view s = v \<and> stable s = d \<and> trace s = tr \<and> pinned s = p \<and>
     taken s = k \<and> rest s = r"

definition keeps :: "'s \<Rightarrow> 's \<Rightarrow> bool" where
  "keeps s t \<longleftrightarrow> (\<forall>b x. holds s b x \<longrightarrow> holds t b x)"

lemma keepsD: "keeps s t \<Longrightarrow> holds s b x \<Longrightarrow> holds t b x"
  by (simp add: keeps_def)

lemma looksI: "inv s \<Longrightarrow> looks s (view s) (stable s) (trace s) (pinned s) (taken s) (rest s)"
  by (simp add: looks_def)

lemma read_rule:
  assumes "looks s v d tr p k r" and "in_range r a" and "a \<notin> k" and "a \<in> p \<or> card (k \<union> p) < capacity"
    and "\<And>b t. looks t v d tr p (insert a k) r \<Longrightarrow> holds t b a \<Longrightarrow> keeps s t \<Longrightarrow> Q b t"
  shows "wp (rd a) Q s"
  by (rule wp_mono [OF read_law [of s a]]) (use assms in \<open>auto simp: looks_def keeps_def\<close>)

lemma data_rule: "looks s v d tr p k r \<Longrightarrow> holds s b a \<Longrightarrow> Q (v a) s \<Longrightarrow> wp (dat b) Q s"
  by (simp add: wp_def looks_def data_law)

lemma store_rule:
  assumes "looks s v d tr p k r" and "holds s b a" and "length (f (v a)) = blksize"
    and "\<And>t. looks t (v(a := f (v a))) d tr p k r \<Longrightarrow> keeps s t \<Longrightarrow> Q () t"
  shows "wp (st b f) Q s"
  by (rule wp_mono [OF store_law [of s b a f]]) (use assms in \<open>auto simp: looks_def keeps_def\<close>)

lemma write_rule:
  assumes "looks s v d tr p k r" and "holds s b a"
    and "\<And>t. looks t v (d(a := v a)) (tr @ [(a, v a)]) (p - {a}) k r \<Longrightarrow> keeps s t \<Longrightarrow> Q () t"
  shows "wp (wr b) Q s"
  by (rule wp_mono [OF write_law [of s b a]]) (use assms in \<open>auto simp: looks_def keeps_def\<close>)

lemma release_rule:
  assumes "looks s v d tr p k r" and "holds s b a" and "a \<in> p \<or> v a = d a"
    and "\<And>t. looks t v d tr p (k - {a}) r \<Longrightarrow> (\<And>b' x. holds s b' x \<Longrightarrow> x \<noteq> a \<Longrightarrow> holds t b' x) \<Longrightarrow> Q () t"
  shows "wp (rel b) Q s"
  by (rule wp_mono [OF release_law [of s b a]]) (use assms in \<open>auto simp: looks_def\<close>)

lemma clean: "looks s v d tr p k r \<Longrightarrow> a \<notin> k \<Longrightarrow> a \<in> p \<or> v a = d a"
  using clean_law by (auto simp: looks_def)

lemma looks_length: "looks s v d tr p k r \<Longrightarrow> length (v a) = blksize"
  by (auto simp: looks_def length_law)

lemma looks_finite: "looks s v d tr p k r \<Longrightarrow> finite p"
  by (auto simp: looks_def finite_law)

text \<open>Read a block and give it back: readsb(), read_head().\<close>

lemma peek:
  assumes l: "looks s v d tr p {} r" and "in_range r a" and "a \<in> p \<or> card p < capacity"
    and Q: "\<And>t. looks t v d tr p {} r \<Longrightarrow> Q (g (v a)) t"
  shows "wp (kbind (rd a) (\<lambda>b. kbind (dat b) (\<lambda>x. kthen (rel b) (kreturn (g x))))) Q s"
  unfolding wp_kbind wp_kthen
proof (rule read_rule [OF l assms(2)])
  fix b t assume t: "looks t v d tr p {a} r" "holds t b a"
  show "wp (dat b) (\<lambda>x. wp (rel b) (\<lambda>_. wp (kreturn (g x)) Q)) t"
    by (rule data_rule [OF t], rule release_rule [OF t]) (use clean [OF l, of a] Q in auto)
qed (use assms in auto)

text \<open>Read a block, change it, write it through, give it back: write_head().\<close>

lemma overwrite:
  assumes l: "looks s v d tr p {} r" and "in_range r a" and "a \<in> p \<or> card p < capacity"
    and len: "length (f (v a)) = blksize"
    and Q: "\<And>t. looks t (v(a := f (v a))) (d(a := f (v a))) (tr @ [(a, f (v a))]) (p - {a}) {} r \<Longrightarrow> Q () t"
  shows "wp (kbind (rd a) (\<lambda>b. kthen (st b f) (kthen (wr b) (rel b)))) Q s"
  unfolding wp_kbind wp_kthen
proof (rule read_rule [OF l assms(2)])
  fix b t assume t: "looks t v d tr p {a} r" "holds t b a"
  show "wp (st b f) (\<lambda>_. wp (wr b) (\<lambda>_. wp (rel b) Q)) t"
  proof (rule store_rule [where f = f, OF t len])
    fix t1 assume t1: "looks t1 (v(a := f (v a))) d tr p {a} r" "keeps t t1"
    note h1 = keepsD [OF t1(2) t(2)]
    show "wp (wr b) (\<lambda>_. wp (rel b) Q) t1"
    proof (rule write_rule [OF t1(1) h1], simp)
      fix t2 assume t2: "looks t2 (v(a := f (v a))) (d(a := f (v a))) (tr @ [(a, f (v a))]) (p - {a}) {a} r"
        "keeps t1 t2"
      show "wp (rel b) Q t2"
        by (rule release_rule [OF t2(1) keepsD [OF t2(2) h1]]) (use Q in auto)
    qed
  qed
qed (use assms in auto)

text \<open>
  Copy block \<open>b\<close> onto block \<open>a\<close>, with the destination read first (write_log()) or the source
  read first (install_trans()).
\<close>

lemma copy_dest_first:
  assumes l: "looks s v d tr p {} r" and ab: "a \<noteq> b" and ra: "in_range r a" and rb: "in_range r b"
    and room: "card p < capacity" "b \<in> p \<or> Suc (card p) < capacity"
    and Q: "\<And>t. looks t (v(a := v b)) (d(a := v b)) (tr @ [(a, v b)]) (p - {a}) {} r \<Longrightarrow> Q () t"
  shows "wp (kbind (rd a) (\<lambda>to. kbind (rd b) (\<lambda>from. kbind (dat from) (\<lambda>x.
     kthen (st to (\<lambda>_. x)) (kthen (wr to) (kthen (rel from) (rel to))))))) Q s"
  unfolding wp_kbind wp_kthen
proof (rule read_rule [OF l ra])
  have fin: "finite p" by (rule looks_finite [OF l])
  fix to t assume t: "looks t v d tr p {a} r" "holds t to a"
  show "wp (rd b) (\<lambda>from. wp (dat from) (\<lambda>x. wp (st to (\<lambda>_. x)) (\<lambda>_. wp (wr to)
      (\<lambda>_. wp (rel from) (\<lambda>_. wp (rel to) Q))))) t"
  proof (rule read_rule [OF t(1) rb])
    show "b \<notin> {a}" using ab by simp
    show "b \<in> p \<or> card ({a} \<union> p) < capacity"
      using room card_insert_le_m1 fin by (auto simp: card_insert_if split: if_splits)
  next
    fix "from" t1 assume t1: "looks t1 v d tr p (insert b {a}) r" "holds t1 from b" "keeps t t1"
    note h1 = keepsD [OF t1(3) t(2)]
    show "wp (dat from) (\<lambda>x. wp (st to (\<lambda>_. x)) (\<lambda>_. wp (wr to)
        (\<lambda>_. wp (rel from) (\<lambda>_. wp (rel to) Q)))) t1"
    proof (rule data_rule [OF t1(1,2)], rule store_rule [OF t1(1) h1])
      show "length (v b) = blksize" using l by (rule looks_length)
    next
      fix t2 assume t2: "looks t2 (v(a := v b)) d tr p (insert b {a}) r" "keeps t1 t2"
      note h2 = keepsD [OF t2(2) h1] keepsD [OF t2(2) t1(2)]
      show "wp (wr to) (\<lambda>_. wp (rel from) (\<lambda>_. wp (rel to) Q)) t2"
      proof (rule write_rule [OF t2(1) h2(1)], simp)
        fix t3 assume t3: "looks t3 (v(a := v b)) (d(a := v b)) (tr @ [(a, v b)]) (p - {a}) {b, a} r"
          "keeps t2 t3"
        note h3 = keepsD [OF t3(2) h2(1)] keepsD [OF t3(2) h2(2)]
        show "wp (rel from) (\<lambda>_. wp (rel to) Q) t3"
        proof (rule release_rule [OF t3(1) h3(2)])
          show "b \<in> p - {a} \<or> (v(a := v b)) b = (d(a := v b)) b"
            using clean [OF l, of b] ab by auto
        next
          fix t4 assume t4: "looks t4 (v(a := v b)) (d(a := v b)) (tr @ [(a, v b)]) (p - {a}) ({b, a} - {b}) r"
            "\<And>b' x. holds t3 b' x \<Longrightarrow> x \<noteq> b \<Longrightarrow> holds t4 b' x"
          show "wp (rel to) Q t4"
            by (rule release_rule [OF t4(1) t4(2) [OF h3(1) ab]]) (use Q ab in \<open>auto simp: insert_Diff_if\<close>)
        qed
      qed
    qed
  qed
qed (use room in auto)

lemma copy_source_first:
  assumes l: "looks s v d tr p {} r" and ab: "a \<noteq> b" and ra: "in_range r a" and rb: "in_range r b"
    and room: "card p < capacity" "b \<in> p \<or> Suc (card p) < capacity"
    and Q: "\<And>t. looks t (v(b := v a)) (d(b := v a)) (tr @ [(b, v a)]) (p - {b}) {} r \<Longrightarrow> Q () t"
  shows "wp (kbind (rd a) (\<lambda>from. kbind (rd b) (\<lambda>to. kbind (dat from) (\<lambda>x.
     kthen (st to (\<lambda>_. x)) (kthen (wr to) (kthen (rel from) (rel to))))))) Q s"
  unfolding wp_kbind wp_kthen
proof (rule read_rule [OF l ra])
  have fin: "finite p" by (rule looks_finite [OF l])
  fix "from" t assume t: "looks t v d tr p {a} r" "holds t from a"
  show "wp (rd b) (\<lambda>to. wp (dat from) (\<lambda>x. wp (st to (\<lambda>_. x)) (\<lambda>_. wp (wr to)
      (\<lambda>_. wp (rel from) (\<lambda>_. wp (rel to) Q))))) t"
  proof (rule read_rule [OF t(1) rb])
    show "b \<notin> {a}" using ab by simp
    show "b \<in> p \<or> card ({a} \<union> p) < capacity"
      using room fin by (auto simp: card_insert_if split: if_splits)
  next
    fix to t1 assume t1: "looks t1 v d tr p (insert b {a}) r" "holds t1 to b" "keeps t t1"
    note h1 = keepsD [OF t1(3) t(2)]
    show "wp (dat from) (\<lambda>x. wp (st to (\<lambda>_. x)) (\<lambda>_. wp (wr to)
        (\<lambda>_. wp (rel from) (\<lambda>_. wp (rel to) Q)))) t1"
    proof (rule data_rule [OF t1(1) h1], rule store_rule [OF t1(1,2)])
      show "length (v a) = blksize" using l by (rule looks_length)
    next
      fix t2 assume t2: "looks t2 (v(b := v a)) d tr p (insert b {a}) r" "keeps t1 t2"
      note h2 = keepsD [OF t2(2) t1(2)] keepsD [OF t2(2) h1]
      show "wp (wr to) (\<lambda>_. wp (rel from) (\<lambda>_. wp (rel to) Q)) t2"
      proof (rule write_rule [OF t2(1) h2(1)], simp)
        fix t3 assume t3: "looks t3 (v(b := v a)) (d(b := v a)) (tr @ [(b, v a)]) (p - {b}) {b, a} r"
          "keeps t2 t3"
        note h3 = keepsD [OF t3(2) h2(1)] keepsD [OF t3(2) h2(2)]
        show "wp (rel from) (\<lambda>_. wp (rel to) Q) t3"
        proof (rule release_rule [OF t3(1) h3(2)])
          show "a \<in> p - {b} \<or> (v(b := v a)) a = (d(b := v a)) a"
            using clean [OF l, of a] ab by auto
        next
          fix t4 assume t4: "looks t4 (v(b := v a)) (d(b := v a)) (tr @ [(b, v a)]) (p - {b}) ({b, a} - {a}) r"
            "\<And>b' x. holds t3 b' x \<Longrightarrow> x \<noteq> a \<Longrightarrow> holds t4 b' x"
          show "wp (rel to) Q t4"
            by (rule release_rule [OF t4(1) t4(2) [OF h3(1)]]) (use Q ab in \<open>auto simp: insert_Diff_if\<close>)
        qed
      qed
    qed
  qed
qed (use room in auto)

end

end
