(* ===== verification/BioSpec.thy ===== *)
theory BioSpec
  imports Bio BlockLayer
begin

text \<open>
  What the buffer cache promises. \<open>bc_inv\<close> is its representation invariant (recency list,
  one buffer per block, clean unlocked buffers agree with the disk), \<open>cview\<close> the disk as a
  client of the cache sees it. Reading, writing and releasing buffers is described by its
  effect on \<open>cview\<close>, on the disk and on the sets of locked and dirty buffers.
\<close>

section \<open>The recency list\<close>

definition nexts :: "'z kbio_scheme \<Rightarrow> nat \<Rightarrow> nat" where
  "nexts s = (\<lambda>i. b_next (bufs s i))"

definition prevs :: "'z kbio_scheme \<Rightarrow> nat \<Rightarrow> nat" where
  "prevs s = (\<lambda>i. b_prev (bufs s i))"

definition ring :: "(nat \<Rightarrow> nat) \<Rightarrow> (nat \<Rightarrow> nat) \<Rightarrow> nat list \<Rightarrow> bool" where
  "ring nx pv xs \<longleftrightarrow> linked nx HEAD xs HEAD \<and> linked pv HEAD (rev xs) HEAD \<and> distinct xs \<and> HEAD \<notin> set xs"

lemma hd_snoc_last_rev: "hd (xs @ [z]) = last (z # rev xs)"
  by (cases xs) (auto simp: last_append)

lemma ring_push:
  assumes "ring nx pv xs" and "b \<noteq> HEAD" and "b \<notin> set xs"
  shows "ring (nx(b := nx HEAD, HEAD := b)) (pv(b := HEAD, nx HEAD := b)) (b # xs)"
proof -
  have "nx HEAD = last (HEAD # rev xs)"
    using assms(1) by (metis ring_def linked_hd hd_snoc_last_rev)
  moreover have "linked (pv(b := HEAD, last (HEAD # rev xs) := b)) HEAD (rev xs @ [b]) HEAD"
    using assms by (intro linked_snoc) (auto simp: ring_def)
  ultimately have "linked (pv(b := HEAD, nx HEAD := b)) HEAD (rev xs @ [b]) HEAD"
    by (simp only:)
  moreover have "linked (nx(b := nx HEAD, HEAD := b)) HEAD (b # xs) HEAD"
    using assms by (intro linked_push) (auto simp: ring_def)
  ultimately show ?thesis using assms by (simp add: ring_def)
qed

lemma ring_unlink:
  assumes "ring nx pv (xs @ b # ys)"
  shows "ring (nx(pv b := nx b)) (pv(nx b := pv b)) (xs @ ys)"
proof -
  have l: "linked nx HEAD (xs @ b # ys) HEAD" "linked pv HEAD (rev ys @ b # rev xs) HEAD"
    "distinct (HEAD # xs @ b # ys)"
    using assms by (auto simp: ring_def)
  have p: "pv b = last (HEAD # xs)"
    using l(2) linked_hd [of pv b "rev xs" HEAD] hd_snoc_last_rev [of "rev xs" HEAD]
    by (simp only: linked_append rev_rev_ident simp_thms)
  have n: "nx b = last (HEAD # rev ys)"
    using l(1) linked_hd [of nx b ys HEAD] hd_snoc_last_rev [of ys HEAD]
    by (simp only: linked_append simp_thms)
  have "linked (nx(last (HEAD # xs) := nx b)) HEAD (xs @ ys) HEAD"
    using l(1,3) by (rule linked_unlink)
  moreover have "linked (pv(last (HEAD # rev ys) := pv b)) HEAD (rev ys @ rev xs) HEAD"
    using l(2) by (rule linked_unlink) (use l(3) in auto)
  moreover have "distinct (xs @ ys)" "HEAD \<notin> set (xs @ ys)" using l(3) by auto
  ultimately show ?thesis by (simp only: ring_def p n rev_append simp_thms)
qed

lemma ring_find_next:
  "ring nx pv xs \<Longrightarrow> length xs < fuel \<Longrightarrow> scan fuel nx P (nx HEAD) = find P xs"
  by (auto simp: ring_def intro: scan_find)

lemma ring_find_prev:
  "ring nx pv xs \<Longrightarrow> length xs < fuel \<Longrightarrow> scan fuel pv P (pv HEAD) = find P (rev xs)"
  by (auto simp: ring_def intro: scan_find)

lemma set_link_fields [simp]:
  "nexts (set_next i v s) = (nexts s)(i := v)" "prevs (set_next i v s) = prevs s"
  "nexts (set_prev i v s) = nexts s" "prevs (set_prev i v s) = (prevs s)(i := v)"
  by (auto simp: set_next_def set_prev_def upd_buf_def nexts_def prevs_def)

text \<open>What a client can see of a buffer: everything but its place in the list.\<close>

definition strip :: "buf \<Rightarrow> buf" where
  "strip b = b\<lparr>b_prev := 0, b_next := 0\<rparr>"

lemma strip_set_link [simp]:
  "strip (bufs (set_next i v s) j) = strip (bufs s j)"
  "strip (bufs (set_prev i v s) j) = strip (bufs s j)"
  by (simp_all add: set_next_def set_prev_def upd_buf_def strip_def)

lemma strip_eq_fields:
  "strip b = strip c \<longleftrightarrow> b_flags b = b_flags c \<and> b_dev b = b_dev c \<and> b_blockno b = b_blockno c \<and>
     b_lock b = b_lock c \<and> b_refcnt b = b_refcnt c \<and> b_data b = b_data c \<and> buf.more b = buf.more c"
  by (cases b; cases c) (auto simp: strip_def)

lemma set_link_frame:
  "\<exists>bs. set_next i v s = s\<lparr>bufs := bs\<rparr>" "\<exists>bs. set_prev i v s = s\<lparr>bufs := bs\<rparr>"
  by (auto simp: set_next_def set_prev_def upd_buf_def)

lemma strip_move_front [simp]: "strip (bufs (move_front b s) i) = strip (bufs s i)"
  by (simp add: move_front_def Let_def)

lemma move_front_frame: "\<exists>bs. move_front b s = s\<lparr>bufs := bs\<rparr>"
proof -
  have ex: "\<exists>bs. t = s\<lparr>bufs := bs\<rparr> \<Longrightarrow> \<exists>bs. set_next i v t = s\<lparr>bufs := bs\<rparr>"
    "\<exists>bs. t = s\<lparr>bufs := bs\<rparr> \<Longrightarrow> \<exists>bs. set_prev i v t = s\<lparr>bufs := bs\<rparr>" for t i v
    using set_link_frame [of i v t] by fastforce+
  show ?thesis unfolding move_front_def Let_def
    by (intro ex exI [of _ "bufs s"]) simp
qed

lemma ring_move_front:
  assumes "ring (nexts s) (prevs s) (xs @ b # ys)"
  shows "ring (nexts (move_front b s)) (prevs (move_front b s)) (b # xs @ ys)"
proof -
  let ?n = "nexts s b" and ?p = "prevs s b"
  let ?nx = "(nexts s)(?p := ?n)" and ?pv = "(prevs s)(?n := ?p)"
  have b: "b \<noteq> HEAD" "b \<notin> set (xs @ ys)" using assms by (auto simp: ring_def)
  have "ring ?nx ?pv (xs @ ys)" using assms by (rule ring_unlink)
  then have r: "ring (?nx(b := ?nx HEAD, HEAD := b)) (?pv(b := HEAD, ?nx HEAD := b)) (b # xs @ ys)"
    using b by (rule ring_push)
  have nx: "b_next (bufs t i) = nexts t i" and pv: "b_prev (bufs t i) = prevs t i"
    for t :: "'a kbio_scheme" and i
    by (simp_all add: nexts_def prevs_def)
  have ne: "nexts s b \<noteq> b" "prevs s b \<noteq> b"
    using assms hd_in_set [of "ys @ [HEAD]"] hd_in_set [of "rev xs @ [HEAD]"]
    by (auto simp: ring_def linked_append dest!: linked_hd)
  have n: "nexts (move_front b s) = ?nx(b := ?nx HEAD, HEAD := b)"
    using b(1) ne by (simp add: move_front_def Let_def nx pv)
  have p: "prevs (move_front b s) = ?pv(b := HEAD, ?nx HEAD := b)"
    using b(1) ne by (simp add: move_front_def Let_def nx pv)
  show ?thesis unfolding n p by (rule r)
qed

section \<open>The invariant\<close>

definition mypid :: "'z kbio_scheme \<Rightarrow> uint" where
  "mypid s = p_pid (ptable s (the (cpu_proc s)))"

definition mylock :: "'z kbio_scheme \<Rightarrow> sleeplock" where
  "mylock s = \<lparr>sl_locked = True, sl_pid = mypid s\<rparr>"

text \<open>Buffer i is the cache's copy of block \<open>bno\<close> of the root device.\<close>

definition cached :: "'z kbio_scheme \<Rightarrow> nat \<Rightarrow> uint \<Rightarrow> bool" where
  "cached s i bno \<longleftrightarrow> i < NBUF \<and> b_dev (bufs s i) = ROOTDEV \<and> b_blockno (bufs s i) = bno"

definition dirty :: "'z kbio_scheme \<Rightarrow> nat \<Rightarrow> bool" where
  "dirty s i \<longleftrightarrow> b_flags (bufs s i) AND B_DIRTY \<noteq> 0"

definition locked :: "'z kbio_scheme \<Rightarrow> nat \<Rightarrow> bool" where
  "locked s i \<longleftrightarrow> sl_locked (b_lock (bufs s i))"

definition busy :: "'z kbio_scheme \<Rightarrow> nat set" where
  "busy s = {i. i < NBUF \<and> (locked s i \<or> dirty s i)}"

text \<open>
  A buffer in use for the root device is valid; while nobody holds it and it is clean, its
  data are the disk's. A buffer never used has no flags. Only the process that locked a
  buffer has a reference to it.
\<close>

definition buf_ok :: "'z kbio_scheme \<Rightarrow> nat \<Rightarrow> bool" where
  "buf_ok s i \<longleftrightarrow>
     length (b_data (bufs s i)) = BSIZE \<and>
     b_refcnt (bufs s i) = (if locked s i then 1 else 0) \<and>
     (if b_dev (bufs s i) = ROOTDEV
      then b_flags (bufs s i) \<in> {B_VALID, B_VALID OR B_DIRTY} \<and> b_blockno (bufs s i) < disksize s \<and>
        (\<not> locked s i \<and> \<not> dirty s i \<longrightarrow> b_data (bufs s i) = disk s (b_blockno (bufs s i)))
      else b_flags (bufs s i) = 0 \<and> \<not> locked s i)"

definition bc_inv :: "'z kbio_scheme \<Rightarrow> bool" where
  "bc_inv s \<longleftrightarrow>
     (\<exists>xs. ring (nexts s) (prevs s) xs \<and> set xs = {..<NBUF}) \<and>
     (\<forall>i<NBUF. buf_ok s i) \<and>
     (\<forall>i j bno. cached s i bno \<longrightarrow> cached s j bno \<longrightarrow> i = j) \<and>
     (\<forall>bno. length (disk s bno) = BSIZE) \<and>
     cpu_proc s \<noteq> None"

text \<open>The contents of a block as a client of the cache sees them.\<close>

definition cview :: "'z kbio_scheme \<Rightarrow> uint \<Rightarrow> block" where
  "cview s bno = (case find (\<lambda>i. cached s i bno) [0..<NBUF] of
       Some i \<Rightarrow> b_data (bufs s i) | None \<Rightarrow> disk s bno)"

definition dirtied :: "'z kbio_scheme \<Rightarrow> uint set" where
  "dirtied s = {bno. \<exists>i. cached s i bno \<and> dirty s i}"

lemma bc_inv_unique: "bc_inv s \<Longrightarrow> cached s i bno \<Longrightarrow> cached s j bno \<Longrightarrow> i = j"
  unfolding bc_inv_def by blast

lemma bc_inv_ok: "bc_inv s \<Longrightarrow> i < NBUF \<Longrightarrow> buf_ok s i"
  by (simp add: bc_inv_def)

lemma cview_cached:
  assumes "bc_inv s" and "cached s i bno"
  shows "cview s bno = b_data (bufs s i)"
proof -
  have "find (\<lambda>i. cached s i bno) [0..<NBUF] = Some i"
  proof (rule find_unique)
    show "cached s i bno" and "i \<in> set [0..<NBUF]" using assms(2) by (auto simp: cached_def)
    show "\<And>j. cached s j bno \<Longrightarrow> j = i" using assms bc_inv_unique by blast
  qed
  then show ?thesis by (simp add: cview_def)
qed

lemma cview_uncached:
  assumes "\<And>i. \<not> cached s i bno"
  shows "cview s bno = disk s bno"
proof -
  have "find (\<lambda>i. cached s i bno) [0..<NBUF] = None"
    using assms by (simp add: find_None_iff)
  then show ?thesis by (simp add: cview_def)
qed

lemma cview_cases:
  assumes "bc_inv s"
  obtains (hit) i where "cached s i bno" "cview s bno = b_data (bufs s i)"
  | (miss) "\<forall>i. \<not> cached s i bno" "cview s bno = disk s bno"
proof (cases "\<exists>i. cached s i bno")
  case True
  then show thesis using cview_cached [OF assms] hit by blast
next
  case False
  then show thesis using cview_uncached miss by blast
qed

lemma bc_inv_disk: "bc_inv s \<Longrightarrow> length (disk s bno) = BSIZE"
  by (simp add: bc_inv_def)

lemma length_cview:
  assumes "bc_inv s"
  shows "length (cview s bno) = BSIZE"
  using assms
proof (cases rule: cview_cases [of s bno])
  case (hit i)
  then show ?thesis using bc_inv_ok [OF assms, of i] by (simp add: cached_def buf_ok_def)
next
  case miss
  then show ?thesis using bc_inv_disk [OF assms] by simp
qed

lemma cview_clean:
  assumes "bc_inv s" and "\<And>i. cached s i bno \<Longrightarrow> \<not> locked s i" and "bno \<notin> dirtied s"
  shows "cview s bno = disk s bno"
  using assms(1)
proof (cases rule: cview_cases [of s bno])
  case (hit i)
  then have "buf_ok s i" "\<not> locked s i" "\<not> dirty s i"
    using assms bc_inv_ok by (auto simp: cached_def dirtied_def)
  with hit show ?thesis by (auto simp: buf_ok_def cached_def)
next
  case miss
  then show ?thesis by simp
qed

lemma ring_length:
  assumes "ring nx pv xs" and "set xs = {..<NBUF}"
  shows "length xs = NBUF"
  using assms distinct_card [of xs] by (simp add: ring_def)

lemma bget_hit_cached:
  assumes "bc_inv s" and "cached s i bno"
  shows "bget_hit ROOTDEV bno s = Some i"
proof -
  obtain xs where r: "ring (nexts s) (prevs s) xs" "set xs = {..<NBUF}"
    using assms by (auto simp: bc_inv_def)
  let ?P = "\<lambda>j. b_dev (bufs s j) = ROOTDEV \<and> b_blockno (bufs s j) = bno"
  have "bget_hit ROOTDEV bno s = find ?P xs"
    using ring_find_next [OF r(1), of "Suc NBUF" ?P] ring_length [OF r]
    by (simp add: bget_hit_def nexts_def)
  also have "\<dots> = find (\<lambda>j. cached s j bno) xs"
    using r(2) by (intro find_cong) (auto simp: cached_def)
  also have "\<dots> = Some i"
  proof (rule find_unique)
    show "cached s i bno" and "i \<in> set xs" using assms(2) r(2) by (auto simp: cached_def)
    show "\<And>j. cached s j bno \<Longrightarrow> j = i" using assms bc_inv_unique by blast
  qed
  finally show ?thesis .
qed

lemma bget_hit_uncached:
  assumes "bc_inv s" and "\<And>i. \<not> cached s i bno"
  shows "bget_hit ROOTDEV bno s = None"
proof -
  obtain xs where r: "ring (nexts s) (prevs s) xs" "set xs = {..<NBUF}"
    using assms by (auto simp: bc_inv_def)
  let ?P = "\<lambda>j. b_dev (bufs s j) = ROOTDEV \<and> b_blockno (bufs s j) = bno"
  have "bget_hit ROOTDEV bno s = find ?P xs"
    using ring_find_next [OF r(1), of "Suc NBUF" ?P] ring_length [OF r]
    by (simp add: bget_hit_def nexts_def)
  with assms(2) r(2) show ?thesis by (auto simp: find_None_iff cached_def)
qed

lemma bget_victim_free:
  assumes "bc_inv s" and "\<exists>i<NBUF. i \<notin> busy s"
  obtains b where "bget_victim s = Some b" "b < NBUF" "b \<notin> busy s"
proof -
  obtain xs where r: "ring (nexts s) (prevs s) xs" "set xs = {..<NBUF}"
    using assms by (auto simp: bc_inv_def)
  let ?P = "\<lambda>i. b_refcnt (bufs s i) = 0 \<and> b_flags (bufs s i) AND B_DIRTY = 0"
  have v: "bget_victim s = find ?P (rev xs)"
    using ring_find_prev [OF r(1), of "Suc NBUF" ?P] ring_length [OF r]
    by (simp add: bget_victim_def prevs_def)
  have P: "?P i \<longleftrightarrow> i \<notin> busy s" if "i < NBUF" for i
    using bc_inv_ok [OF assms(1) that] that by (auto simp: buf_ok_def busy_def dirty_def)
  obtain i where i: "i < NBUF" "i \<notin> busy s" using assms(2) by blast
  then have "?P i" "i \<in> set (rev xs)" using P r(2) by auto
  then obtain b where b: "find ?P (rev xs) = Some b"
    by (cases "find ?P (rev xs)") (auto simp: find_None_iff)
  then have "?P b" "b \<in> set xs" using find_Some_sat [OF b] by auto
  then have "b < NBUF" "b \<notin> busy s" using r(2) P by auto
  with v b that show thesis by auto
qed

section \<open>Reading a block\<close>

text \<open>The state after bread() has returned buffer \<open>b\<close> for block \<open>bno\<close>.\<close>

definition hold :: "nat \<Rightarrow> uint \<Rightarrow> 'z kbio_scheme \<Rightarrow> 'z kbio_scheme" where
  "hold b bno s = upd_buf b (\<lambda>x. x\<lparr>b_dev := ROOTDEV, b_blockno := bno,
     b_flags := (if cached s b bno then b_flags x else B_VALID),
     b_lock := mylock s, b_refcnt := 1, b_data := cview s bno\<rparr>) s"

lemma flag_algebra [simp]:
  "B_VALID AND B_VALID = B_VALID" "B_VALID AND B_DIRTY = 0" "B_DIRTY AND B_VALID = 0"
  "(B_VALID OR B_DIRTY) AND B_VALID = B_VALID" "(B_VALID OR B_DIRTY) AND B_DIRTY = B_DIRTY"
  "B_VALID \<noteq> 0" "B_DIRTY \<noteq> 0" "B_VALID OR B_DIRTY \<noteq> B_VALID" "B_VALID OR B_DIRTY \<noteq> 0"
  "(B_VALID OR B_DIRTY) OR B_DIRTY = B_VALID OR B_DIRTY"
  "(B_VALID OR B_DIRTY) AND NOT B_DIRTY = B_VALID" "B_VALID OR B_VALID = B_VALID"
  "(B_VALID OR B_DIRTY) AND (B_VALID OR B_DIRTY) = B_VALID OR B_DIRTY"
  "B_VALID AND (B_VALID OR B_DIRTY) = B_VALID"
  by (simp_all add: B_VALID_def B_DIRTY_def)

lemma acquire_buf:
  assumes "\<not> locked s b" and "cpu_proc s \<noteq> None"
  shows "acquiresleep (buf_lock b) s = Done () (upd_buf b (\<lambda>x. x\<lparr>b_lock := mylock s\<rparr>) s)"
proof -
  obtain p where "cpu_proc s = Some p" using assms(2) by blast
  then show ?thesis
    using assms(1) by (subst acquiresleep_free) (auto simp: buf_lock_def locked_def mylock_def mypid_def)
qed

lemma holding_buf:
  assumes "b_lock (bufs s b) = mylock s" and "cpu_proc s \<noteq> None"
  shows "holdingsleep (buf_lock b) s = Done True s"
proof -
  obtain p where "cpu_proc s = Some p" using assms(2) by blast
  then show ?thesis
    using assms(1) by (simp add: holdingsleep_eq buf_lock_def mylock_def mypid_def)
qed

lemma upd_buf_sel [simp]:
  "bufs (upd_buf i f s) = (bufs s)(i := f (bufs s i))"
  "disk (upd_buf i f s) = disk s" "disksize (upd_buf i f s) = disksize s"
  "dtrace (upd_buf i f s) = dtrace s" "ptable (upd_buf i f s) = ptable s"
  "cpu_proc (upd_buf i f s) = cpu_proc s" "nextpid (upd_buf i f s) = nextpid s"
  "initproc (upd_buf i f s) = initproc s" "more (upd_buf i f s) = more s"
  "mypid (upd_buf i f s) = mypid s" "mylock (upd_buf i f s) = mylock s"
  by (simp_all add: upd_buf_def mypid_def mylock_def)

lemma upd_buf_twice: "upd_buf i f (upd_buf i g s) = upd_buf i (f \<circ> g) s"
  by (simp add: upd_buf_def)

lemma upd_buf_cong: "f (bufs s i) = g (bufs s i) \<Longrightarrow> upd_buf i f s = upd_buf i g s"
  by (simp add: upd_buf_def)

lemma bread_hit:
  assumes "bc_inv s" and "cached s b bno" and "\<not> locked s b"
  shows "bread ROOTDEV bno s = Done b (hold b bno s)"
proof -
  have cpu: "cpu_proc s \<noteq> None" using assms(1) by (simp add: bc_inv_def)
  have ok: "buf_ok s b" using assms by (simp add: cached_def bc_inv_ok)
  have dev: "b_dev (bufs s b) = ROOTDEV" and bno: "b_blockno (bufs s b) = bno"
    using assms(2) by (simp_all add: cached_def)
  have ref: "b_refcnt (bufs s b) = 0" using ok assms(3) by (simp add: buf_ok_def)
  have fl: "b_flags (bufs s b) AND B_VALID \<noteq> 0" using ok dev by (auto simp: buf_ok_def)
  let ?s1 = "upd_buf b (\<lambda>x. x\<lparr>b_refcnt := b_refcnt x + 1\<rparr>) s"
  have "acquiresleep (buf_lock b) ?s1 = Done () (upd_buf b (\<lambda>x. x\<lparr>b_lock := mylock s\<rparr>) ?s1)"
    using acquire_buf [of ?s1 b] assms(3) cpu by (simp add: locked_def)
  then have "bread ROOTDEV bno s = Done b (upd_buf b (\<lambda>x. x\<lparr>b_lock := mylock s\<rparr>) ?s1)"
    using bget_hit_cached [OF assms(1,2)] fl
    by (simp add: bread_def bget_def kbind_def kthen_def kwhen_def)
  moreover have "upd_buf b (\<lambda>x. x\<lparr>b_lock := mylock s\<rparr>) ?s1 = hold b bno s"
    unfolding hold_def upd_buf_twice
    by (rule upd_buf_cong, rule buf.equality)
      (use ref dev bno assms(2) cview_cached [OF assms(1,2)] in simp_all)
  ultimately show ?thesis by simp
qed

lemma bread_miss:
  assumes "bc_inv s" and "\<And>i. \<not> cached s i bno" and "bno < disksize s" and "\<exists>i<NBUF. i \<notin> busy s"
  obtains b where "bread ROOTDEV bno s = Done b (hold b bno s)" "b < NBUF" "b \<notin> busy s"
proof -
  have cpu: "cpu_proc s \<noteq> None" using assms(1) by (simp add: bc_inv_def)
  obtain b where b: "bget_victim s = Some b" "b < NBUF" "b \<notin> busy s"
    using bget_victim_free [OF assms(1,4)] by blast
  let ?g = "\<lambda>x. x\<lparr>b_dev := ROOTDEV, b_blockno := bno, b_flags := 0, b_refcnt := 1\<rparr>"
  let ?s1 = "upd_buf b ?g s"
  let ?s2 = "upd_buf b (\<lambda>x. x\<lparr>b_lock := mylock s\<rparr>) ?s1"
  have "acquiresleep (buf_lock b) ?s1 = Done () ?s2"
    using acquire_buf [of ?s1 b] b(2,3) cpu by (simp add: locked_def busy_def)
  then have g: "bget ROOTDEV bno s = Done b ?s2"
    using bget_hit_uncached [OF assms(1,2)] b(1) by (simp add: bget_def kbind_def kthen_def)
  have "holdingsleep (buf_lock b) ?s2 = Done True ?s2"
    using cpu by (intro holding_buf) simp_all
  then have "iderw b ?s2 = Done () (upd_buf b (\<lambda>x. x\<lparr>b_flags := b_flags x OR B_VALID\<rparr>)
      (upd_buf b (\<lambda>x. x\<lparr>b_data := disk s bno\<rparr>) ?s2))"
    using assms(3) by (simp add: iderw_def kbind_Done not_le ROOTDEV_def)
  also have "\<dots> = Done () (hold b bno s)"
    unfolding hold_def upd_buf_twice
    by (rule arg_cong [of _ _ "Done ()"], rule upd_buf_cong, rule buf.equality)
      (use assms(2) cview_uncached [OF assms(2)] in simp_all)
  finally have "iderw b ?s2 = Done () (hold b bno s)" .
  with g have "bread ROOTDEV bno s = Done b (hold b bno s)"
    by (simp add: bread_def kbind_Done kwhen_def kthen_Done)
  with b that show thesis by blast
qed

section \<open>Changing one buffer\<close>

definition held :: "'z kbio_scheme \<Rightarrow> nat \<Rightarrow> uint \<Rightarrow> bool" where
  "held s b bno \<longleftrightarrow> cached s b bno \<and> b_lock (bufs s b) = mylock s"

definition lockedblks :: "'z kbio_scheme \<Rightarrow> uint set" where
  "lockedblks s = {bno. \<exists>i. cached s i bno \<and> locked s i}"

lemma busy_dev:
  assumes "bc_inv s" and "i \<in> busy s"
  shows "b_dev (bufs s i) = ROOTDEV"
  using assms bc_inv_ok [OF assms(1), of i] by (auto simp: busy_def buf_ok_def dirty_def split: if_splits)

lemma card_busy:
  assumes "bc_inv s"
  shows "card (busy s) = card (lockedblks s \<union> dirtied s)"
proof -
  have inj: "inj_on (\<lambda>i. b_blockno (bufs s i)) (busy s)"
  proof (rule inj_onI)
    fix i j assume "i \<in> busy s" "j \<in> busy s" "b_blockno (bufs s i) = b_blockno (bufs s j)"
    then show "i = j"
      using assms bc_inv_unique [of s i "b_blockno (bufs s i)" j] busy_dev [OF assms]
      by (auto simp: cached_def busy_def)
  qed
  have "(\<lambda>i. b_blockno (bufs s i)) ` busy s = lockedblks s \<union> dirtied s"
    using busy_dev [OF assms] by (force simp: lockedblks_def dirtied_def cached_def busy_def)
  then show ?thesis using card_image [OF inj] by simp
qed

lemma room_free:
  assumes "bc_inv s" and "card (lockedblks s \<union> dirtied s) < NBUF"
  shows "\<exists>i<NBUF. i \<notin> busy s"
proof (rule ccontr)
  assume "\<not> ?thesis"
  then have "busy s = {..<NBUF}" by (auto simp: busy_def)
  then show False using assms card_busy [OF assms(1)] by simp
qed

lemma cached_upd:
  "cached (upd_buf b f s) i x \<longleftrightarrow>
     (if i = b then b < NBUF \<and> b_dev (f (bufs s b)) = ROOTDEV \<and> b_blockno (f (bufs s b)) = x
      else cached s i x)"
  by (auto simp: cached_def)

lemma locked_upd:
  "locked (upd_buf b f s) i = (if i = b then sl_locked (b_lock (f (bufs s b))) else locked s i)"
  by (simp add: locked_def)

lemma dirty_upd:
  "dirty (upd_buf b f s) i = (if i = b then b_flags (f (bufs s b)) AND B_DIRTY \<noteq> 0 else dirty s i)"
  by (simp add: dirty_def)

lemmas upd_obs = cached_upd locked_upd dirty_upd

lemma bc_inv_upd:
  assumes inv: "bc_inv s"
    and links: "b_next (f (bufs s b)) = b_next (bufs s b)" "b_prev (f (bufs s b)) = b_prev (bufs s b)"
    and ok: "buf_ok (upd_buf b f s) b"
    and uniq: "\<And>i x. i \<noteq> b \<Longrightarrow> cached s i x \<Longrightarrow> \<not> cached (upd_buf b f s) b x"
  shows "bc_inv (upd_buf b f s)"
proof -
  have n: "nexts (upd_buf b f s) = nexts s" "prevs (upd_buf b f s) = prevs s"
    using links by (auto simp: nexts_def prevs_def)
  have o: "buf_ok (upd_buf b f s) i" if "i < NBUF" for i
  proof (cases "i = b")
    case True
    with ok show ?thesis by simp
  next
    case False
    with bc_inv_ok [OF inv that] show ?thesis by (simp add: buf_ok_def upd_obs split: if_splits)
  qed
  have u: "i = j" if "cached (upd_buf b f s) i x" "cached (upd_buf b f s) j x" for i j x
  proof (cases "i = b \<or> j = b")
    case True
    then show ?thesis
      using that uniq [of i x] uniq [of j x] cached_upd [of b f s i x] cached_upd [of b f s j x] by auto
  next
    case False
    then have "cached s i x" "cached s j x" using that by (simp_all add: cached_upd)
    then show ?thesis by (rule bc_inv_unique [OF inv])
  qed
  show ?thesis unfolding bc_inv_def n
    using inv o u by (simp add: bc_inv_def)
qed

lemma bc_inv_hold:
  assumes inv: "bc_inv s" and b: "b < NBUF" and free: "\<not> locked s b" and r: "bno < disksize s"
    and c: "cached s b bno \<or> b \<notin> busy s \<and> (\<forall>i. \<not> cached s i bno)"
  shows "bc_inv (hold b bno s)"
  unfolding hold_def
proof (rule bc_inv_upd [OF inv])
  show "buf_ok (upd_buf b (\<lambda>x. x\<lparr>b_dev := ROOTDEV, b_blockno := bno,
      b_flags := if cached s b bno then b_flags x else B_VALID, b_lock := mylock s, b_refcnt := 1,
      b_data := cview s bno\<rparr>) s) b"
    using bc_inv_ok [OF inv b] r length_cview [OF inv, of bno]
    by (auto simp: buf_ok_def upd_obs mylock_def cached_def)
next
  fix i x
  assume "i \<noteq> b" "cached s i x"
  then show "\<not> cached (upd_buf b (\<lambda>x. x\<lparr>b_dev := ROOTDEV, b_blockno := bno,
      b_flags := if cached s b bno then b_flags x else B_VALID, b_lock := mylock s, b_refcnt := 1,
      b_data := cview s bno\<rparr>) s) b x"
    using c bc_inv_unique [OF inv, of i x b] by (auto simp: upd_obs)
qed simp_all

lemma cview_hold:
  assumes inv: "bc_inv s" and b: "b < NBUF" and free: "\<not> locked s b" and r: "bno < disksize s"
    and c: "cached s b bno \<or> b \<notin> busy s \<and> (\<forall>i. \<not> cached s i bno)"
  shows "cview (hold b bno s) = cview s"
proof
  fix x
  let ?t = "hold b bno s"
  have inv': "bc_inv ?t" by (rule bc_inv_hold [OF assms])
  have ch: "cached ?t i y \<longleftrightarrow> (if i = b then y = bno else cached s i y)" for i y
    using b by (auto simp: hold_def cached_upd)
  show "cview ?t x = cview s x"
  proof (cases "x = bno")
    case True
    then have "cview ?t x = b_data (bufs ?t b)" by (intro cview_cached [OF inv']) (simp add: ch)
    with True show ?thesis by (simp add: hold_def)
  next
    case False
    from inv show ?thesis
    proof (cases rule: cview_cases [of s x])
      case (hit i)
      show ?thesis
      proof (cases "i = b")
        case True
        then have "b \<notin> busy s" using c hit(1) False by (auto simp: cached_def)
        then have "b_data (bufs s b) = disk s x"
          using bc_inv_ok [OF inv b] hit(1) True b by (auto simp: buf_ok_def busy_def cached_def)
        moreover have "\<not> cached ?t j x" for j
          using False hit(1) True bc_inv_unique [OF inv, of j x b] by (auto simp: ch)
        then have "cview ?t x = disk ?t x" by (rule cview_uncached)
        ultimately show ?thesis using hit(2) True by (simp add: hold_def)
      next
        case ne: False
        then have "cview ?t x = b_data (bufs ?t i)"
          using hit(1) by (intro cview_cached [OF inv']) (simp add: ch)
        with hit(2) ne show ?thesis by (simp add: hold_def)
      qed
    next
      case miss
      then have "\<not> cached ?t j x" for j using False by (simp add: ch)
      then have "cview ?t x = disk ?t x" by (rule cview_uncached)
      with miss show ?thesis by (simp add: hold_def)
    qed
  qed
qed

section \<open>The laws of the block layer\<close>

text \<open>Everything the cache leaves alone; of the process table only sleeping states may change.\<close>

definition brest :: "'z kbio_scheme \<Rightarrow>
    uint \<times> nat option \<times> uint \<times> nat option \<times> (nat \<Rightarrow> proc) \<times> 'z" where
  "brest s = (disksize s, cpu_proc s, nextpid s, initproc s,
     (\<lambda>i. (ptable s i)\<lparr>p_state := UNUSED\<rparr>), kbio.more s)"

definition brange :: "uint \<times> 'b \<Rightarrow> uint \<Rightarrow> bool" where
  "brange r bno \<longleftrightarrow> bno < fst r"

definition buf_data :: "nat \<Rightarrow> ('z kbio_scheme, block) prog" where
  "buf_data b = kget (\<lambda>s. b_data (bufs s b))"

lemma brest_upd_buf [simp]: "brest (upd_buf i f s) = brest s"
  by (simp add: brest_def upd_buf_def)

lemma brest_pid:
  assumes "brest t = brest s"
  shows "mypid t = mypid s"
proof -
  have e: "cpu_proc t = cpu_proc s" "(\<lambda>i. (ptable t i)\<lparr>p_state := UNUSED\<rparr>) = (\<lambda>i. (ptable s i)\<lparr>p_state := UNUSED\<rparr>)"
    using assms by (simp_all add: brest_def)
  have "p_pid (ptable t i) = p_pid (ptable s i)" for i
    using arg_cong [OF fun_cong [OF e(2), of i], of p_pid] by simp
  with e(1) show ?thesis by (simp add: mypid_def)
qed

lemma held_locked: "held s b bno \<Longrightarrow> locked s b"
  by (simp add: held_def locked_def mylock_def)

lemma hold_obs:
  assumes inv: "bc_inv s" and b: "b < NBUF" and free: "\<not> locked s b"
    and c: "cached s b bno \<or> b \<notin> busy s \<and> (\<forall>i. \<not> cached s i bno)"
  shows "held (hold b bno s) b bno" "dirtied (hold b bno s) = dirtied s"
    "lockedblks (hold b bno s) = insert bno (lockedblks s)"
    "held s b' x \<Longrightarrow> held (hold b bno s) b' x"
proof -
  let ?t = "hold b bno s"
  have ch: "cached ?t i y \<longleftrightarrow> (if i = b then y = bno else cached s i y)" for i y
    using b by (auto simp: hold_def cached_upd)
  have lk: "locked ?t i \<longleftrightarrow> i = b \<or> locked s i" for i
    by (auto simp: hold_def locked_upd mylock_def)
  have di: "dirty ?t i \<longleftrightarrow> (if i = b then cached s b bno \<and> dirty s b else dirty s i)" for i
    by (simp add: hold_def dirty_upd) (simp add: dirty_def)
  have clean: "cached s b bno" if "dirty s b"
    using c that b by (auto simp: busy_def)
  show "held ?t b bno" using b by (simp add: held_def ch) (simp add: hold_def)
  show "dirtied ?t = dirtied s"
  proof (rule set_eqI)
    fix x
    have "(\<exists>i. cached ?t i x \<and> dirty ?t i) \<longleftrightarrow> (\<exists>i. cached s i x \<and> dirty s i)"
      using clean unfolding ch di by (metis cached_def)
    then show "x \<in> dirtied ?t \<longleftrightarrow> x \<in> dirtied s" by (simp add: dirtied_def)
  qed
  show "lockedblks ?t = insert bno (lockedblks s)"
    using free by (auto simp: lockedblks_def ch lk)
  show "held ?t b' x" if "held s b' x"
  proof -
    have "b' \<noteq> b" using that free held_locked by blast
    then show ?thesis using that by (simp add: held_def ch) (simp add: hold_def)
  qed
qed

lemma bread_law:
  assumes inv: "bc_inv s" and r: "brange (brest s) bno" and nl: "bno \<notin> lockedblks s"
    and room: "bno \<in> dirtied s \<or> card (lockedblks s \<union> dirtied s) < NBUF"
  shows "wp (bread ROOTDEV bno) (\<lambda>b t. bc_inv t \<and> held t b bno \<and> cview t = cview s \<and> disk t = disk s \<and>
       dtrace t = dtrace s \<and> dirtied t = dirtied s \<and> lockedblks t = insert bno (lockedblks s) \<and>
       brest t = brest s \<and> (\<forall>b' x. held s b' x \<longrightarrow> held t b' x)) s"
proof -
  have rng: "bno < disksize s" using r by (simp add: brange_def brest_def)
  have "\<exists>b. bread ROOTDEV bno s = Done b (hold b bno s) \<and> b < NBUF \<and> \<not> locked s b \<and>
      (cached s b bno \<or> b \<notin> busy s \<and> (\<forall>i. \<not> cached s i bno))"
  proof (cases "\<exists>b. cached s b bno")
    case True
    then obtain b where b: "cached s b bno" by blast
    then have "\<not> locked s b" using nl by (auto simp: lockedblks_def)
    with b bread_hit [OF inv b] show ?thesis by (auto simp: cached_def)
  next
    case False
    then have nc: "\<And>i. \<not> cached s i bno" by blast
    then have "card (lockedblks s \<union> dirtied s) < NBUF" using room by (auto simp: dirtied_def)
    from room_free [OF inv this] obtain b where "bread ROOTDEV bno s = Done b (hold b bno s)" "b < NBUF" "b \<notin> busy s"
      using bread_miss [OF inv nc rng] by blast
    with nc show ?thesis by (auto simp: busy_def)
  qed
  then obtain b where b: "bread ROOTDEV bno s = Done b (hold b bno s)" "b < NBUF" "\<not> locked s b"
      "cached s b bno \<or> b \<notin> busy s \<and> (\<forall>i. \<not> cached s i bno)" by blast
  note o = hold_obs [OF inv b(2,3,4)]
  show ?thesis
    unfolding wp_def b(1) outcome.case
    by (use bc_inv_hold [OF inv b(2,3) rng b(4)] cview_hold [OF inv b(2,3) rng b(4)] o in \<open>auto simp: hold_def\<close>)
qed

lemma buf_data_law: "bc_inv s \<Longrightarrow> held s b bno \<Longrightarrow> buf_data b s = Done (cview s bno) s"
  by (auto simp: buf_data_def held_def dest: cview_cached)

lemma set_data_law:
  assumes inv: "bc_inv s" and h: "held s b bno" and len: "length (f (cview s bno)) = BSIZE"
  shows "wp (set_data b f) (\<lambda>_ t. bc_inv t \<and> cview t = (cview s)(bno := f (cview s bno)) \<and> disk t = disk s \<and>
       dtrace t = dtrace s \<and> dirtied t = dirtied s \<and> lockedblks t = lockedblks s \<and> brest t = brest s \<and>
       (\<forall>b' x. held s b' x \<longrightarrow> held t b' x)) s"
proof -
  let ?g = "\<lambda>x. x\<lparr>b_data := f (b_data x)\<rparr>"
  let ?t = "upd_buf b ?g s"
  have c: "cached s b bno" and b: "b < NBUF" using h by (auto simp: held_def cached_def)
  have ch: "cached ?t i x = cached s i x" for i x by (auto simp: cached_upd cached_def)
  have lk: "locked ?t i = locked s i" for i by (simp add: locked_upd locked_def)
  have di: "dirty ?t i = dirty s i" for i by (simp add: dirty_upd dirty_def)
  have inv': "bc_inv ?t"
  proof (rule bc_inv_upd [OF inv])
    show "buf_ok ?t b"
      using bc_inv_ok [OF inv b] held_locked [OF h] len cview_cached [OF inv c] c
      by (auto simp: buf_ok_def lk di cached_def)
    show "\<not> cached ?t b x" if "i \<noteq> b" "cached s i x" for i x
      using that bc_inv_unique [OF inv, of i x b] by (auto simp: ch)
  qed simp_all
  have v: "cview ?t x = ((cview s)(bno := f (cview s bno))) x" for x
  proof (cases "x = bno")
    case True
    then show ?thesis using cview_cached [OF inv', of b bno] cview_cached [OF inv c] c by (simp add: ch)
  next
    case False
    from inv show ?thesis
    proof (cases rule: cview_cases [of s x])
      case (hit i)
      then have "i \<noteq> b" using False c by (auto simp: cached_def)
      with hit False show ?thesis using cview_cached [OF inv', of i x] by (simp add: ch)
    next
      case miss
      with False show ?thesis using cview_uncached [of ?t x] by (simp add: ch)
    qed
  qed
  show ?thesis unfolding set_data_def wp_kmodify
    using inv' v by (auto simp: fun_eq_iff dirtied_def lockedblks_def held_def ch lk di)
qed

text \<open>bwrite() of a held buffer: the disk gets its data and it becomes clean.\<close>

definition flushed :: "nat \<Rightarrow> 'z kbio_scheme \<Rightarrow> 'z kbio_scheme" where
  "flushed b s = (upd_buf b (\<lambda>x. x\<lparr>b_flags := B_VALID\<rparr>) s)
     \<lparr>disk := (disk s)(b_blockno (bufs s b) := b_data (bufs s b)),
      dtrace := dtrace s @ [(b_blockno (bufs s b), b_data (bufs s b))]\<rparr>"

lemma bwrite_held:
  assumes inv: "bc_inv s" and h: "held s b bno"
  shows "bwrite b s = Done () (flushed b s)"
proof -
  have cpu: "cpu_proc s \<noteq> None" using inv by (simp add: bc_inv_def)
  have c: "cached s b bno" and b: "b < NBUF" and lk: "b_lock (bufs s b) = mylock s"
    using h by (auto simp: held_def cached_def)
  have dev: "b_dev (bufs s b) = ROOTDEV" using c by (simp add: cached_def)
  have ok: "b_flags (bufs s b) \<in> {B_VALID, B_VALID OR B_DIRTY}" "b_blockno (bufs s b) < disksize s"
    using bc_inv_ok [OF inv b] dev by (auto simp: buf_ok_def)
  let ?s1 = "upd_buf b (\<lambda>x. x\<lparr>b_flags := b_flags x OR B_DIRTY\<rparr>) s"
  have f: "b_flags (bufs s b) OR B_DIRTY = B_VALID OR B_DIRTY" using ok(1) by auto
  have h1: "holdingsleep (buf_lock b) s = Done True s"
    and h2: "holdingsleep (buf_lock b) ?s1 = Done True ?s1"
    using cpu lk by (simp_all add: holding_buf)
  have "iderw b ?s1 = Done () (flushed b s)"
    using h2 ok(2) dev f
    by (simp add: iderw_def kbind_Done not_le ROOTDEV_def flushed_def upd_buf_def)
  then show ?thesis using h1 by (simp add: bwrite_def kbind_Done)
qed

lemma bwrite_law:
  assumes inv: "bc_inv s" and h: "held s b bno"
  shows "wp (bwrite b) (\<lambda>_ t. bc_inv t \<and> cview t = cview s \<and> disk t = (disk s)(bno := cview s bno) \<and>
       dtrace t = dtrace s @ [(bno, cview s bno)] \<and> dirtied t = dirtied s - {bno} \<and>
       lockedblks t = lockedblks s \<and> brest t = brest s \<and> (\<forall>b' x. held s b' x \<longrightarrow> held t b' x)) s"
proof -
  let ?t = "flushed b s"
  have c: "cached s b bno" and b: "b < NBUF" and bn: "b_blockno (bufs s b) = bno" "b_dev (bufs s b) = ROOTDEV"
    using h by (auto simp: held_def cached_def)
  have v: "cview s bno = b_data (bufs s b)" by (rule cview_cached [OF inv c])
  have ch: "cached ?t i x = cached s i x" for i x by (auto simp: flushed_def cached_def)
  have lk: "locked ?t i = locked s i" for i by (simp add: flushed_def locked_def)
  have di: "dirty ?t i \<longleftrightarrow> i \<noteq> b \<and> dirty s i" for i by (simp add: flushed_def dirty_def)
  have bd: "b_data (bufs ?t i) = b_data (bufs s i)" "disk ?t = (disk s)(bno := b_data (bufs s b))" for i
    using bn by (simp_all add: flushed_def)
  have ok: "buf_ok ?t i" if "i < NBUF" for i
  proof (cases "i = b")
    case True
    then show ?thesis using bc_inv_ok [OF inv b] bn held_locked [OF h] lk [of b] di [of b]
      by (auto simp: buf_ok_def flushed_def)
  next
    case False
    then have "b_dev (bufs s i) = ROOTDEV \<longrightarrow> b_blockno (bufs s i) \<noteq> bno"
      using bc_inv_unique [OF inv, of i bno b] c that by (auto simp: cached_def)
    then show ?thesis using bc_inv_ok [OF inv that] False bn lk [of i] di [of i]
      by (auto simp: buf_ok_def flushed_def split: if_splits)
  qed
  have n: "nexts ?t = nexts s" "prevs ?t = prevs s" by (auto simp: flushed_def nexts_def prevs_def)
  have len: "length (disk ?t x) = BSIZE" for x
    using bc_inv_disk [OF inv] bc_inv_ok [OF inv b] by (auto simp: flushed_def buf_ok_def)
  have cpu: "cpu_proc ?t = cpu_proc s" by (simp add: flushed_def)
  have inv': "bc_inv ?t"
    unfolding bc_inv_def n ch cpu using inv ok len by (simp add: bc_inv_def)
  have "cview ?t x = cview s x" for x
    using inv
  proof (cases rule: cview_cases [of s x])
    case (hit i)
    then show ?thesis using cview_cached [OF inv', of i x] by (simp add: ch bd)
  next
    case miss
    then have "x \<noteq> bno" using c by auto
    with miss show ?thesis using cview_uncached [of ?t x] by (simp add: ch bd)
  qed
  then have cv: "cview ?t = cview s" by (simp add: fun_eq_iff)
  have drt: "dirtied ?t = dirtied s - {bno}"
  proof (rule set_eqI)
    fix x
    have "(\<exists>i. cached s i x \<and> i \<noteq> b \<and> dirty s i) \<longleftrightarrow> (\<exists>i. cached s i x \<and> dirty s i) \<and> x \<noteq> bno"
      using c bc_inv_unique [OF inv, of _ bno b] by (metis cached_def)
    then show "x \<in> dirtied ?t \<longleftrightarrow> x \<in> dirtied s - {bno}" by (simp add: dirtied_def ch di)
  qed
  have re: "brest ?t = brest s" by (simp add: flushed_def brest_def upd_buf_def)
  then have "mylock ?t = mylock s" using brest_pid by (simp add: mylock_def)
  moreover have "b_lock (bufs ?t i) = b_lock (bufs s i)" for i by (simp add: flushed_def)
  ultimately have hd: "held s b' x \<longrightarrow> held ?t b' x" for b' x by (simp add: held_def ch)
  have lks: "lockedblks ?t = lockedblks s" by (simp add: lockedblks_def ch lk)
  have tr: "dtrace ?t = dtrace s @ [(bno, cview s bno)]" unfolding v by (simp add: flushed_def bn)
  show ?thesis unfolding wp_def bwrite_held [OF inv h] outcome.case
    using inv' cv drt bd(2) v hd lks re tr by simp
qed

lemma bc_inv_relink:
  assumes inv: "bc_inv s" and ring: "ring (nexts t) (prevs t) xs" "set xs = {..<NBUF}"
    and same: "\<And>i. strip (bufs t i) = strip (bufs s i)" and eq: "disk t = disk s" "disksize t = disksize s" "cpu_proc t = cpu_proc s"
  shows "bc_inv t \<and> cview t = cview s \<and> cached t = cached s \<and> locked t = locked s \<and> dirty t = dirty s"
proof -
  have f: "b_flags (bufs t i) = b_flags (bufs s i)" "b_dev (bufs t i) = b_dev (bufs s i)"
    "b_blockno (bufs t i) = b_blockno (bufs s i)" "b_lock (bufs t i) = b_lock (bufs s i)"
    "b_refcnt (bufs t i) = b_refcnt (bufs s i)" "b_data (bufs t i) = b_data (bufs s i)" for i
    using same [of i] by (simp_all add: strip_eq_fields)
  have ch: "cached t = cached s" and lk: "locked t = locked s" and di: "dirty t = dirty s"
    by (simp_all add: fun_eq_iff cached_def locked_def dirty_def f)
  have "buf_ok t i" if "i < NBUF" for i
    using bc_inv_ok [OF inv that] unfolding buf_ok_def f lk di eq .
  then have "bc_inv t" using inv ring unfolding bc_inv_def ch eq by blast
  moreover have "cview t = cview s" by (rule ext) (simp add: cview_def ch f eq split: option.split)
  ultimately show ?thesis using ch lk di by simp
qed

lemma brelse_law:
  assumes inv: "bc_inv s" and h: "held s b bno" and c: "bno \<in> dirtied s \<or> cview s bno = disk s bno"
  shows "wp (brelse b) (\<lambda>_ t. bc_inv t \<and> cview t = cview s \<and> disk t = disk s \<and> dtrace t = dtrace s \<and>
       dirtied t = dirtied s \<and> lockedblks t = lockedblks s - {bno} \<and> brest t = brest s \<and>
       (\<forall>b' x. held s b' x \<and> x \<noteq> bno \<longrightarrow> held t b' x)) s"
proof -
  let ?g = "\<lambda>x. x\<lparr>b_lock := \<lparr>sl_locked = False, sl_pid = 0\<rparr>, b_refcnt := 0\<rparr>"
  let ?s0 = "upd_buf b ?g s"
  let ?s1 = "upd_buf b ?g (s\<lparr>ptable := wake_below NPROC (ChanBuf b) (ptable s)\<rparr>)"
  let ?t = "move_front b ?s1"
  have ca: "cached s b bno" and b: "b < NBUF" and lk: "b_lock (bufs s b) = mylock s"
    using h by (auto simp: held_def cached_def)
  have cpu: "cpu_proc s \<noteq> None" using inv by (simp add: bc_inv_def)
  have ref: "b_refcnt (bufs s b) = 1" using bc_inv_ok [OF inv b] held_locked [OF h] by (simp add: buf_ok_def)
  have hs: "holdingsleep (buf_lock b) s = Done True s" using cpu lk by (simp add: holding_buf)
  have rs: "releasesleep (buf_lock b) s = Done ()
      ((upd_buf b (\<lambda>x. x\<lparr>b_lock := \<lparr>sl_locked = False, sl_pid = 0\<rparr>\<rparr>) s)
       \<lparr>ptable := wake_below NPROC (ChanBuf b) (ptable s)\<rparr>)"
    by (simp add: releasesleep_eq wakeup_eq buf_lock_def)
  have run: "brelse b s = Done () ?t"
    using hs rs ref by (simp add: brelse_def kbind_Done kthen_Done kwhen_def upd_buf_def)
  have c0: "cached ?s0 i x = cached s i x" for i x by (auto simp: cached_upd cached_def)
  have l0: "locked ?s0 i \<longleftrightarrow> i \<noteq> b \<and> locked s i" for i by (simp add: locked_upd)
  have d0: "dirty ?s0 i = dirty s i" for i by (simp add: dirty_upd dirty_def)
  have inv0: "bc_inv ?s0"
  proof (rule bc_inv_upd [OF inv])
    have "dirty s b" if "bno \<in> dirtied s"
      using that ca bc_inv_unique [OF inv] by (auto simp: dirtied_def)
    then show "buf_ok ?s0 b"
      using bc_inv_ok [OF inv b] c ca cview_cached [OF inv ca] by (auto simp: buf_ok_def l0 d0 cached_def)
    show "\<not> cached ?s0 b x" if "i \<noteq> b" "cached s i x" for i x
      using that bc_inv_unique [OF inv, of i x b] by (auto simp: c0)
  qed simp_all
  have v0: "cview ?s0 = cview s"
    by (rule ext) (simp add: cview_def c0 split: option.split)
  obtain xs where xs: "ring (nexts ?s1) (prevs ?s1) xs" "set xs = {..<NBUF}"
    using inv0 by (auto simp: bc_inv_def nexts_def prevs_def)
  then obtain ys zs where "xs = ys @ b # zs" using b by (metis lessThan_iff split_list)
  then have ring: "ring (nexts ?t) (prevs ?t) (b # ys @ zs)" "set (b # ys @ zs) = {..<NBUF}"
    using xs ring_move_front by auto
  obtain bs where mf: "?t = ?s1\<lparr>bufs := bs\<rparr>" using move_front_frame by blast
  have eq: "disk ?t = disk ?s0" "disksize ?t = disksize ?s0" "cpu_proc ?t = cpu_proc ?s0"
    "dtrace ?t = dtrace s" "ptable ?t = wake_below NPROC (ChanBuf b) (ptable s)" "kbio.more ?t = kbio.more s"
    "nextpid ?t = nextpid s" "initproc ?t = initproc s"
    unfolding mf by simp_all
  have "strip (bufs ?t i) = strip (bufs ?s0 i)" for i by simp
  from bc_inv_relink [OF inv0 ring this eq(1-3)]
  have t: "bc_inv ?t" "cview ?t = cview s" "cached ?t = cached s" "locked ?t = locked ?s0" "dirty ?t = dirty s"
    using v0 c0 d0 by (auto simp: fun_eq_iff)
  have re: "brest ?t = brest s" using eq by (simp add: brest_def fun_eq_iff wake_below_def wake_proc_def)
  then have pid: "mylock ?t = mylock s" using brest_pid by (simp add: mylock_def)
  have bl: "b_lock (bufs ?t i) = b_lock (bufs ?s0 i)" for i
    using strip_move_front [of b ?s1 i] unfolding strip_eq_fields by simp
  have "(\<exists>i. cached s i x \<and> i \<noteq> b \<and> locked s i) \<longleftrightarrow> (\<exists>i. cached s i x \<and> locked s i) \<and> x \<noteq> bno" for x
    using ca bc_inv_unique [OF inv, of _ bno b] by (metis cached_def)
  then have "lockedblks ?t = lockedblks s - {bno}" by (auto simp: lockedblks_def t(3,4) l0)
  moreover have "held ?t b' x" if "held s b' x" "x \<noteq> bno" for b' x
    using that ca t(3) pid bl [of b'] by (auto simp: held_def cached_def)
  ultimately show ?thesis unfolding wp_def run outcome.case
    using t re eq by (auto simp: dirtied_def)
qed

interpretation bc: block_cache bc_inv cview disk dtrace dirtied lockedblks held brest brange NBUF BSIZE
    "bread ROOTDEV" buf_data set_data bwrite brelse
proof (unfold_locales, goal_cases)
  case (1 s bno) then show ?case by (rule bread_law)
next
  case (2 s b bno) then show ?case by (rule buf_data_law)
next
  case (3 s b bno f) then show ?case by (rule set_data_law)
next
  case (4 s b bno) then show ?case by (rule bwrite_law)
next
  case (5 s b bno) then show ?case by (rule brelse_law)
next
  case (6 s bno) then show ?case by (auto simp: lockedblks_def intro!: cview_clean)
next
  case (7 s bno) then show ?case by (rule length_cview)
next
  case (8 s)
  have "dirtied s \<subseteq> (\<lambda>i. b_blockno (bufs s i)) ` {..<NBUF}" by (auto simp: dirtied_def cached_def)
  then show ?case by (rule finite_subset) simp
qed

end
