(* ===== verification/Superblock.thy ===== *)
theory Superblock
  imports BioSpec
begin

text \<open>
  The superblock (fs.h), which mkfs writes into block 1 and which tells log.c and fs.c where
  the areas of the disk are, and readsb() of fs.c.
\<close>

record superblock =
  sb_size :: uint
  sb_nblocks :: uint
  sb_ninodes :: uint
  sb_nlog :: uint
  sb_logstart :: uint
  sb_inodestart :: uint
  sb_bmapstart :: uint

definition get_superblock :: "block \<Rightarrow> superblock" where
  "get_superblock d = \<lparr>sb_size = get32 d 0, sb_nblocks = get32 d 4, sb_ninodes = get32 d 8,
     sb_nlog = get32 d 12, sb_logstart = get32 d 16, sb_inodestart = get32 d 20,
     sb_bmapstart = get32 d 24\<rparr>"

definition put_superblock :: "superblock \<Rightarrow> block \<Rightarrow> block" where
  "put_superblock sb d = put32 (put32 (put32 (put32 (put32 (put32 (put32 d
     0 (sb_size sb)) 4 (sb_nblocks sb)) 8 (sb_ninodes sb)) 12 (sb_nlog sb))
     16 (sb_logstart sb)) 20 (sb_inodestart sb)) 24 (sb_bmapstart sb)"

definition readsb :: "uint \<Rightarrow> ('z kbio_scheme, superblock) prog" where
  "readsb dev = kbind (bread dev 1) (\<lambda>bp. kbind (buf_data bp) (\<lambda>d.
     kthen (brelse bp) (kreturn (get_superblock d))))"

lemma get_put_superblock [simp]:
  "28 \<le> length d \<Longrightarrow> get_superblock (put_superblock sb d) = sb"
  by (simp add: get_superblock_def put_superblock_def byte_layout)

lemma length_put_superblock [simp]: "length (put_superblock sb d) = length d"
  by (simp add: put_superblock_def)

lemma wp_readsb:
  assumes "bc.looks s v d tr p {} r" and "brange r 1" and "card p < NBUF"
    and "\<And>t. bc.looks t v d tr p {} r \<Longrightarrow> Q (get_superblock (v 1)) t"
  shows "wp (readsb ROOTDEV) Q s"
  unfolding readsb_def by (rule bc.peek [OF assms(1,2)]) (use assms in auto)

end
