(* ===== verification/LogSpec.thy ===== *)
theory LogSpec
  imports Log
begin

text \<open>
  What the operations of log.c do, over the contract of the block layer: the disk writes of
  commit and of recovery as lists, total correctness of both, and the crash proofs.
\<close>

section \<open>Where the log lives\<close>

definition log_area :: "klogdata \<Rightarrow> uint set" where
  "log_area l = {x. unat (l_start l) \<le> unat x \<and> unat x < unat (l_start l) + nat (l_size l)}"

definition log_ok :: "klogdata \<Rightarrow> uint \<Rightarrow> bool" where
  "log_ok l sz \<longleftrightarrow> l_dev l = ROOTDEV \<and> 0 < l_size l \<and> l_size l \<le> int NBUF \<and>
     unat (l_start l) + nat (l_size l) \<le> unat sz"

text \<open>A header with at most size - 1 distinct entries, all of them home locations.\<close>

definition head_ok :: "klogdata \<Rightarrow> uint \<Rightarrow> logheader \<Rightarrow> bool" where
  "head_ok l sz h \<longleftrightarrow> 0 \<le> lh_n h \<and> lh_n h \<le> l_size l - 1 \<and>
     (\<forall>i<nat (lh_n h). lh_block h i < sz \<and> lh_block h i \<notin> log_area l) \<and>
     inj_on (lh_block h) {..<nat (lh_n h)}"

lemma sizes [simp]: "LOGSIZE = 30" "NBUF = 30" "BSIZE = 512" "MAXOPBLOCKS = 10"
  by (simp_all add: LOGSIZE_def MAXOPBLOCKS_def NBUF_def BSIZE_def)

lemma unat_log_block:
  assumes "log_ok l sz" and "int tail + 1 < l_size l"
  shows "unat (log_block l tail) = unat (l_start l) + tail + 1"
proof -
  have b: "unat (l_start l) + tail + 1 < 2 ^ 32"
    using assms unat_bound [of sz] unfolding log_ok_def by linarith
  have "log_block l tail = word_of_nat (unat (l_start l) + tail + 1)"
    by (simp add: log_block_def)
  then show ?thesis using unat_of_nat_small [OF b] by simp
qed

lemma log_start_facts:
  assumes "log_ok l sz"
  shows "l_start l \<in> log_area l" "l_start l < sz"
  using assms unfolding log_area_def log_ok_def word_less_nat_alt mem_Collect_eq by linarith+

lemma log_block_facts:
  assumes "log_ok l sz" and "int tail + 1 < l_size l"
  shows "log_block l tail \<in> log_area l" "log_block l tail \<noteq> l_start l" "log_block l tail < sz"
proof -
  note u = unat_log_block [OF assms]
  show "log_block l tail \<in> log_area l" "log_block l tail < sz"
    using assms(2) assms(1) [unfolded log_ok_def]
    unfolding log_area_def word_less_nat_alt mem_Collect_eq u by linarith+
  show "log_block l tail \<noteq> l_start l" using u by (metis add.assoc add_eq_self_zero add_is_0 one_neq_zero)
qed

lemma log_block_inj:
  assumes "log_ok l sz" and "int m \<le> l_size l - 1"
  shows "inj_on (log_block l) {..<m}"
proof (rule inj_onI)
  fix i j assume ij: "i \<in> {..<m}" "j \<in> {..<m}" "log_block l i = log_block l j"
  then have "int i + 1 < l_size l" "int j + 1 < l_size l" using assms(2) by auto
  then have "unat (l_start l) + i + 1 = unat (l_start l) + j + 1"
    using ij(3) by (simp only: unat_log_block [OF assms(1), symmetric])
  then show "i = j" by simp
qed

section \<open>Sequences of block writes\<close>

definition apply_writes :: "(uint \<times> block) list \<Rightarrow> (uint \<Rightarrow> block) \<Rightarrow> uint \<Rightarrow> block" where
  "apply_writes ws d = fold (\<lambda>(a, x) d. d(a := x)) ws d"

lemma apply_writes_simps [simp]:
  "apply_writes [] d = d"
  "apply_writes ((a, x) # ws) d = apply_writes ws (d(a := x))"
  "apply_writes (ws @ vs) d = apply_writes vs (apply_writes ws d)"
  by (simp_all add: apply_writes_def)

lemma apply_writes_other: "x \<notin> fst ` set ws \<Longrightarrow> apply_writes ws d x = d x"
  by (induction ws arbitrary: d) auto

lemma apply_writes_hit:
  assumes "inj_on f {..<n}" and "i < n"
  shows "apply_writes (map (\<lambda>i. (f i, g i)) [0..<n]) d (f i) = g i"
  using assms
proof (induction n)
  case (Suc n)
  then show ?case by (cases "i = n") (auto simp: inj_on_def)
qed simp

lemma apply_writes_take:
  assumes "inj_on f {..<n}" and "i < n"
  shows "apply_writes (take k (map (\<lambda>i. (f i, g i)) [0..<n])) d (f i) = (if i < k then g i else d (f i))"
proof -
  have t: "take k (map (\<lambda>i. (f i, g i)) [0..<n]) = map (\<lambda>i. (f i, g i)) [0..<min k n]"
    by (simp add: take_map min_def)
  have inj: "inj_on f {..<min k n}" using assms(1) by (rule inj_on_subset) auto
  show ?thesis
  proof (cases "i < k")
    case True
    with assms show ?thesis unfolding t by (simp add: apply_writes_hit [OF inj])
  next
    case False
    then have "f i \<notin> f ` {..<min k n}" using assms(2) inj_onD [OF assms(1), of i] by force
    with False show ?thesis unfolding t
      by (subst apply_writes_other) (auto simp: image_image)
  qed
qed

section \<open>The header block\<close>

lemma put_head_fold:
  fixes f :: "nat \<Rightarrow> uint"
  assumes "length d = BSIZE" and "m \<le> LOGSIZE"
  defines "e \<equiv> fold (\<lambda>i d. put32 d (4 + 4 * i) (f i)) [0..<m] d"
  shows "length e = BSIZE" "get32 e 0 = get32 d 0" "i < m \<Longrightarrow> get32 e (4 + 4 * i) = f i"
proof -
  have "length e = BSIZE \<and> get32 e 0 = get32 d 0 \<and> (\<forall>i<m. get32 e (4 + 4 * i) = f i)"
    using assms(2) unfolding e_def
  proof (induction m)
    case (Suc m)
    then show ?case by (auto simp: byte_layout less_Suc_eq)
  qed (simp add: assms(1))
  then show "length e = BSIZE" "get32 e 0 = get32 d 0" "i < m \<Longrightarrow> get32 e (4 + 4 * i) = f i"
    by blast+
qed

lemma length_put_head:
  assumes "length d = BSIZE" and "lh_n h \<le> int LOGSIZE"
  shows "length (put_head h d) = BSIZE"
  unfolding put_head_def by (rule put_head_fold) (use assms in auto)

text \<open>write_head() and read_head() agree on the layout.\<close>

lemma head_roundtrip:
  assumes "length d = BSIZE" and "0 \<le> lh_n h" and "lh_n h \<le> int LOGSIZE"
  shows "head_n (put_head h d) = lh_n h"
    "i < nat (lh_n h) \<Longrightarrow> head_block (put_head h d) i = lh_block h i"
proof -
  let ?d = "put32 d 0 (word_of_int (lh_n h))"
  have l: "length ?d = BSIZE" "nat (lh_n h) \<le> LOGSIZE" using assms by auto
  have "sint (word_of_int (lh_n h) :: uint) = lh_n h"
    using assms by (simp add: sint_sbintrunc' signed_take_bit_int_eq_self)
  then show "head_n (put_head h d) = lh_n h"
    using assms(1) put_head_fold(2) [OF l] by (simp add: head_n_def put_head_def)
  show "head_block (put_head h d) i = lh_block h i" if "i < nat (lh_n h)"
    using put_head_fold(3) [OF l] that by (simp add: head_block_def put_head_def)
qed

section \<open>Updates of the log do not touch the cache\<close>

lemma upd_log_obs [simp]:
  "bc_inv (upd_log f s) = bc_inv s" "cview (upd_log f s) = cview s" "disk (upd_log f s) = disk s"
  "dtrace (upd_log f s) = dtrace s" "dirtied (upd_log f s) = dirtied s"
  "lockedblks (upd_log f s) = lockedblks s" "held (upd_log f s) b x = held s b x"
  "disksize (upd_log f s) = disksize s" "ptable (upd_log f s) = ptable s"
  "cpu_proc (upd_log f s) = cpu_proc s" "bufs (upd_log f s) = bufs s"
  "the_log (upd_log f s) = f (the_log s)"
  by (simp_all add: upd_log_def bc_inv_def cached_def dirtied_def dirty_def lockedblks_def
      locked_def held_def mylock_def mypid_def buf_ok_def nexts_def prevs_def)
    (rule ext, simp add: cview_def cached_def split: option.split)

lemma brest_log: "brest t = brest s \<Longrightarrow> the_log t = the_log s"
  by (cases s, cases t) (simp add: brest_def)

lemma brest_size: "brest t = brest s \<Longrightarrow> disksize t = disksize s"
  by (simp add: brest_def)

lemma brest_upd_log: "brest t = brest s \<Longrightarrow> brest (upd_log f t) = brest (upd_log f s)"
  by (cases s, cases t) (simp add: brest_def upd_log_def)

lemma looks_upd_log:
  "bc.looks t v d tr p k (brest s) \<Longrightarrow> bc.looks (upd_log f t) v d tr p k (brest (upd_log f s))"
  by (auto simp: bc.looks_def intro: brest_upd_log)

lemma looks_log:
  "bc.looks t v d tr p k (brest s) \<Longrightarrow> the_log t = the_log s"
  by (auto simp: bc.looks_def intro: brest_log)

lemma brange_brest [simp]: "brange (brest s) x \<longleftrightarrow> x < disksize s"
  by (simp add: brange_def brest_def)

section \<open>The parts of commit\<close>

definition log_writes :: "klogdata \<Rightarrow> (uint \<Rightarrow> block) \<Rightarrow> nat \<Rightarrow> (uint \<times> block) list" where
  "log_writes l v m = map (\<lambda>i. (log_block l i, v (lh_block (l_lh l) i))) [0..<m]"

definition install_writes :: "klogdata \<Rightarrow> (uint \<Rightarrow> block) \<Rightarrow> nat \<Rightarrow> (uint \<times> block) list" where
  "install_writes l v m = map (\<lambda>i. (lh_block (l_lh l) i, v (log_block l i))) [0..<m]"

lemma log_writes_area:
  assumes "log_ok l sz" and "int m \<le> l_size l - 1"
  shows "fst ` set (log_writes l v m) \<subseteq> log_area l - {l_start l}"
  using assms log_block_facts [OF assms(1)] by (auto simp: log_writes_def)

lemma install_writes_area:
  assumes "head_ok l sz (l_lh l)" and "m \<le> nat (lh_n (l_lh l))"
  shows "fst ` set (install_writes l v m) \<inter> log_area l = {}"
  using assms by (auto simp: install_writes_def head_ok_def)

definition entries :: "klogdata \<Rightarrow> uint set" where
  "entries l = lh_block (l_lh l) ` {..<nat (lh_n (l_lh l))}"

lemma entry_facts:
  assumes "head_ok l sz (l_lh l)" and "i < nat (lh_n (l_lh l))"
  shows "lh_block (l_lh l) i < sz" "lh_block (l_lh l) i \<notin> log_area l" "lh_block (l_lh l) i \<in> entries l"
    "int i + 1 < l_size l"
  using assms by (auto simp: head_ok_def entries_def)

lemma card_entries:
  assumes "log_ok l sz" "head_ok l sz (l_lh l)"
  shows "card (entries l) < NBUF" "finite (entries l)" "nat (lh_n (l_lh l)) \<le> LOGSIZE"
  using assms by (auto simp: entries_def head_ok_def log_ok_def card_image)

lemma wp_write_log:
  assumes l: "bc.looks s v d tr (entries l) {} (brest s)" and "l = the_log s"
    and ok: "log_ok l (disksize s)" "head_ok l (disksize s) (l_lh l)"
    and Q: "\<And>t. let ws = log_writes l v (nat (lh_n (l_lh l))) in
       bc.looks t (apply_writes ws v) (apply_writes ws d) (tr @ ws) (entries l) {} (brest s) \<Longrightarrow> Q () t"
  shows "wp write_log Q s"
proof -
  let ?n = "nat (lh_n (l_lh l))"
  let ?I = "\<lambda>i t. bc.looks t (apply_writes (log_writes l v i) v) (apply_writes (log_writes l v i) d)
      (tr @ log_writes l v i) (entries l) {} (brest s)"
  note dev = ok(1) [unfolded log_ok_def, THEN conjunct1]
  note cs = card_entries [OF ok]
  have "wp (kfor [0..<?n] write_log_one) (\<lambda>_. ?I ?n) s"
  proof (rule wp_kfor_upt)
    show "?I 0 s" using l by (simp add: log_writes_def)
  next
    fix i t assume i: "i < ?n" and I: "?I i t"
    let ?a = "log_block l i" and ?b = "lh_block (l_lh l) i"
    note e = entry_facts [OF ok(2) i] and lb = log_block_facts [OF ok(1) entry_facts(4) [OF ok(2) i]]
    have tl: "the_log t = l" using looks_log [OF I] assms(2) by simp
    have "int i \<le> l_size l - 1" using e(4) by simp
    from log_writes_area [OF ok(1) this] have vb: "apply_writes (log_writes l v i) v ?b = v ?b"
      using e(2) by (intro apply_writes_other) auto
    have ne: "?a \<noteq> ?b" "entries l - {?a} = entries l"
      using lb(1) e(2) ok(2) by (auto simp: entries_def head_ok_def)
    have "log_writes l v (Suc i) = log_writes l v i @ [(?a, v ?b)]" by (simp add: log_writes_def)
    then have nx: "?I (Suc i) t'"
      if "bc.looks t' ((apply_writes (log_writes l v i) v)(?a := apply_writes (log_writes l v i) v ?b))
        ((apply_writes (log_writes l v i) d)(?a := apply_writes (log_writes l v i) v ?b))
        ((tr @ log_writes l v i) @ [(?a, apply_writes (log_writes l v i) v ?b)]) (entries l - {?a}) {} (brest s)" for t'
      using that unfolding vb ne by simp
    have "i < LOGSIZE" using i cs(3) by linarith
    then have "write_log_one i t = kbind (bread ROOTDEV ?a) (\<lambda>to. kbind (bread ROOTDEV ?b) (\<lambda>from.
       kbind (buf_data from) (\<lambda>x. kthen (set_data to (\<lambda>_. x)) (kthen (bwrite to)
       (kthen (brelse from) (brelse to)))))) t"
      unfolding write_log_one_def kbind_get tl dev not_le [symmetric] by (simp only: if_False)
    then show "wp (write_log_one i) (\<lambda>_. ?I (Suc i)) t"
      by (rule wp_eqI, intro bc.copy_dest_first [OF I ne(1)] nx)
        (use lb(3) e(1,3) cs(1) in \<open>simp_all only: brange_brest simp_thms\<close>)
  qed simp
  then show ?thesis unfolding write_log_def wp_kbind wp_kget assms(2) [symmetric]
    by (rule wp_mono) (use Q in \<open>simp add: Let_def\<close>)
qed

text \<open>
  install_trans() runs in commit, where the destinations are the pinned blocks, and in
  recovery, where nothing is pinned.
\<close>

lemma wp_install_trans:
  assumes l: "bc.looks s v d tr p {} (brest s)" and lg: "l = the_log s" and p: "p = entries l \<or> p = {}"
    and ok: "log_ok l (disksize s)" "head_ok l (disksize s) (l_lh l)"
    and Q: "\<And>t. let ws = install_writes l v (nat (lh_n (l_lh l))) in
       bc.looks t (apply_writes ws v) (apply_writes ws d) (tr @ ws) {} {} (brest s) \<Longrightarrow> Q () t"
  shows "wp install_trans Q s"
proof -
  let ?n = "nat (lh_n (l_lh l))" and ?p = "\<lambda>i. p - lh_block (l_lh l) ` {..<i}"
  let ?I = "\<lambda>i t. bc.looks t (apply_writes (install_writes l v i) v) (apply_writes (install_writes l v i) d)
      (tr @ install_writes l v i) (?p i) {} (brest s)"
  note dev = ok(1) [unfolded log_ok_def, THEN conjunct1]
  note cs = card_entries [OF ok]
  have inj: "inj_on (lh_block (l_lh l)) {..<?n}" using ok(2) by (simp add: head_ok_def)
  have w: "wp (kfor [0..<?n] install_one) (\<lambda>_. ?I ?n) s"
  proof (rule wp_kfor_upt)
    show "?I 0 s" using l by (simp add: install_writes_def)
  next
    fix i t assume i: "i < ?n" and I: "?I i t"
    let ?a = "log_block l i" and ?b = "lh_block (l_lh l) i"
    note e = entry_facts [OF ok(2) i] and lb = log_block_facts [OF ok(1) entry_facts(4) [OF ok(2) i]]
    have tl: "the_log t = l" using looks_log [OF I] lg by simp
    have "i \<le> ?n" using i by simp
    from install_writes_area [OF ok(2) this, of v]
    have va: "apply_writes (install_writes l v i) v ?a = v ?a"
      using lb(1) by (intro apply_writes_other) blast
    have ne: "?a \<noteq> ?b" "?p i - {?b} = ?p (Suc i)"
      using lb(1) e(2) by (auto simp: lessThan_Suc)
    have fin: "finite (?p i)" and sub: "?p i \<subseteq> entries l" using p cs(2) by auto
    have c: "card (?p i) < NBUF"
      using cs(1) card_mono [OF cs(2) sub] by linarith
    have room: "?b \<in> ?p i \<or> Suc (card (?p i)) < NBUF"
    proof (cases "p = {}")
      case False
      then have "?b \<in> p" using p e(3) by blast
      moreover have "?b \<notin> lh_block (l_lh l) ` {..<i}" using inj_onD [OF inj, of i] i by force
      ultimately show ?thesis by blast
    qed simp
    have "install_writes l v (Suc i) = install_writes l v i @ [(?b, v ?a)]" by (simp add: install_writes_def)
    then have nx: "?I (Suc i) t'"
      if "bc.looks t' ((apply_writes (install_writes l v i) v)(?b := apply_writes (install_writes l v i) v ?a))
        ((apply_writes (install_writes l v i) d)(?b := apply_writes (install_writes l v i) v ?a))
        ((tr @ install_writes l v i) @ [(?b, apply_writes (install_writes l v i) v ?a)]) (?p i - {?b}) {} (brest s)" for t'
      using that unfolding va ne by simp
    have "i < LOGSIZE" using i cs(3) by linarith
    then have "install_one i t = kbind (bread ROOTDEV ?a) (\<lambda>from. kbind (bread ROOTDEV ?b) (\<lambda>to.
       kbind (buf_data from) (\<lambda>x. kthen (set_data to (\<lambda>_. x)) (kthen (bwrite to)
       (kthen (brelse from) (brelse to)))))) t"
      unfolding install_one_def kbind_get tl dev not_le [symmetric] by (simp only: if_False)
    then show "wp (install_one i) (\<lambda>_. ?I (Suc i)) t"
      by (rule wp_eqI, intro bc.copy_source_first [OF I ne(1)] nx)
        (use lb(3) e(1) c room in \<open>simp_all only: brange_brest simp_thms\<close>)
  qed simp
  have pn: "?p ?n = {}" using p by (auto simp: entries_def)
  show ?thesis unfolding install_trans_def wp_kbind wp_kget lg [symmetric]
    by (rule wp_mono [OF w [unfolded pn]]) (use Q in \<open>simp add: Let_def\<close>)
qed

lemma wp_write_head:
  assumes l: "bc.looks s v d tr p {} (brest s)" and lg: "l = the_log s"
    and c: "card p < NBUF" and ok: "log_ok l (disksize s)" and st: "l_start l \<notin> p"
    and n: "lh_n (l_lh l) \<le> int LOGSIZE"
    and Q: "\<And>t. let h = put_head (l_lh l) (d (l_start l)) in
       bc.looks t (v(l_start l := h)) (d(l_start l := h)) (tr @ [(l_start l, h)]) p {} (brest s) \<Longrightarrow> Q () t"
  shows "wp write_head Q s"
proof -
  let ?a = "l_start l" and ?f = "put_head (l_lh l)"
  have e: "v ?a = d ?a" using bc.clean [OF l, of ?a] st by blast
  have len: "length (?f (v ?a)) = BSIZE" using bc.looks_length [OF l] n by (intro length_put_head) auto
  have "write_head s = kbind (bread ROOTDEV ?a) (\<lambda>b. kthen (set_data b ?f) (kthen (bwrite b) (brelse b))) s"
    using ok unfolding write_head_def kbind_get lg [symmetric] log_ok_def by simp
  then show ?thesis
    by (rule wp_eqI, intro bc.overwrite [where f = ?f, OF l])
      (use Q log_start_facts(2) [OF ok] c st len in \<open>simp_all add: e Let_def del: sizes\<close>)
qed

text \<open>The block writes of commit(), from the in-memory header and the current contents.\<close>

definition commit_writes :: "klogdata \<Rightarrow> (uint \<Rightarrow> block) \<Rightarrow> (uint \<times> block) list" where
  "commit_writes l v =
     (let n = nat (lh_n (l_lh l));
          h1 = put_head (l_lh l) (v (l_start l));
          h0 = put_head ((l_lh l)\<lparr>lh_n := 0\<rparr>) h1
      in log_writes l v n @ [(l_start l, h1)]
         @ map (\<lambda>i. (lh_block (l_lh l) i, v (lh_block (l_lh l) i))) [0..<n] @ [(l_start l, h0)])"

text \<open>What a caller of commit() must have set up: every modified block is in the log.\<close>

definition commit_ready :: "'z klog_scheme \<Rightarrow> bool" where
  "commit_ready s \<longleftrightarrow> bc_inv s \<and> lockedblks s = {} \<and> dirtied s = entries (the_log s) \<and>
     log_ok (the_log s) (disksize s) \<and> head_ok (the_log s) (disksize s) (l_lh (the_log s))"

lemma log_writes_lookup:
  assumes ok: "log_ok l sz" "head_ok l sz (l_lh l)" and i: "i < nat (lh_n (l_lh l))"
  shows "apply_writes (log_writes l v (nat (lh_n (l_lh l)))) w (log_block l i) = v (lh_block (l_lh l) i)"
  unfolding log_writes_def
  by (rule apply_writes_hit [OF log_block_inj [OF ok(1)] i]) (use ok in \<open>auto simp: head_ok_def\<close>)

lemma set_lh_log [simp]:
  "entries (l\<lparr>l_lh := h\<rparr>) = lh_block h ` {..<nat (lh_n h)}"
  "log_ok (l\<lparr>l_lh := h\<rparr>) sz = log_ok l sz"
  "log_area (l\<lparr>l_lh := h\<rparr>) = log_area l"
  "head_ok (l\<lparr>l_lh := h\<rparr>) sz h' = head_ok l sz h'"
  by (auto simp: entries_def log_ok_def log_area_def head_ok_def)

lemma wp_commit:
  assumes r: "commit_ready s" and n: "0 < lh_n (l_lh (the_log s))"
    and Q: "\<And>t. let ws = commit_writes (the_log s) (cview s) in
       bc.looks t (apply_writes ws (cview s)) (apply_writes ws (disk s)) (dtrace s @ ws) {} {}
         (brest (set_lh (\<lambda>h. h\<lparr>lh_n := 0\<rparr>) s)) \<Longrightarrow> Q () t"
  shows "wp commit Q s"
proof -
  define l v d where "l = the_log s" and "v = cview s" and "d = disk s"
  let ?n = "nat (lh_n (l_lh l))" and ?st = "l_start l"
  let ?w1 = "log_writes l v ?n" and ?h1 = "put_head (l_lh l) (v ?st)"
  let ?v1 = "apply_writes ?w1 v" and ?d1 = "apply_writes ?w1 d"
  let ?v2 = "?v1(?st := ?h1)" and ?d2 = "?d1(?st := ?h1)"
  let ?w3 = "map (\<lambda>i. (lh_block (l_lh l) i, v (lh_block (l_lh l) i))) [0..<?n]"
  have ok: "log_ok l (disksize s)" "head_ok l (disksize s) (l_lh l)" and inv: "bc_inv s"
    using r by (auto simp: commit_ready_def l_def)
  have l0: "bc.looks s v d (dtrace s) (entries l) {} (brest s)"
    using r by (auto simp: bc.looks_def commit_ready_def l_def v_def d_def)
  have se: "?st \<notin> entries l" using log_start_facts(1) [OF ok(1)] ok(2) by (auto simp: entries_def head_ok_def)
  have vd: "v ?st = d ?st" using bc.clean [OF l0, of ?st] se by blast
  have nn: "int ?n \<le> l_size l - 1" using ok(2) by (simp add: head_ok_def)
  have st1: "?v1 ?st = v ?st" "?d1 ?st = v ?st"
    using log_writes_area [OF ok(1) nn, of v] vd by (subst apply_writes_other; force)+
  have inst: "install_writes l ?v2 ?n = ?w3"
    unfolding install_writes_def
    using log_writes_lookup [OF ok, of _ v v] log_block_facts(2) [OF ok(1)] entry_facts(4) [OF ok(2)] by auto
  have lim: "lh_n (l_lh l) \<le> int LOGSIZE" "0 \<le> lh_n (l_lh l)"
    using card_entries(3) [OF ok] ok(2) by (auto simp: head_ok_def)
  show ?thesis
    unfolding commit_def wp_kbind wp_kget wp_kwhen if_P [OF n] wp_kthen
  proof (rule wp_write_log [OF l0 l_def ok], unfold Let_def)
    fix t1 assume t1: "bc.looks t1 ?v1 ?d1 (dtrace s @ ?w1) (entries l) {} (brest s)"
    have b1: "brest t1 = brest s" using t1 by (simp add: bc.looks_def)
    have lg1: "l = the_log t1" "disksize t1 = disksize s"
      using looks_log [OF t1] brest_size [OF b1] by (simp_all add: l_def)
    show "wp write_head (\<lambda>_. wp install_trans (\<lambda>_. wp (kmodify (set_lh (\<lambda>h. h\<lparr>lh_n := 0\<rparr>)))
        (\<lambda>_. wp write_head Q))) t1"
    proof (rule wp_write_head [OF t1 [folded b1] lg1(1) card_entries(1) [OF ok] _ se lim(1)],
        unfold Let_def lg1(2) b1 st1(2))
      fix t2 assume t2: "bc.looks t2 ?v2 ?d2 ((dtrace s @ ?w1) @ [(?st, ?h1)]) (entries l) {} (brest s)"
      have b2: "brest t2 = brest s" using t2 by (simp add: bc.looks_def)
      have lg2: "l = the_log t2" "disksize t2 = disksize s"
        using looks_log [OF t2] brest_size [OF b2] by (simp_all add: l_def)
      show "wp install_trans (\<lambda>_. wp (kmodify (set_lh (\<lambda>h. h\<lparr>lh_n := 0\<rparr>))) (\<lambda>_. wp write_head Q)) t2"
      proof (rule wp_install_trans [OF t2 [folded b2] lg2(1) disjI1], unfold Let_def lg2(2) b2 inst wp_kmodify)
        fix t3 assume t3: "bc.looks t3 (apply_writes ?w3 ?v2) (apply_writes ?w3 ?d2)
            (((dtrace s @ ?w1) @ [(?st, ?h1)]) @ ?w3) {} {} (brest s)"
        let ?t = "set_lh (\<lambda>h. h\<lparr>lh_n := 0\<rparr>) t3" and ?l = "l\<lparr>l_lh := (l_lh l)\<lparr>lh_n := 0\<rparr>\<rparr>"
        have b3: "brest t3 = brest s" using t3 by (simp add: bc.looks_def)
        have b4: "brest ?t = brest (set_lh (\<lambda>h. h\<lparr>lh_n := 0\<rparr>) s)"
          unfolding set_lh_def by (rule brest_upd_log [OF b3])
        have lg3: "?l = the_log ?t" "disksize ?t = disksize s"
          using looks_log [OF t3] brest_size [OF b3] by (simp_all add: l_def set_lh_def)
        have t4: "bc.looks ?t (apply_writes ?w3 ?v2) (apply_writes ?w3 ?d2)
            (((dtrace s @ ?w1) @ [(?st, ?h1)]) @ ?w3) {} {} (brest ?t)"
          unfolding b4 using looks_upd_log [OF t3] by (simp add: set_lh_def)
        have "fst ` set ?w3 = entries l" by (simp add: entries_def image_image atLeast0LessThan)
        then have st3: "apply_writes ?w3 ?d2 ?st = ?h1" using se by (subst apply_writes_other) auto
        show "wp write_head Q ?t"
        proof (rule wp_write_head [OF t4 lg3(1)], unfold Let_def)
          fix t5 assume "bc.looks t5 ((apply_writes ?w3 ?v2)(l_start ?l := put_head (l_lh ?l) (apply_writes ?w3 ?d2 (l_start ?l))))
            ((apply_writes ?w3 ?d2)(l_start ?l := put_head (l_lh ?l) (apply_writes ?w3 ?d2 (l_start ?l))))
            ((((dtrace s @ ?w1) @ [(?st, ?h1)]) @ ?w3) @ [(l_start ?l, put_head (l_lh ?l) (apply_writes ?w3 ?d2 (l_start ?l)))])
            {} {} (brest ?t)"
          then show "Q () t5" using Q [of t5] st3
            by (simp add: Let_def commit_writes_def b4 flip: l_def v_def d_def)
        qed (use ok lg3(2) in simp_all)
      qed (use ok in simp_all)
    qed (use ok lg1 in simp_all)
  qed
qed

section \<open>Recovery\<close>

definition disk_head :: "klogdata \<Rightarrow> (uint \<Rightarrow> block) \<Rightarrow> logheader" where
  "disk_head l d = \<lparr>lh_n = head_n (d (l_start l)), lh_block = head_block (d (l_start l))\<rparr>"

definition disk_ok :: "klogdata \<Rightarrow> uint \<Rightarrow> (uint \<Rightarrow> block) \<Rightarrow> bool" where
  "disk_ok l sz d \<longleftrightarrow> log_ok l sz \<and> head_ok l sz (disk_head l d) \<and> (\<forall>x. length (d x) = BSIZE)"

definition recover_writes :: "klogdata \<Rightarrow> (uint \<Rightarrow> block) \<Rightarrow> (uint \<times> block) list" where
  "recover_writes l d = map (\<lambda>i. (lh_block (disk_head l d) i, d (log_block l i))) [0..<nat (lh_n (disk_head l d))]
     @ [(l_start l, put_head ((disk_head l d)\<lparr>lh_n := 0\<rparr>) (d (l_start l)))]"

text \<open>read_head() leaves the unused entries of the in-memory header as they were.\<close>

definition read_entries :: "block \<Rightarrow> nat \<Rightarrow> logheader \<Rightarrow> logheader" where
  "read_entries d m h = h\<lparr>lh_n := head_n d, lh_block := (\<lambda>i. if i < m then head_block d i else lh_block h i)\<rparr>"

lemma wp_read_head:
  assumes l: "bc.looks s v d tr {} {} (brest s)" and lg: "l = the_log s" and ok: "log_ok l (disksize s)"
    and n: "head_n (d (l_start l)) \<le> int LOGSIZE"
    and Q: "\<And>t. bc.looks t v d tr {} {} (brest (set_lh (read_entries (d (l_start l)) (nat (head_n (d (l_start l))))) s)) \<Longrightarrow> Q () t"
  shows "wp read_head Q s"
proof -
  let ?a = "l_start l"
  define h where "h = d ?a"
  have e: "v ?a = h" using bc.clean [OF l, of ?a] by (simp add: h_def)
  have dev: "l_dev l = ROOTDEV" using ok by (simp add: log_ok_def)
  have rng: "brange (brest s) ?a" using log_start_facts(2) [OF ok] by simp
  show ?thesis unfolding read_head_def wp_kbind wp_kget lg [symmetric] dev
  proof (rule bc.read_rule [OF l rng])
    fix b t assume t: "bc.looks t v d tr {} {?a} (brest s)" "held t b ?a"
    let ?I = "\<lambda>i t'. t' = set_lh (read_entries h i) t"
    let ?body = "\<lambda>i. if i \<ge> LOGSIZE then kfault ''log.lh.block''
        else kmodify (set_lh (\<lambda>x. x\<lparr>lh_block := (lh_block x)(i := head_block h i)\<rparr>))"
    have loop: "wp (kfor [0..<nat (head_n h)] ?body) (\<lambda>_. ?I (nat (head_n h))) (set_lh (\<lambda>x. x\<lparr>lh_n := head_n h\<rparr>) t)"
    proof (rule wp_kfor_upt)
      show "?I 0 (set_lh (\<lambda>x. x\<lparr>lh_n := head_n h\<rparr>) t)" by (simp add: read_entries_def set_lh_def upd_log_def)
    next
      fix i t' assume i: "i < nat (head_n h)" and I: "?I i t'"
      have up: "(\<lambda>j. if j < i then f j else g j)(i := f i) = (\<lambda>j. if j < Suc i then f j else g j)"
        for f g :: "nat \<Rightarrow> uint" by (auto simp: less_Suc_eq)
      have "i < LOGSIZE" using i n h_def by simp
      then have b: "?body i = kmodify (set_lh (\<lambda>x. x\<lparr>lh_block := (lh_block x)(i := head_block h i)\<rparr>))" by simp
      show "wp (?body i) (\<lambda>_. ?I (Suc i)) t'"
        unfolding b wp_kmodify I by (simp add: set_lh_def upd_log_def read_entries_def up)
    qed simp
    show "wp (buf_data b) (\<lambda>d'. wp (kthen (kmodify (set_lh (\<lambda>x. x\<lparr>lh_n := head_n d'\<rparr>)))
        (kthen (kfor [0..<nat (head_n d')] (\<lambda>i. if i \<ge> LOGSIZE then kfault ''log.lh.block''
        else kmodify (set_lh (\<lambda>x. x\<lparr>lh_block := (lh_block x)(i := head_block d' i)\<rparr>)))) (brelse b))) Q) t"
      unfolding wp_kthen wp_kmodify
    proof (rule bc.data_rule [OF t], unfold e, rule wp_mono [OF loop], hypsubst)
      let ?g = "\<lambda>l. l\<lparr>l_lh := read_entries h (nat (head_n h)) (l_lh l)\<rparr>"
      have "bc.looks (upd_log ?g t) v d tr {} {?a} (brest (upd_log ?g s))" "held (upd_log ?g t) b ?a"
        using looks_upd_log [OF t(1)] t(2) by simp_all
      then show "wp (brelse b) Q (set_lh (read_entries h (nat (head_n h))) t)" unfolding set_lh_def
        by (rule bc.release_rule) (use e Q in \<open>auto simp: set_lh_def h_def\<close>)
    qed
  qed simp_all
qed

lemma head_ok_cong:
  assumes "lh_n h = lh_n h'" and "\<And>i. i < nat (lh_n h') \<Longrightarrow> lh_block h i = lh_block h' i"
  shows "head_ok l sz h = head_ok l sz h'"
  using assms inj_on_cong [of "{..<nat (lh_n h')}" "lh_block h" "lh_block h'"] by (simp add: head_ok_def)

lemma wp_recover_from_log:
  assumes l: "bc.looks s v d tr {} {} (brest s)" and lg: "l = the_log s" and ok: "disk_ok l (disksize s) d"
    and Q: "\<And>t. bc.looks t (apply_writes (recover_writes l d) d) (apply_writes (recover_writes l d) d)
        (tr @ recover_writes l d) {} {} (brest t) \<Longrightarrow> lh_n (l_lh (the_log t)) = 0 \<Longrightarrow> Q () t"
  shows "wp recover_from_log Q s"
proof -
  let ?h = "d (l_start l)" and ?n = "nat (lh_n (disk_head l d))"
  let ?re = "read_entries ?h (nat (head_n ?h))"
  let ?l1 = "l\<lparr>l_lh := ?re (l_lh l)\<rparr>" and ?l2 = "l\<lparr>l_lh := (?re (l_lh l))\<lparr>lh_n := 0\<rparr>\<rparr>"
  let ?w = "map (\<lambda>i. (lh_block (disk_head l d) i, d (log_block l i))) [0..<?n]"
  have lok: "log_ok l (disksize s)" and hok: "head_ok l (disksize s) (disk_head l d)"
    using ok by (auto simp: disk_ok_def)
  have vd: "v = d" using bc.clean [OF l] by auto
  have n: "head_n ?h \<le> int LOGSIZE" using lok hok by (simp add: head_ok_def log_ok_def disk_head_def)
  have hok1: "head_ok l (disksize s) (?re (l_lh l))"
    using hok by (subst head_ok_cong [of _ "disk_head l d"]) (simp_all add: read_entries_def disk_head_def)
  have iw: "install_writes ?l1 d (nat (lh_n (l_lh ?l1))) = ?w"
    by (simp add: install_writes_def read_entries_def disk_head_def log_block_def)
  have se: "l_start l \<notin> fst ` set ?w" using hok log_start_facts(1) [OF lok] by (auto simp: head_ok_def)
  have ph: "put_head (l_lh ?l2) (apply_writes ?w d (l_start l)) = put_head ((disk_head l d)\<lparr>lh_n := 0\<rparr>) ?h"
    by (simp add: apply_writes_other [OF se] put_head_def)
  show ?thesis unfolding recover_from_log_def wp_kthen wp_kmodify
  proof (rule wp_read_head [OF l lg lok n])
    fix t1 assume t1: "bc.looks t1 v d tr {} {} (brest (set_lh ?re s))"
    have b1: "brest t1 = brest (set_lh ?re s)" using t1 by (simp add: bc.looks_def)
    have lg1: "?l1 = the_log t1" "disksize t1 = disksize s"
      using looks_log [OF t1] brest_size [OF b1] by (simp_all add: lg set_lh_def)
    show "wp install_trans (\<lambda>_ t. wp write_head Q (set_lh (\<lambda>h. h\<lparr>lh_n := 0\<rparr>) t)) t1"
    proof (rule wp_install_trans [OF t1 [folded b1, unfolded vd] lg1(1) disjI2 [OF refl]], unfold Let_def iw)
      fix t2 assume t2: "bc.looks t2 (apply_writes ?w d) (apply_writes ?w d) (tr @ ?w) {} {} (brest t1)"
      let ?t = "set_lh (\<lambda>h. h\<lparr>lh_n := 0\<rparr>) t2"
      have b2: "brest t2 = brest t1" using t2 by (simp add: bc.looks_def)
      have e2: "the_log t2 = ?l1" "disksize t2 = disksize s"
        unfolding lg1 using looks_log [OF t2] brest_size [OF b2] lg1(2) by simp_all
      then have lg2: "?l2 = the_log ?t" "disksize ?t = disksize s" by (simp_all add: set_lh_def)
      have t3: "bc.looks ?t (apply_writes ?w d) (apply_writes ?w d) (tr @ ?w) {} {} (brest ?t)"
        using looks_upd_log [OF t2 [folded b2]] by (simp add: set_lh_def)
      show "wp write_head Q ?t"
      proof (rule wp_write_head [OF t3 lg2(1)], unfold Let_def)
        fix t4 assume t4: "bc.looks t4 ((apply_writes ?w d)(l_start ?l2 := put_head (l_lh ?l2) (apply_writes ?w d (l_start ?l2))))
          ((apply_writes ?w d)(l_start ?l2 := put_head (l_lh ?l2) (apply_writes ?w d (l_start ?l2))))
          ((tr @ ?w) @ [(l_start ?l2, put_head (l_lh ?l2) (apply_writes ?w d (l_start ?l2)))]) {} {} (brest ?t)"
        have b4: "brest t4 = brest ?t" using t4 by (simp add: bc.looks_def)
        have "lh_n (l_lh (the_log t4)) = 0" using brest_log [OF b4] by (simp flip: lg2(1))
        then show "Q () t4" using Q [of t4] t4 ph unfolding b4 by (simp add: recover_writes_def)
      qed (use lok lg2(2) in simp_all)
    qed (use lok hok1 lg1(2) in simp_all)
  qed
qed

section \<open>Crashes\<close>

lemma recover_lookup:
  assumes ok: "disk_ok l sz d" and x: "x \<notin> log_area l"
  shows "i < nat (lh_n (disk_head l d)) \<Longrightarrow> x = lh_block (disk_head l d) i \<Longrightarrow>
      apply_writes (recover_writes l d) d x = d (log_block l i)"
    "x \<notin> lh_block (disk_head l d) ` {..<nat (lh_n (disk_head l d))} \<Longrightarrow>
      apply_writes (recover_writes l d) d x = d x"
proof -
  have inj: "inj_on (lh_block (disk_head l d)) {..<nat (lh_n (disk_head l d))}"
    and st: "x \<noteq> l_start l"
    using ok x log_start_facts(1) [of l sz] by (auto simp: disk_ok_def head_ok_def)
  then show "i < nat (lh_n (disk_head l d)) \<Longrightarrow> x = lh_block (disk_head l d) i \<Longrightarrow>
      apply_writes (recover_writes l d) d x = d (log_block l i)"
    by (simp add: recover_writes_def apply_writes_hit [OF inj])
  show "apply_writes (recover_writes l d) d x = d x"
    if "x \<notin> lh_block (disk_head l d) ` {..<nat (lh_n (disk_head l d))}"
    using that st by (intro apply_writes_other) (auto simp: recover_writes_def)
qed

text \<open>A disk that agrees with another on the header block has the same header.\<close>

lemma disk_head_cong: "d (l_start l) = d' (l_start l) \<Longrightarrow> disk_head l d = disk_head l d'"
  by (simp add: disk_head_def)

lemma length_apply_writes:
  "\<lbrakk>\<forall>x. length (d x) = m; \<forall>(a, x) \<in> set ws. length x = m\<rbrakk> \<Longrightarrow> length (apply_writes ws d x) = m"
  by (induction ws arbitrary: d) auto

text \<open>
  The three stages of commit() as disks: before the header is written the old header is
  still there; from then on the header lists the blocks and the log holds their new
  contents; in the end the header is empty again.
\<close>

lemma recover_empty:
  assumes "disk_ok l sz d" and "lh_n (disk_head l d) = 0" and "x \<notin> log_area l"
  shows "apply_writes (recover_writes l d) d x = d x"
  using recover_lookup(2) [OF assms(1,3)] assms(2) by simp

lemma recover_committed:
  assumes ok: "disk_ok l sz d" and hok: "head_ok l sz (l_lh l)"
    and n: "lh_n (disk_head l d) = lh_n (l_lh l)"
    and b: "\<And>i. i < nat (lh_n (l_lh l)) \<Longrightarrow> lh_block (disk_head l d) i = lh_block (l_lh l) i"
    and c: "\<And>i. i < nat (lh_n (l_lh l)) \<Longrightarrow> d (log_block l i) = v (lh_block (l_lh l) i)"
    and o: "\<And>y. y \<notin> log_area l \<Longrightarrow> y \<notin> entries l \<Longrightarrow> d y = v y"
    and x: "x \<notin> log_area l"
  shows "apply_writes (recover_writes l d) d x = v x"
proof (cases "x \<in> entries l")
  case True
  then obtain i where "i < nat (lh_n (l_lh l))" "x = lh_block (l_lh l) i" by (auto simp: entries_def)
  then show ?thesis using recover_lookup(1) [OF ok x, of i] n b c by simp
next
  case False
  then have "x \<notin> lh_block (disk_head l d) ` {..<nat (lh_n (disk_head l d))}"
    using n b by (auto simp: entries_def)
  then show ?thesis using recover_lookup(2) [OF ok x] o [OF x False] by simp
qed

lemma take_stages:
  assumes "length a = n" and "length b = n"
  shows "k \<le> n \<Longrightarrow> take k (a @ x # b @ [y]) = take k a"
    "j \<le> n \<Longrightarrow> take (Suc (n + j)) (a @ x # b @ [y]) = a @ x # take j b"
    "Suc (n + n) < k \<Longrightarrow> take k (a @ x # b @ [y]) = a @ x # b @ [y]"
  using assms by simp_all

definition old_or_new :: "klogdata \<Rightarrow> uint \<Rightarrow> (uint \<Rightarrow> block) \<Rightarrow> (uint \<Rightarrow> block) \<Rightarrow> bool \<Rightarrow> (uint \<Rightarrow> block) \<Rightarrow> bool" where
  "old_or_new l sz d v new dk \<longleftrightarrow> disk_ok l sz dk \<and>
     (\<forall>x. x \<notin> log_area l \<longrightarrow> apply_writes (recover_writes l dk) dk x = (if new then v x else d x))"

lemma crash_before:
  assumes lok: "log_ok l sz" and d: "disk_ok l sz d" and d0: "lh_n (disk_head l d) = 0"
    and m: "int m \<le> l_size l - 1" and len: "\<forall>x. length (apply_writes (take k (log_writes l v m)) d x) = BSIZE"
  shows "old_or_new l sz d v False (apply_writes (take k (log_writes l v m)) d)"
proof -
  define dk where "dk = apply_writes (take k (log_writes l v m)) d"
  have w: "fst ` set (take k (log_writes l v m)) \<subseteq> log_area l - {l_start l}"
    using log_writes_area [OF lok m] by (meson image_mono order_trans set_take_subset)
  then have hd: "disk_head l dk = disk_head l d"
    unfolding dk_def by (intro disk_head_cong apply_writes_other) blast
  then have ok: "disk_ok l sz dk" using d len by (simp add: disk_ok_def dk_def)
  have "dk x = d x" if "x \<notin> log_area l" for x
    unfolding dk_def using w that by (intro apply_writes_other) blast
  then have "apply_writes (recover_writes l dk) dk x = d x" if "x \<notin> log_area l" for x
    using recover_empty [OF ok _ that] hd d0 that by simp
  with ok show ?thesis by (simp add: old_or_new_def flip: dk_def)
qed

lemma crash_after:
  fixes l v d
  defines "n \<equiv> nat (lh_n (l_lh l))"
  defines "w3 \<equiv> map (\<lambda>i. (lh_block (l_lh l) i, v (lh_block (l_lh l) i))) [0..<n]"
  defines "d2 \<equiv> (apply_writes (log_writes l v n) d)(l_start l := put_head (l_lh l) (v (l_start l)))"
  assumes lok: "log_ok l sz" and hok: "head_ok l sz (l_lh l)" and lv: "\<forall>x. length (v x) = BSIZE"
    and vd: "\<And>y. y \<notin> entries l \<Longrightarrow> v y = d y"
    and len: "\<forall>x. length (apply_writes (take j w3) d2 x) = BSIZE"
  shows "old_or_new l sz d v True (apply_writes (take j w3) d2)"
proof -
  define dk where "dk = apply_writes (take j w3) d2"
  have nn: "int n \<le> l_size l - 1" "lh_n (l_lh l) \<le> int LOGSIZE" "0 \<le> lh_n (l_lh l)"
    using lok hok by (auto simp: head_ok_def log_ok_def n_def)
  have sa: "l_start l \<in> log_area l" by (rule log_start_facts(1) [OF lok])
  have ea: "entries l \<inter> log_area l = {}" using hok by (auto simp: entries_def head_ok_def)
  have "fst ` set w3 = entries l" by (simp add: w3_def n_def entries_def image_image atLeast0LessThan)
  then have w: "fst ` set (take j w3) \<subseteq> entries l" by (metis image_mono set_take_subset)
  have other: "dk x = d2 x" if "x \<notin> entries l" for x
    unfolding dk_def using w that by (intro apply_writes_other) blast
  have "dk (l_start l) = put_head (l_lh l) (v (l_start l))" using other [of "l_start l"] sa ea by (auto simp: d2_def)
  then have hd: "lh_n (disk_head l dk) = lh_n (l_lh l)"
    "\<And>i. i < nat (lh_n (l_lh l)) \<Longrightarrow> lh_block (disk_head l dk) i = lh_block (l_lh l) i"
    using head_roundtrip [OF lv [rule_format] nn(3,2)] by (simp_all add: disk_head_def)
  then have ok: "disk_ok l sz dk" using lok hok len head_ok_cong [OF hd] by (simp add: disk_ok_def dk_def)
  have "apply_writes (recover_writes l dk) dk x = v x" if "x \<notin> log_area l" for x
  proof (rule recover_committed [OF ok hok hd _ _ that])
    fix i assume i: "i < nat (lh_n (l_lh l))"
    note lb = log_block_facts [OF lok entry_facts(4) [OF hok i]]
    then have "dk (log_block l i) = d2 (log_block l i)" using ea by (intro other) blast
    then show "dk (log_block l i) = v (lh_block (l_lh l) i)"
      using lb(2) log_writes_lookup [OF lok hok i] by (simp add: d2_def n_def)
  next
    fix y assume y: "y \<notin> log_area l" "y \<notin> entries l"
    then have "apply_writes (log_writes l v n) d y = d y"
      using log_writes_area [OF lok nn(1)] by (intro apply_writes_other) blast
    then show "dk y = v y" using other [OF y(2)] vd [OF y(2)] y(1) sa by (auto simp: d2_def)
  qed
  with ok show ?thesis by (simp add: old_or_new_def flip: dk_def)
qed

text \<open>After the last write the header is empty and every home location has its new contents.\<close>

lemma crash_done:
  fixes l v d
  defines "n \<equiv> nat (lh_n (l_lh l))"
  defines "w3 \<equiv> map (\<lambda>i. (lh_block (l_lh l) i, v (lh_block (l_lh l) i))) [0..<n]"
  defines "h1 \<equiv> put_head (l_lh l) (v (l_start l))"
  assumes lok: "log_ok l sz" and hok: "head_ok l sz (l_lh l)" and h1: "length h1 = BSIZE"
    and vd: "\<And>y. y \<notin> entries l \<Longrightarrow> v y = d y"
    and len: "\<forall>x. length (((apply_writes w3 ((apply_writes (log_writes l v n) d)(l_start l := h1)))
        (l_start l := put_head ((l_lh l)\<lparr>lh_n := 0\<rparr>) h1)) x) = BSIZE"
  shows "old_or_new l sz d v True ((apply_writes w3 ((apply_writes (log_writes l v n) d)(l_start l := h1)))
        (l_start l := put_head ((l_lh l)\<lparr>lh_n := 0\<rparr>) h1))" (is "old_or_new l sz d v True ?dk")
proof -
  have hd: "lh_n (disk_head l ?dk) = 0"
    using head_roundtrip(1) [of h1 "(l_lh l)\<lparr>lh_n := 0\<rparr>", OF h1] by (simp add: disk_head_def)
  then have ok: "disk_ok l sz ?dk"
    using lok len unfolding disk_ok_def head_ok_def log_ok_def by simp
  have nn: "int n \<le> l_size l - 1" and inj: "inj_on (lh_block (l_lh l)) {..<n}"
    using hok by (auto simp: head_ok_def n_def)
  have w3: "fst ` set w3 = entries l" by (simp add: w3_def n_def entries_def image_image atLeast0LessThan)
  have "?dk x = v x" if x: "x \<notin> log_area l" for x
  proof -
    have st: "x \<noteq> l_start l" using x log_start_facts(1) [OF lok] by blast
    show ?thesis
    proof (cases "x \<in> entries l")
      case True
      then obtain i where i: "i < n" "x = lh_block (l_lh l) i" by (auto simp: entries_def n_def)
      then show ?thesis using st apply_writes_hit [OF inj i(1), of "\<lambda>i. v (lh_block (l_lh l) i)"]
        by (simp add: w3_def)
    next
      case False
      have "apply_writes (log_writes l v n) d x = d x"
        using log_writes_area [OF lok nn] x by (intro apply_writes_other) blast
      moreover have "x \<notin> fst ` set w3" using w3 False by simp
      ultimately show ?thesis using st vd [OF False] by (simp add: apply_writes_other)
    qed
  qed
  then have "apply_writes (recover_writes l ?dk) ?dk x = v x" if "x \<notin> log_area l" for x
    using recover_empty [OF ok hd that] that by simp
  with ok show ?thesis by (simp add: old_or_new_def)
qed

text \<open>The disk after the first \<open>k\<close> block writes of commit() is always recoverable.\<close>

lemma crash_commit:
  assumes lok: "log_ok l sz" and hok: "head_ok l sz (l_lh l)" and d: "disk_ok l sz d"
    and d0: "lh_n (disk_head l d) = 0" and lv: "\<forall>x. length (v x) = BSIZE"
    and vd: "\<And>y. y \<notin> entries l \<Longrightarrow> v y = d y"
  shows "old_or_new l sz d v (nat (lh_n (l_lh l)) < k) (apply_writes (take k (commit_writes l v)) d)"
    (is "old_or_new l sz d v _ ?dk")
proof -
  define n where "n = nat (lh_n (l_lh l))"
  define w1 w3 where "w1 = log_writes l v n"
    and "w3 = map (\<lambda>i. (lh_block (l_lh l) i, v (lh_block (l_lh l) i))) [0..<n]"
  define h1 h0 where "h1 = put_head (l_lh l) (v (l_start l))" and "h0 = put_head ((l_lh l)\<lparr>lh_n := 0\<rparr>) h1"
  have W: "commit_writes l v = w1 @ (l_start l, h1) # w3 @ [(l_start l, h0)]"
    by (simp add: commit_writes_def Let_def n_def w1_def w3_def h1_def h0_def)
  have l13: "length w1 = n" "length w3 = n" by (simp_all add: w1_def w3_def log_writes_def)
  have nn: "int n \<le> l_size l - 1" "lh_n (l_lh l) \<le> int LOGSIZE"
    using lok hok by (auto simp: head_ok_def log_ok_def n_def)
  have h1: "length h1 = BSIZE" unfolding h1_def using length_put_head lv nn(2) by blast
  have h0: "length h0 = BSIZE" unfolding h0_def by (rule length_put_head [OF h1]) simp
  have "\<forall>(a, x) \<in> set (commit_writes l v). length x = BSIZE"
    using lv h1 h0 by (auto simp: W w1_def w3_def log_writes_def)
  then have len: "\<forall>x. length (?dk x) = BSIZE"
    using d by (intro allI length_apply_writes) (auto simp: disk_ok_def dest: in_set_takeD)
  consider "k \<le> n" | j where "k = Suc (n + j)" "j \<le> n" | "Suc (n + n) < k"
    by (metis add_le_cancel_left less_Suc_eq_le less_imp_Suc_add linorder_not_le)
  then show ?thesis
  proof cases
    case 1
    then have e: "take k (commit_writes l v) = take k w1" unfolding W by (rule take_stages [OF l13])
    have "\<not> n < k" using 1 by simp
    then show ?thesis using crash_before [OF lok d d0 nn(1), of k v] len
      unfolding e w1_def by (simp only: simp_thms flip: n_def)
  next
    case 2
    then have e: "take k (commit_writes l v) = w1 @ (l_start l, h1) # take j w3"
      unfolding W 2(1) by (intro take_stages [OF l13])
    have "n < k" using 2 by simp
    then show ?thesis using crash_after [OF lok hok lv vd, of j] len
      unfolding e by (simp only: simp_thms apply_writes_simps flip: n_def w1_def w3_def h1_def)
  next
    case 3
    then have e: "take k (commit_writes l v) = w1 @ (l_start l, h1) # w3 @ [(l_start l, h0)]"
      unfolding W by (rule take_stages [OF l13])
    have "n < k" using 3 by simp
    then show ?thesis using crash_done [where v = v and d = d, OF lok hok _ vd] h1 len
      unfolding e by (simp only: simp_thms apply_writes_simps flip: n_def w1_def w3_def h1_def h0_def)
  qed
qed

text \<open>Recovery can itself be interrupted: the header is still there until its last write.\<close>

lemma crash_recover:
  assumes ok: "disk_ok l sz d"
  shows "old_or_new l sz d (apply_writes (recover_writes l d) d) True (apply_writes (take k (recover_writes l d)) d)"
    (is "old_or_new l sz d ?new True ?dk")
proof -
  define h n where "h = disk_head l d" and "n = nat (lh_n h)"
  define w clr where "w = map (\<lambda>i. (lh_block h i, d (log_block l i))) [0..<n]"
    and "clr = put_head (h\<lparr>lh_n := 0\<rparr>) (d (l_start l))"
  let ?st = "l_start l"
  have rw: "recover_writes l d = w @ [(?st, clr)]" by (simp add: recover_writes_def h_def n_def w_def clr_def)
  have lw: "length w = n" by (simp add: w_def)
  have lok: "log_ok l sz" and hok: "head_ok l sz h" and len: "\<forall>x. length (d x) = BSIZE"
    using ok by (auto simp: disk_ok_def h_def)
  have h0: "length clr = BSIZE" unfolding clr_def using len by (intro length_put_head) auto
  have dlen: "\<forall>x. length (?dk x) = BSIZE" using len h0 unfolding rw
    by (intro allI length_apply_writes) (auto simp: w_def dest!: in_set_takeD)
  have sa: "?st \<in> log_area l" by (rule log_start_facts(1) [OF lok])
  have W: "fst ` set w = lh_block h ` {..<n}" by (simp add: w_def image_image atLeast0LessThan)
  have ea: "lh_block h ` {..<n} \<inter> log_area l = {}" using hok by (auto simp: head_ok_def n_def)
  show ?thesis
  proof (cases "k \<le> n")
    case True
    then have e: "?dk = apply_writes (take k w) d" using lw by (simp add: rw)
    have tw: "fst ` set (take k w) \<subseteq> lh_block h ` {..<n}" using W by (metis image_mono set_take_subset)
    have same: "?dk x = d x" if "x \<in> log_area l \<or> x \<notin> lh_block h ` {..<n}" for x
      unfolding e using tw that ea by (intro apply_writes_other) blast
    have hd: "disk_head l ?dk = h" unfolding h_def using same [of ?st] sa by (intro disk_head_cong) simp
    then have dok: "disk_ok l sz ?dk" using lok hok dlen by (simp add: disk_ok_def)
    have "apply_writes (recover_writes l ?dk) ?dk x = ?new x" if x: "x \<notin> log_area l" for x
    proof (cases "x \<in> lh_block h ` {..<n}")
      case True
      then obtain i where i: "i < n" "x = lh_block h i" by auto
      have "int i + 1 < l_size l" using i hok by (auto simp: head_ok_def n_def)
      then have "?dk (log_block l i) = d (log_block l i)" using log_block_facts(1) [OF lok] same by blast
      with i show ?thesis using recover_lookup(1) [OF dok x, of i] recover_lookup(1) [OF ok x, of i]
        by (simp only: hd simp_thms flip: h_def n_def)
    next
      case False
      then show ?thesis using recover_lookup(2) [OF dok x] recover_lookup(2) [OF ok x] same
        by (simp only: hd simp_thms flip: h_def n_def)
    qed
    with dok show ?thesis by (simp add: old_or_new_def)
  next
    case False
    then have e: "?dk = ?new" using lw by (simp add: rw)
    have "?new ?st = clr" by (simp add: rw)
    then have hd: "lh_n (disk_head l ?new) = 0"
      using head_roundtrip(1) [of "d ?st" "h\<lparr>lh_n := 0\<rparr>"] len by (simp add: disk_head_def clr_def)
    then have dok: "disk_ok l sz ?new" using lok dlen unfolding e by (simp add: disk_ok_def head_ok_def log_ok_def)
    show ?thesis unfolding e old_or_new_def using dok recover_empty [OF dok hd] by simp
  qed
qed

section \<open>Commit and recovery under crashes\<close>

text \<open>
  The disk that a crash leaves behind after the first \<open>k\<close> of the block writes between states
  \<open>s\<close> and \<open>t\<close>, and the machine after a restart: an empty cache over that disk and the log at
  the same place; the rest of the memory is arbitrary.
\<close>

definition crash_disk :: "'z klog_scheme \<Rightarrow> 'z klog_scheme \<Rightarrow> nat \<Rightarrow> uint \<Rightarrow> block" where
  "crash_disk s t k = apply_writes (take k (drop (length (dtrace s)) (dtrace t))) (disk s)"

definition boots :: "'z klog_scheme \<Rightarrow> (uint \<Rightarrow> block) \<Rightarrow> 'z klog_scheme \<Rightarrow> bool" where
  "boots s d s' \<longleftrightarrow> bc_inv s' \<and> lockedblks s' = {} \<and> dirtied s' = {} \<and> disk s' = d \<and> disksize s' = disksize s \<and>
     l_start (the_log s') = l_start (the_log s) \<and> l_size (the_log s') = l_size (the_log s) \<and>
     l_dev (the_log s') = l_dev (the_log s)"

lemma same_place:
  assumes "l_start l = l_start l'" "l_size l = l_size l'" "l_dev l = l_dev l'"
  shows "log_area l = log_area l'" "disk_ok l sz d = disk_ok l' sz d" "recover_writes l d = recover_writes l' d"
proof -
  have lb: "log_block l i = log_block l' i" "disk_head l d = disk_head l' d" for i
    using assms by (simp_all add: log_block_def disk_head_def)
  show a: "log_area l = log_area l'" and "recover_writes l d = recover_writes l' d"
    using assms by (simp_all add: log_area_def recover_writes_def lb)
  show "disk_ok l sz d = disk_ok l' sz d"
    using assms by (simp add: disk_ok_def log_ok_def head_ok_def lb a)
qed

lemma recover_after_boot:
  assumes b: "boots s d s'" and o: "old_or_new (the_log s) (disksize s) d0 v new d"
  shows "\<exists>t. recover_from_log s' = Done () t \<and>
    (\<forall>x. x \<notin> log_area (the_log s) \<longrightarrow> disk t x = (if new then v x else d0 x))"
proof -
  have "l_start (the_log s') = l_start (the_log s)" "l_size (the_log s') = l_size (the_log s)"
    "l_dev (the_log s') = l_dev (the_log s)" using b by (auto simp: boots_def)
  note sp = same_place [OF this]
  have "bc.looks s' (cview s') d (dtrace s') {} {} (brest s')" using b by (auto simp: bc.looks_def boots_def)
  then have "wp recover_from_log (\<lambda>_ t. disk t = apply_writes (recover_writes (the_log s') d) d) s'"
    by (rule wp_recover_from_log [OF _ refl]) (use b o sp in \<open>auto simp: boots_def old_or_new_def bc.looks_def\<close>)
  then show ?thesis using o by (auto simp: wp_iff sp old_or_new_def)
qed

section \<open>log\_write()\<close>

definition log_inv :: "'z klog_scheme \<Rightarrow> bool" where
  "log_inv s \<longleftrightarrow> bc_inv s \<and> dirtied s = entries (the_log s) \<and> log_ok (the_log s) (disksize s) \<and>
     head_ok (the_log s) (disksize s) (l_lh (the_log s))"

lemma dirty_held:
  fixes s :: "'z kbio_scheme"
  assumes inv: "bc_inv s" and h: "held s b bno"
  defines "t \<equiv> upd_buf b (\<lambda>x. x\<lparr>b_flags := b_flags x OR B_DIRTY\<rparr>) s"
  shows "bc_inv t" "cview t = cview s" "dirtied t = insert bno (dirtied s)" "lockedblks t = lockedblks s"
    "held t b' x = held s b' x"
proof -
  have c: "cached s b bno" and b: "b < NBUF" using h by (auto simp: held_def cached_def)
  have fl: "b_flags (bufs s b) \<in> {B_VALID, B_VALID OR B_DIRTY}"
    using bc_inv_ok [OF inv b] c by (simp add: buf_ok_def cached_def)
  have ch: "cached t i x = cached s i x" for i x by (auto simp: t_def cached_upd cached_def)
  have lk: "locked t i = locked s i" for i by (simp add: t_def locked_upd locked_def)
  have di: "dirty t i \<longleftrightarrow> i = b \<or> dirty s i" for i using fl by (auto simp: t_def dirty_upd)
  have sel: "bufs t b = (bufs s b)\<lparr>b_flags := b_flags (bufs s b) OR B_DIRTY\<rparr>" "disksize t = disksize s"
    by (simp_all add: t_def)
  show "bc_inv t" unfolding t_def
  proof (rule bc_inv_upd [OF inv], unfold t_def [symmetric])
    show "buf_ok t b" using bc_inv_ok [OF inv b] fl c
      by (auto simp: buf_ok_def lk di cached_def sel)
    show "\<not> cached t b x" if "i \<noteq> b" "cached s i x" for i x
      using that bc_inv_unique [OF inv, of i x b] by (auto simp: ch)
  qed (simp_all)
  show "cview t = cview s" by (rule ext) (simp add: cview_def ch, simp add: t_def split: option.split)
  have "(\<exists>i. cached s i x \<and> (i = b \<or> dirty s i)) \<longleftrightarrow> x = bno \<or> (\<exists>i. cached s i x \<and> dirty s i)" for x
    using c by (auto simp: cached_def)
  then show "dirtied t = insert bno (dirtied s)" by (auto simp: dirtied_def ch di)
  show "lockedblks t = lockedblks s" by (simp add: lockedblks_def ch lk)
  show "held t b' x = held s b' x" by (simp add: held_def ch) (simp add: t_def mylock_def mypid_def upd_buf_def)
qed

text \<open>The header after log\_write() of block \<open>bno\<close>.\<close>

definition log_add :: "uint \<Rightarrow> logheader \<Rightarrow> logheader" where
  "log_add bno h = (let i = log_slot h bno in
     h\<lparr>lh_block := (lh_block h)(i := bno), lh_n := (if int i = lh_n h then lh_n h + 1 else lh_n h)\<rparr>)"

lemma log_slot_cases:
  assumes "0 \<le> lh_n h"
  obtains (absorb) i where "log_slot h bno = i" "i < nat (lh_n h)" "lh_block h i = bno" "log_add bno h = h"
  | (new) "log_slot h bno = nat (lh_n h)" "bno \<notin> lh_block h ` {..<nat (lh_n h)}"
      "log_add bno h = h\<lparr>lh_block := (lh_block h)(nat (lh_n h) := bno), lh_n := lh_n h + 1\<rparr>"
proof (cases "find (\<lambda>i. lh_block h i = bno) [0..<nat (lh_n h)]")
  case None
  then have "log_slot h bno = nat (lh_n h)" by (simp add: log_slot_def)
  moreover have "bno \<notin> lh_block h ` {..<nat (lh_n h)}" using None by (auto simp: find_None_iff)
  ultimately show thesis using new assms by (simp add: log_add_def)
next
  case (Some i)
  then have i: "lh_block h i = bno" "i < nat (lh_n h)" using find_Some_sat [OF Some] by auto
  have s: "log_slot h bno = i" using Some by (simp add: log_slot_def)
  have "(lh_block h)(i := bno) = lh_block h" using i by auto
  then have "log_add bno h = h" using i s by (simp add: log_add_def)
  with s i absorb show thesis by blast
qed

lemma log_slot_le: "log_slot h bno \<le> nat (lh_n h)"
  by (auto simp: log_slot_def split: option.split dest: find_Some_sat)

lemma log_append_eq:
  assumes "log_slot (l_lh (the_log s)) bno < LOGSIZE" and "b_blockno (bufs s b) = bno"
  shows "log_append b s = Done () (upd_buf b (\<lambda>x. x\<lparr>b_flags := b_flags x OR B_DIRTY\<rparr>) (set_lh (log_add bno) s))"
proof -
  have "set_lh (\<lambda>h. h\<lparr>lh_n := lh_n h + 1\<rparr>) (set_lh (\<lambda>h. h\<lparr>lh_block := (lh_block h)(i := bno)\<rparr>) s) = set_lh (log_add bno) s"
    if "i = log_slot (l_lh (the_log s)) bno" "int i = lh_n (l_lh (the_log s))" for i
    using that by (simp add: set_lh_def upd_log_def log_add_def Let_def)
  moreover have "set_lh (\<lambda>h. h\<lparr>lh_block := (lh_block h)(i := bno)\<rparr>) s = set_lh (log_add bno) s"
    if "i = log_slot (l_lh (the_log s)) bno" "int i \<noteq> lh_n (l_lh (the_log s))" for i
    using that by (simp add: set_lh_def upd_log_def log_add_def Let_def)
  ultimately show ?thesis using assms
    by (simp add: log_append_def Let_def kthen_def kbind_def kwhen_def)
qed

lemma log_check_eq:
  "lh_n (l_lh (the_log s)) < int LOGSIZE \<Longrightarrow> lh_n (l_lh (the_log s)) < l_size (the_log s) - 1 \<Longrightarrow>
    1 \<le> l_outstanding (the_log s) \<Longrightarrow> log_check s = Done () s"
  by (simp add: log_check_def)

lemma log_write_eq:
  assumes "lh_n (l_lh (the_log s)) < int LOGSIZE" "lh_n (l_lh (the_log s)) < l_size (the_log s) - 1"
    and "1 \<le> l_outstanding (the_log s)" and "b_blockno (bufs s b) = bno"
  shows "log_write b s = Done () (upd_buf b (\<lambda>x. x\<lparr>b_flags := b_flags x OR B_DIRTY\<rparr>) (set_lh (log_add bno) s))"
proof -
  have "log_slot (l_lh (the_log s)) bno < LOGSIZE" using log_slot_le [of "l_lh (the_log s)" bno] assms(1) by (simp add: LOGSIZE_def MAXOPBLOCKS_def)
  then show ?thesis unfolding log_write_def
    by (simp add: kthen_Done [of log_check, OF log_check_eq [OF assms(1-3)]] log_append_eq assms(4))
qed

lemma head_ok_add:
  assumes "head_ok l sz h" and "lh_n h < l_size l - 1" and "bno < sz" and "bno \<notin> log_area l"
  shows "head_ok l sz (log_add bno h)" "lh_block (log_add bno h) ` {..<nat (lh_n (log_add bno h))} =
    insert bno (lh_block h ` {..<nat (lh_n h)})"
proof -
  have n: "0 \<le> lh_n h" using assms by (simp add: head_ok_def)
  then have "head_ok l sz (log_add bno h) \<and> lh_block (log_add bno h) ` {..<nat (lh_n (log_add bno h))} =
    insert bno (lh_block h ` {..<nat (lh_n h)})"
  proof (cases rule: log_slot_cases [of h bno])
    case (absorb i)
    then have "bno \<in> lh_block h ` {..<nat (lh_n h)}" by (intro image_eqI [of _ _ i]) auto
    then show ?thesis using assms(1) absorb(4) by (auto simp: insert_absorb)
  next
    case new
    have m: "nat (lh_n h + 1) = Suc (nat (lh_n h))" using n by simp
    have inj: "inj_on ((lh_block h)(nat (lh_n h) := bno)) {..<Suc (nat (lh_n h))}"
      using assms(1) new(2) by (auto simp: head_ok_def lessThan_Suc inj_on_def)
    show ?thesis unfolding new(3)
      using assms inj n by (auto simp: head_ok_def m less_Suc_eq lessThan_Suc)
  qed
  then show "head_ok l sz (log_add bno h)" "lh_block (log_add bno h) ` {..<nat (lh_n (log_add bno h))} =
    insert bno (lh_block h ` {..<nat (lh_n h)})" by blast+
qed

lemma held_range: "bc_inv s \<Longrightarrow> held s b bno \<Longrightarrow> bno < disksize s"
  using bc_inv_ok [of s b] by (auto simp: held_def cached_def buf_ok_def)

section \<open>Properties\<close>

text \<open>
  A state for the witnesses: a disk of 1000 zeroed blocks, the log in blocks 2 to 31, and a
  transaction that has changed block 40, whose only buffer in use is number 0.
\<close>

definition demo_buf :: "nat \<Rightarrow> buf" where
  "demo_buf i = \<lparr>b_flags = (if i = 0 then B_VALID OR B_DIRTY else 0),
     b_dev = (if i = 0 then ROOTDEV else 0), b_blockno = 40, b_lock = initsleeplock, b_refcnt = 0,
     b_prev = (if i = 0 then HEAD else i - 1), b_next = (if i = HEAD then 0 else i + 1),
     b_data = replicate BSIZE (if i = 0 then 7 else 0)\<rparr>"

definition demo_log :: klogdata where
  "demo_log = \<lparr>l_start = 2, l_size = 30, l_outstanding = 0, l_committing = True, l_dev = ROOTDEV,
     l_lh = \<lparr>lh_n = 1, lh_block = (\<lambda>i. 40)\<rparr>\<rparr>"

definition demo :: klog where
  "demo = \<lparr>ptable = (\<lambda>_. proc_zero), nextpid = 1, initproc = None, cpu_proc = Some 0,
     disk = (\<lambda>_. replicate BSIZE 0), disksize = 1000, dtrace = [], bufs = demo_buf, the_log = demo_log\<rparr>"

lemma demo_ring: "ring (nexts demo) (prevs demo) [0..<NBUF]"
  by (simp add: ring_def nexts_def prevs_def demo_def demo_buf_def upt_conv_Cons)

lemma demo_bc: "bc_inv demo" "lockedblks demo = {}" "dirtied demo = {40}"
proof -
  have c: "cached demo i x \<longleftrightarrow> i = 0 \<and> x = 40" for i x
    by (auto simp: cached_def demo_def demo_buf_def ROOTDEV_def)
  have l: "locked demo i = False" for i by (simp add: locked_def demo_def demo_buf_def initsleeplock_def)
  have d: "dirty demo i \<longleftrightarrow> i = 0" for i by (simp add: dirty_def demo_def demo_buf_def)
  have "buf_ok demo i" for i
    unfolding buf_ok_def l d by (simp add: demo_def demo_buf_def ROOTDEV_def word_less_nat_alt)
  moreover have "\<exists>xs. ring (nexts demo) (prevs demo) xs \<and> set xs = {..<NBUF}"
    using demo_ring by (intro exI [of _ "[0..<NBUF]"]) (simp add: atLeast0LessThan)
  ultimately show "bc_inv demo" unfolding bc_inv_def c by (simp add: demo_def)
  show "lockedblks demo = {}" "dirtied demo = {40}" by (auto simp: lockedblks_def dirtied_def c l d)
qed

lemma demo_ready: "commit_ready demo" "lh_n (disk_head (the_log demo) (disk demo)) = 0"
proof -
  have ar: "log_area demo_log = {x. 2 \<le> unat x \<and> unat x < 32}"
    by (simp add: log_area_def demo_log_def)
  have sel: "the_log demo = demo_log" "disksize demo = 1000" by (simp_all add: demo_def)
  show "commit_ready demo" unfolding commit_ready_def sel demo_bc(3)
    by (intro conjI demo_bc)
      (simp_all add: entries_def head_ok_def log_ok_def ar, simp_all add: demo_log_def word_less_nat_alt lessThan_Suc)
  show "lh_n (disk_head (the_log demo) (disk demo)) = 0"
    by (simp add: disk_head_def demo_def head_n_def get32_def)
qed

lemma commit_empty: "lh_n (l_lh (the_log s)) \<le> 0 \<Longrightarrow> commit s = Done () s"
  by (simp add: commit_def kwhen_def)

lemma commit_ready_clean:
  assumes "commit_ready s" and "y \<notin> entries (the_log s)"
  shows "cview s y = disk s y"
  using assms bc.clean_law by (auto simp: commit_ready_def)

lemma commit_disk_ok:
  assumes "commit_ready s" and "lh_n (disk_head (the_log s) (disk s)) = 0"
  shows "disk_ok (the_log s) (disksize s) (disk s)"
  using assms bc_inv_disk [of s] unfolding disk_ok_def commit_ready_def head_ok_def log_ok_def by simp

text \<open>
  C1: commit() is atomic with respect to crashes. From a state whose modified blocks are
  exactly the logged ones and whose on-disk header is empty, commit() returns with every
  block outside the log area at its new contents; and if the machine stops after any number
  \<open>k\<close> of commit's block writes and restarts, recover\_from\_log() returns with all of those
  blocks at their old contents (when the header write was not reached) or all of them at
  their new contents.
\<close>

theorem commit_crash_safe:
  assumes r: "commit_ready s" and d0: "lh_n (disk_head (the_log s) (disk s)) = 0"
  shows "\<exists>t. commit s = Done () t \<and> dirtied t = {} \<and> cview t = disk t \<and> lh_n (l_lh (the_log t)) = 0 \<and>
    (\<forall>x. x \<notin> log_area (the_log s) \<longrightarrow> disk t x = cview s x) \<and>
    (\<forall>k s'. boots s (crash_disk s t k) s' \<longrightarrow>
      (\<exists>t'. recover_from_log s' = Done () t' \<and>
        (\<forall>x. x \<notin> log_area (the_log s) \<longrightarrow>
           disk t' x = (if nat (lh_n (l_lh (the_log s))) < k then cview s x else disk s x))))"
proof (cases "0 < lh_n (l_lh (the_log s))")
  case True
  let ?W = "commit_writes (the_log s) (cview s)"
  have inv: "bc_inv s" and ok: "log_ok (the_log s) (disksize s)" "head_ok (the_log s) (disksize s) (l_lh (the_log s))"
    using r by (auto simp: commit_ready_def)
  note crash = crash_commit [OF ok commit_disk_ok [OF r d0] d0 _ commit_ready_clean [OF r]]
  have all: "old_or_new (the_log s) (disksize s) (disk s) (cview s) (nat (lh_n (l_lh (the_log s))) < k)
      (apply_writes (take k ?W) (disk s))" for k
    by (rule crash) (use length_cview [OF inv] in simp)
  obtain t where t: "commit s = Done () t" and look: "bc.looks t (apply_writes ?W (cview s)) (apply_writes ?W (disk s))
      (dtrace s @ ?W) {} {} (brest (set_lh (\<lambda>h. h\<lparr>lh_n := 0\<rparr>) s))"
    using wp_commit [OF r True, of "\<lambda>_ t. bc.looks t (apply_writes ?W (cview s)) (apply_writes ?W (disk s))
      (dtrace s @ ?W) {} {} (brest (set_lh (\<lambda>h. h\<lparr>lh_n := 0\<rparr>) s))"] by (auto simp: wp_iff Let_def)
  have cd: "crash_disk s t k = apply_writes (take k ?W) (disk s)" for k
    using look by (simp add: crash_disk_def bc.looks_def)
  have v: "cview t = disk t" using bc.clean [OF look] look by (auto simp: bc.looks_def)
  have l0: "lh_n (l_lh (the_log t)) = 0" using looks_log [OF look] by (simp add: set_lh_def)
  have "disk t x = cview s x" if "x \<notin> log_area (the_log s)" for x
  proof -
    have "?W = take (length ?W) ?W" "nat (lh_n (l_lh (the_log s))) < length ?W"
      by (simp_all add: commit_writes_def Let_def log_writes_def)
    then have "old_or_new (the_log s) (disksize s) (disk s) (cview s) True (disk t)"
      using all [of "length ?W"] look by (simp add: bc.looks_def)
    moreover have "lh_n (disk_head (the_log s) (disk t)) = 0"
      using look head_roundtrip(1) [of "put_head (l_lh (the_log s)) (cview s (l_start (the_log s)))" "(l_lh (the_log s))\<lparr>lh_n := 0\<rparr>"]
        length_put_head [OF length_cview [OF inv]] card_entries(3) [OF ok]
      by (simp add: bc.looks_def disk_head_def commit_writes_def Let_def)
    ultimately show ?thesis using recover_empty that unfolding old_or_new_def by metis
  qed
  moreover have "boots s (crash_disk s t k) s' \<longrightarrow> (\<exists>t'. recover_from_log s' = Done () t' \<and>
      (\<forall>x. x \<notin> log_area (the_log s) \<longrightarrow>
         disk t' x = (if nat (lh_n (l_lh (the_log s))) < k then cview s x else disk s x)))" for k s'
    unfolding cd using recover_after_boot [OF _ all] by blast
  moreover have "dirtied t = {}" using look by (simp add: bc.looks_def)
  ultimately show ?thesis using t v l0 by blast
next
  case False
  then have n0: "nat (lh_n (l_lh (the_log s))) = 0" by simp
  have inv: "bc_inv s" using r by (simp add: commit_ready_def)
  have e: "entries (the_log s) = {}" using n0 by (simp add: entries_def)
  have cv: "cview s = disk s" using commit_ready_clean [OF r] e by auto
  have ok: "disk_ok (the_log s) (disksize s) (disk s)" by (rule commit_disk_ok [OF r d0])
  have old: "old_or_new (the_log s) (disksize s) (disk s) (cview s) b (disk s)" for b
    unfolding old_or_new_def cv using ok recover_empty [OF ok d0] by simp
  have cd: "crash_disk s s k = disk s" for k by (simp add: crash_disk_def)
  have "commit s = Done () s" "dirtied s = {}" "lh_n (l_lh (the_log s)) = 0"
    using commit_empty [of s] False r e by (auto simp: commit_ready_def head_ok_def)
  then show ?thesis using recover_after_boot [OF _ old] cv cd by (intro exI [of _ s]) metis
qed

theorem commit_crash_safe_witness:
  "\<exists>t. commit demo = Done () t \<and> disk t 40 = replicate 512 7 \<and> dirtied t = {}"
proof -
  have "40 \<notin> log_area (the_log demo)" by (simp add: demo_def demo_log_def log_area_def)
  moreover have "cview demo 40 = replicate 512 7"
    using cview_cached [OF demo_bc(1), of 0 40] by (simp add: cached_def demo_def demo_buf_def)
  ultimately show ?thesis using commit_crash_safe [OF demo_ready] by auto
qed

text \<open>
  C2: Recovery can crash too. From a restart on a disk with a well-formed log header,
  recover\_from\_log() returns with the header cleared; and if the machine stops after any
  number of recovery's own block writes and recovers again, every block outside the log area
  ends up with the same contents as if the first recovery had finished.
\<close>

theorem recover_crash_safe:
  assumes inv: "bc_inv s" "lockedblks s = {}" "dirtied s = {}"
    and ok: "disk_ok (the_log s) (disksize s) (disk s)"
  shows "\<exists>t. recover_from_log s = Done () t \<and> lh_n (disk_head (the_log s) (disk t)) = 0 \<and>
    (\<forall>k s'. boots s (crash_disk s t k) s' \<longrightarrow>
      (\<exists>t'. recover_from_log s' = Done () t' \<and>
        (\<forall>x. x \<notin> log_area (the_log s) \<longrightarrow> disk t' x = disk t x)))"
proof -
  let ?l = "the_log s" let ?W = "recover_writes ?l (disk s)"
  have "bc.looks s (cview s) (disk s) (dtrace s) {} {} (brest s)" using inv by (simp add: bc.looks_def)
  then have "wp recover_from_log (\<lambda>_ t. disk t = apply_writes ?W (disk s) \<and> dtrace t = dtrace s @ ?W) s"
    by (rule wp_recover_from_log [OF _ refl ok]) (simp add: bc.looks_def)
  then obtain t where t: "recover_from_log s = Done () t" "disk t = apply_writes ?W (disk s)"
    "dtrace t = dtrace s @ ?W" by (auto simp: wp_iff)
  have cd: "crash_disk s t k = apply_writes (take k ?W) (disk s)" for k
    using t(3) by (simp add: crash_disk_def)
  have "disk t (l_start ?l) = put_head ((disk_head ?l (disk s))\<lparr>lh_n := 0\<rparr>) (disk s (l_start ?l))"
    using t(2) by (simp add: recover_writes_def)
  then have "lh_n (disk_head ?l (disk t)) = 0"
    using head_roundtrip(1) [OF bc_inv_disk [OF inv(1)], of "(disk_head ?l (disk s))\<lparr>lh_n := 0\<rparr>"]
    by (simp add: disk_head_def)
  moreover have "boots s (crash_disk s t k) s' \<longrightarrow> (\<exists>t'. recover_from_log s' = Done () t' \<and>
      (\<forall>x. x \<notin> log_area ?l \<longrightarrow> disk t' x = disk t x))" for k s'
    unfolding cd t(2) using recover_after_boot [OF _ crash_recover [OF ok]] by simp
  ultimately show ?thesis using t(1) by blast
qed

lemma demo_boots:
  "let s = demo\<lparr>bufs := (demo_buf(0 := (demo_buf 0)\<lparr>b_flags := 0, b_dev := 0\<rparr>))\<rparr> in
   bc_inv s \<and> lockedblks s = {} \<and> dirtied s = {} \<and> disk_ok (the_log s) (disksize s) (disk s)"
proof -
  let ?s = "demo\<lparr>bufs := (demo_buf(0 := (demo_buf 0)\<lparr>b_flags := 0, b_dev := 0\<rparr>))\<rparr>"
  have c: "cached ?s i x = False" for i x
    by (auto simp: cached_def demo_def demo_buf_def ROOTDEV_def)
  have l: "locked ?s i = False" for i by (simp add: locked_def demo_def demo_buf_def initsleeplock_def)
  have "buf_ok ?s i" for i
    unfolding buf_ok_def l by (simp add: demo_def demo_buf_def ROOTDEV_def)
  moreover have "nexts ?s = nexts demo" "prevs ?s = prevs demo"
    by (auto simp: nexts_def prevs_def demo_def)
  then have "\<exists>xs. ring (nexts ?s) (prevs ?s) xs \<and> set xs = {..<NBUF}"
    using demo_ring by (intro exI [of _ "[0..<NBUF]"]) (simp add: atLeast0LessThan)
  ultimately have inv: "bc_inv ?s" unfolding bc_inv_def c by (simp add: demo_def)
  have "disk_ok (the_log ?s) (disksize ?s) (disk ?s)"
    using demo_ready commit_disk_ok by simp
  with inv show ?thesis by (simp add: lockedblks_def dirtied_def c)
qed

theorem recover_crash_safe_witness:
  "\<exists>t. recover_from_log (demo\<lparr>bufs := (demo_buf(0 := (demo_buf 0)\<lparr>b_flags := 0, b_dev := 0\<rparr>))\<rparr>) = Done () t \<and>
     lh_n (disk_head demo_log (disk t)) = 0"
  using recover_crash_safe [of "demo\<lparr>bufs := (demo_buf(0 := (demo_buf 0)\<lparr>b_flags := 0, b_dev := 0\<rparr>))\<rparr>"]
    demo_boots by (auto simp: Let_def demo_def)

lemma log_write_law:
  assumes i: "log_inv s" and h: "held s b bno" and a: "bno \<notin> log_area (the_log s)"
    and r: "lh_n (l_lh (the_log s)) < l_size (the_log s) - 1" and o: "1 \<le> l_outstanding (the_log s)"
  shows "\<exists>t. log_write b s = Done () t \<and> log_inv t \<and> held t b bno \<and> lockedblks t = lockedblks s \<and>
    dirtied t = insert bno (dirtied s) \<and> cview t = cview s \<and> disk t = disk s \<and> dtrace t = dtrace s \<and>
    lh_n (l_lh (the_log t)) = lh_n (l_lh (the_log s)) + (if bno \<in> entries (the_log s) then 0 else 1)"
proof -
  let ?l = "the_log s" let ?h = "l_lh ?l" let ?s = "set_lh (log_add bno) s"
  define t where "t = upd_buf b (\<lambda>x. x\<lparr>b_flags := b_flags x OR B_DIRTY\<rparr>) ?s"
  have inv: "bc_inv s" and d: "dirtied s = entries ?l" and ok: "log_ok ?l (disksize s)" "head_ok ?l (disksize s) ?h"
    using i by (auto simp: log_inv_def)
  have inv': "bc_inv ?s" and h': "held ?s b bno" using inv h by (simp_all add: set_lh_def)
  have n: "0 \<le> lh_n ?h" "lh_n ?h < int LOGSIZE" using ok r by (auto simp: head_ok_def log_ok_def)
  have bn: "b_blockno (bufs s b) = bno" using h by (simp add: held_def cached_def)
  have run: "log_write b s = Done () t" unfolding t_def by (rule log_write_eq [OF n(2) r o bn])
  have lt: "the_log t = ?l\<lparr>l_lh := log_add bno ?h\<rparr>" "disksize t = disksize s" "disk t = disk s" "dtrace t = dtrace s"
    by (simp_all add: t_def set_lh_def upd_buf_def)
  note dh = dirty_held [OF inv' h', folded t_def]
  note hd = head_ok_add [OF ok(2) r held_range [OF inv h] a]
  have cs: "cview ?s = cview s" "dirtied ?s = dirtied s" "lockedblks ?s = lockedblks s" by (simp_all add: set_lh_def)
  have li: "log_inv t" unfolding log_inv_def lt
    using dh(1,3) hd ok(1) d by (simp add: cs, simp add: entries_def)
  have "lh_n (log_add bno ?h) = lh_n ?h + (if bno \<in> entries ?l then 0 else 1)"
    using n(1)
  proof (cases rule: log_slot_cases [of ?h bno])
    case (absorb j)
    then have "bno \<in> entries ?l" unfolding entries_def by (intro image_eqI [of _ _ j]) auto
    with absorb show ?thesis by simp
  next
    case new
    then show ?thesis by (simp add: entries_def)
  qed
  with run li dh h' lt cs show ?thesis by (intro exI [of _ t]) simp
qed

text \<open>
  C4: log\_write() puts a modified block into the transaction. For a held buffer of a block
  outside the log area, inside an operation and with room in the log, it returns, the block
  is pinned in the cache and listed in the header exactly once (a block that is already
  listed does not take a second entry), the logged blocks stay exactly the modified ones, and
  neither the disk nor the contents of any block change.
\<close>

theorem log_write_adds:
  assumes i: "log_inv s" and h: "held s b bno" and a: "bno \<notin> log_area (the_log s)"
    and r: "lh_n (l_lh (the_log s)) < l_size (the_log s) - 1" and o: "1 \<le> l_outstanding (the_log s)"
  shows "\<exists>t. log_write b s = Done () t \<and> log_inv t \<and> held t b bno \<and> lockedblks t = lockedblks s \<and>
    dirtied t = insert bno (dirtied s) \<and> cview t = cview s \<and> disk t = disk s \<and> dtrace t = dtrace s \<and>
    lh_n (l_lh (the_log t)) = lh_n (l_lh (the_log s)) + (if bno \<in> entries (the_log s) then 0 else 1)"
  by (rule log_write_law [OF assms])

theorem log_write_adds_witness:
  "\<exists>s b t. bread ROOTDEV 50 (upd_log (\<lambda>l. l\<lparr>l_outstanding := 1\<rparr>) demo) = Done b s \<and>
     log_write b s = Done () t \<and> dirtied t = {40, 50} \<and> lh_n (l_lh (the_log t)) = 2"
proof -
  let ?s = "upd_log (\<lambda>l. l\<lparr>l_outstanding := 1\<rparr>) demo"
  have d: "commit_ready demo" by (rule demo_ready)
  have "bc_inv ?s" "lockedblks ?s = {}" "dirtied ?s = {40}" "brange (brest ?s) 50"
    using demo_bc by (simp_all add: word_less_nat_alt) (simp add: demo_def)
  then obtain b s where s: "bread ROOTDEV 50 ?s = Done b s" "bc_inv s" "held s b 50" "dirtied s = {40}" "brest s = brest ?s"
    using bread_law [of ?s 50] by (auto simp: wp_iff)
  have lg: "the_log s = demo_log\<lparr>l_outstanding := 1\<rparr>" "disksize s = disksize demo"
    using brest_log [OF s(5)] brest_size [OF s(5)] by (simp_all add: demo_def)
  have e: "entries (demo_log\<lparr>l_outstanding := 1\<rparr>) = {40}" "log_area (demo_log\<lparr>l_outstanding := 1\<rparr>) = log_area demo_log"
    by (simp_all add: entries_def demo_log_def log_area_def lessThan_Suc)
  have "log_inv s" unfolding log_inv_def lg
    using d s(2,4) e by (simp add: commit_ready_def log_ok_def head_ok_def) (simp add: demo_def demo_log_def)
  moreover have "50 \<notin> log_area (the_log s)" unfolding lg by (simp add: demo_log_def log_area_def)
  ultimately show ?thesis using log_write_adds [OF _ s(3)] s(1,4) e
    by (auto simp: lg demo_log_def)
qed

end
