(* ===== verification/LogOps.thy ===== *)
theory LogOps
  imports LogSpec
begin

text \<open>
  Several processes inside file-system operations at once: begin\_op(), log\_write() and
  end\_op() of log.c interleaved in any order. The reservation that begin\_op() makes keeps
  the transaction within the log, a commit never runs while an operation is in progress, and
  no process sleeps on the log while its operation could start.
\<close>

section \<open>What log.c leaves alone\<close>







section \<open>Interleaved operations\<close>

text \<open>
  \<open>op_blocks\<close> says which processes are between begin\_op() and end\_op() and which blocks each has
  logged; \<open>op_buf\<close> says which of them are inside log\_write(), past its tests but not yet under
  log.lock, and with which buffer. An operation logs at most MAXOPBLOCKS different blocks: this is what param.h
  promises (``max \# of blocks any FS op writes''). A step \<open>elsewhere\<close> is whatever the rest
  of the kernel does, but to change the log or to put a process to sleep in begin\_op().
\<close>

record logsys = klog +
  op_blocks :: "nat \<Rightarrow> uint set option"
  op_buf :: "nat \<Rightarrow> nat option"






definition can_begin :: "klogdata \<Rightarrow> bool" where
  "can_begin l \<longleftrightarrow> \<not> l_committing l \<and> lh_n (l_lh l) + (l_outstanding l + 1) * int MAXOPBLOCKS \<le> int LOGSIZE"






lemma begin_op_cases:
  assumes "cpu_proc s = Some i"
  shows "can_begin (the_log s) \<Longrightarrow>
      begin_op s = Done () (upd_log (\<lambda>l. l\<lparr>l_outstanding := l_outstanding l + 1\<rparr>) s)"
    "\<not> can_begin (the_log s) \<Longrightarrow>
      begin_op s = Block ChanLog (upd_proc i (\<lambda>q. q\<lparr>p_chan := Some ChanLog, p_state := SLEEPING\<rparr>) s)"
  using assms by (auto simp: begin_op_def can_begin_def sleep_def myproc_def)






lemma entries_add:
  assumes "0 \<le> lh_n (l_lh l)"
  shows "entries (l\<lparr>l_lh := log_add bno (l_lh l)\<rparr>) = insert bno (entries l)"
    "lh_n (log_add bno (l_lh l)) = lh_n (l_lh l) + (if bno \<in> entries l then 0 else 1)"
proof -
  have "entries (l\<lparr>l_lh := log_add bno (l_lh l)\<rparr>) = insert bno (entries l) \<and>
    lh_n (log_add bno (l_lh l)) = lh_n (l_lh l) + (if bno \<in> entries l then 0 else 1)"
    using assms
  proof (cases rule: log_slot_cases [of _ bno])
    case (absorb i)
    then have "bno \<in> entries l" unfolding entries_def by (intro image_eqI [of _ _ i]) auto
    then show ?thesis unfolding absorb(4) by (simp add: insert_absorb)
  next
    case new
    then have "bno \<notin> entries l" by (simp add: entries_def)
    moreover have "nat (lh_n (l_lh l) + 1) = Suc (nat (lh_n (l_lh l)))" using assms by simp
    moreover have "entries (l\<lparr>l_lh := log_add bno (l_lh l)\<rparr>) = insert bno (entries l)"
      unfolding new(3) entries_def using calculation(2) by (auto simp: lessThan_Suc)
    ultimately show ?thesis unfolding new(3) by simp
  qed
  then show "entries (l\<lparr>l_lh := log_add bno (l_lh l)\<rparr>) = insert bno (entries l)"
    "lh_n (log_add bno (l_lh l)) = lh_n (l_lh l) + (if bno \<in> entries l then 0 else 1)" by blast+
qed









definition log_start_state :: logsys where
  "log_start_state = \<lparr>ptable = (\<lambda>i. proc_zero\<lparr>p_state := RUNNABLE\<rparr>), nextpid = 1, initproc = None,
     cpu_proc = None, disk = (\<lambda>_. []), disksize = 1000, dtrace = [],
     bufs = (\<lambda>i. (demo_buf i)\<lparr>b_blockno := of_nat i\<rparr>),
     the_log = demo_log\<lparr>l_size := 31, l_lh := \<lparr>lh_n = 0, lh_block = (\<lambda>_. 0)\<rparr>, l_committing := False\<rparr>,
     op_blocks = (\<lambda>_. None), op_buf = (\<lambda>_. None)\<rparr>"


section \<open>The last block of the reservation\<close>

definition as_proc :: "nat \<Rightarrow> ('z kproc_scheme, 'a) prog \<Rightarrow> ('z kproc_scheme, 'a) prog" where
  "as_proc i m = kthen (kmodify (\<lambda>s. s\<lparr>cpu_proc := Some i\<rparr>)) m"

lemma as_proc_eq [simp]: "as_proc i m s = m (s\<lparr>cpu_proc := Some i\<rparr>)"
  by (simp add: as_proc_def)

text \<open>Logging buffers of new, different blocks adds as many entries.\<close>

lemma fill_log:
  assumes "0 \<le> lh_n (l_lh (the_log s))" "1 \<le> l_outstanding (the_log s)"
    and "lh_n (l_lh (the_log s)) + int (length bs) \<le> int LOGSIZE - 1" "lh_n (l_lh (the_log s)) + int (length bs) \<le> l_size (the_log s) - 1"
    and "distinct (map (\<lambda>b. b_blockno (bufs s b)) bs)" "entries (the_log s) \<inter> (\<lambda>b. b_blockno (bufs s b)) ` set bs = {}"
  shows "\<exists>t. kfor bs log_write s = Done () t \<and> (\<forall>b. b_blockno (bufs t b) = b_blockno (bufs s b)) \<and>
    lh_n (l_lh (the_log t)) = lh_n (l_lh (the_log s)) + int (length bs) \<and> l_size (the_log t) = l_size (the_log s) \<and>
    l_outstanding (the_log t) = l_outstanding (the_log s) \<and>
    entries (the_log t) = entries (the_log s) \<union> (\<lambda>b. b_blockno (bufs s b)) ` set bs"
  using assms
proof (induction bs arbitrary: s)
  case (Cons b bs)
  let ?bno = "b_blockno (bufs s b)"
  obtain u where w: "log_write b s = Done () u" and lg: "the_log u = (the_log s)\<lparr>l_lh := log_add ?bno (l_lh (the_log s))\<rparr>"
    and bn: "\<And>c. b_blockno (bufs u c) = b_blockno (bufs s c)"
    using log_write_eq [of s b ?bno] Cons.prems(1-4) by (auto simp: set_lh_def upd_log_def upd_buf_def)
  note e = entries_add [OF Cons.prems(1), of ?bno, folded lg]
  have n: "lh_n (l_lh (the_log u)) = lh_n (l_lh (the_log s)) + 1" using e(2) Cons.prems(6) by (auto simp: lg)
  have q: "l_size (the_log u) = l_size (the_log s)" "l_outstanding (the_log u) = l_outstanding (the_log s)" by (simp_all add: lg)
  have "\<exists>t. kfor bs log_write u = Done () t \<and> (\<forall>b. b_blockno (bufs t b) = b_blockno (bufs u b)) \<and>
    lh_n (l_lh (the_log t)) = lh_n (l_lh (the_log u)) + int (length bs) \<and> l_size (the_log t) = l_size (the_log u) \<and>
    l_outstanding (the_log t) = l_outstanding (the_log u) \<and>
    entries (the_log t) = entries (the_log u) \<union> (\<lambda>b. b_blockno (bufs u b)) ` set bs"
    by (rule Cons.IH) (use Cons.prems in \<open>auto simp: n bn e(1) q\<close>)
  then show ?case by (auto simp: kthen_Done [of "log_write b", OF w] n bn e(1) q)
qed simp

text \<open>
  C9: log\_write() can bring the kernel down before the reservation of begin\_op() is used up. With the log size
  that mkfs writes into the superblock (nlog = LOGSIZE blocks, one of which is the header), begin\_op() lets
  three operations in on an empty log. When two of them have logged their MAXOPBLOCKS different blocks and the third
  all but one, each call has returned, and the next call of log\_write() panics, whatever
  its block, even one that is in the log already.
\<close>

theorem log_write_full_panics:
  assumes "lh_n (l_lh (the_log s)) = 0" "l_outstanding (the_log s) = 0" "\<not> l_committing (the_log s)" "l_size (the_log s) = int LOGSIZE"
    and "length xs = MAXOPBLOCKS" "length ys = MAXOPBLOCKS" "length zs = MAXOPBLOCKS - 1"
    and "distinct (map (\<lambda>b. b_blockno (bufs s b)) (xs @ ys @ zs))"
  shows "\<exists>t. kthen (as_proc i begin_op) (kthen (as_proc j begin_op) (kthen (as_proc k begin_op)
      (kthen (as_proc i (kfor xs log_write)) (kthen (as_proc j (kfor ys log_write)) (as_proc k (kfor zs log_write)))))) s = Done () t \<and>
    (\<forall>b. log_write b t = Panic ''too big a transaction'')"
proof -
  define add where "add = (\<lambda>i. \<lambda>s :: 'a klog_scheme. upd_log (\<lambda>l. l\<lparr>l_outstanding := l_outstanding l + 1\<rparr>) (s\<lparr>cpu_proc := Some i\<rparr>))"
  have b: "as_proc i begin_op u = Done () (add i u)" if "can_begin (the_log u)" for i u
    using begin_op_cases(1) [of "u\<lparr>cpu_proc := Some i\<rparr>" i] that by (simp add: add_def)
  have lg: "the_log (add i u) = (the_log u)\<lparr>l_outstanding := l_outstanding (the_log u) + 1\<rparr>" "bufs (add i u) = bufs u" for i u
    by (simp_all add: add_def upd_log_def)
  let ?s1 = "add i s" and ?s2 = "add j (add i s)" and ?s3 = "add k (add j (add i s))"
  have begins: "as_proc i begin_op s = Done () ?s1" "as_proc j begin_op ?s1 = Done () ?s2" "as_proc k begin_op ?s2 = Done () ?s3"
    by (intro b; simp add: lg can_begin_def assms(1-3) LOGSIZE_def)+
  have em: "entries (the_log ?s3) = {}" by (simp add: lg entries_def assms(1))
  have d: "distinct (map (\<lambda>b. b_blockno (bufs s b)) xs)" "distinct (map (\<lambda>b. b_blockno (bufs s b)) ys)" "distinct (map (\<lambda>b. b_blockno (bufs s b)) zs)"
    "(\<lambda>b. b_blockno (bufs s b)) ` set xs \<inter> (\<lambda>b. b_blockno (bufs s b)) ` set ys = {}"
    "((\<lambda>b. b_blockno (bufs s b)) ` set xs \<union> (\<lambda>b. b_blockno (bufs s b)) ` set ys) \<inter> (\<lambda>b. b_blockno (bufs s b)) ` set zs = {}"
    using assms(8) by auto
  note sz = assms(4-7) MAXOPBLOCKS_def LOGSIZE_def
  let ?e = "\<lambda>bs. (\<lambda>b. b_blockno (bufs s b)) ` set bs"
  obtain t1 where t1: "kfor xs log_write (?s3\<lparr>cpu_proc := Some i\<rparr>) = Done () t1" "\<forall>b. b_blockno (bufs t1 b) = b_blockno (bufs s b)"
    "lh_n (l_lh (the_log t1)) = 10" "l_size (the_log t1) = 30" "l_outstanding (the_log t1) = 3" "entries (the_log t1) = ?e xs"
    using fill_log [of "?s3\<lparr>cpu_proc := Some i\<rparr>" xs] d em by (auto simp: lg assms(1,2) sz)
  obtain t2 where t2: "kfor ys log_write (t1\<lparr>cpu_proc := Some j\<rparr>) = Done () t2" "\<forall>b. b_blockno (bufs t2 b) = b_blockno (bufs s b)"
    "lh_n (l_lh (the_log t2)) = 20" "l_size (the_log t2) = 30" "l_outstanding (the_log t2) = 3" "entries (the_log t2) = ?e xs \<union> ?e ys"
    using fill_log [of "t1\<lparr>cpu_proc := Some j\<rparr>" ys] d t1 by (auto simp: sz)
  obtain t3 where t3: "kfor zs log_write (t2\<lparr>cpu_proc := Some k\<rparr>) = Done () t3" "lh_n (l_lh (the_log t3)) = 29" "l_size (the_log t3) = 30"
    using fill_log [of "t2\<lparr>cpu_proc := Some k\<rparr>" zs] d t2 by (auto simp: sz)
  have "log_write b t3 = Panic ''too big a transaction''" for b
    using t3(2,3) by (simp add: log_write_def log_check_def kthen_def kbind_def)
  then show ?thesis using begins t1(1) t2(1) t3(1) by (simp add: kthen_def kbind_def)
qed

theorem log_write_full_panics_witness:
  "\<exists>t. kthen (as_proc 0 begin_op) (kthen (as_proc 1 begin_op) (kthen (as_proc 2 begin_op)
      (kthen (as_proc 0 (kfor [0..<10] log_write)) (kthen (as_proc 1 (kfor [10..<20] log_write)) (as_proc 2 (kfor [20..<29] log_write))))))
      (upd_log (\<lambda>l. l\<lparr>l_size := 30\<rparr>) log_start_state) = Done () t \<and>
    log_write 29 t = Panic ''too big a transaction''"
proof -
  let ?s = "upd_log (\<lambda>l. l\<lparr>l_size := 30\<rparr>) log_start_state"
  have "b_blockno (bufs ?s b) = of_nat b" for b by (simp add: log_start_state_def upd_log_def)
  moreover have "distinct (map (of_nat :: nat \<Rightarrow> uint) ([0..<10] @ [10..<20] @ [20..<29]))" by code_simp
  ultimately have "distinct (map (\<lambda>b. b_blockno (bufs ?s b)) ([0..<10] @ [10..<20] @ [20..<29]))" by presburger
  moreover have "lh_n (l_lh (the_log ?s)) = 0" "l_outstanding (the_log ?s) = 0" "\<not> l_committing (the_log ?s)" "l_size (the_log ?s) = int LOGSIZE"
    by (simp_all add: log_start_state_def demo_log_def upd_log_def LOGSIZE_def MAXOPBLOCKS_def)
  moreover have "length [0..<10] = MAXOPBLOCKS" "length [10..<20] = MAXOPBLOCKS" "length [20..<29] = MAXOPBLOCKS - 1"
    by (simp_all add: MAXOPBLOCKS_def)
  ultimately show ?thesis
    using log_write_full_panics [of ?s "[0..<10]" "[10..<20]" "[20..<29]" 0 1 2] by blast
qed

end
