(* ===== verification/BioProps.thy ===== *)
theory BioProps
  imports BioSpec
begin

text \<open>
  Properties of the buffer cache of bio.c: binit() establishes the representation invariant,
  reads return and writes change the block they name and no other, and the buffer that bget()
  recycles is the least recently used free one.
\<close>

section \<open>Initialisation\<close>

lemma strip_binit_push:
  "strip (bufs (binit_push i s) j) = strip (if j = i then (bufs s i)\<lparr>b_lock := initsleeplock\<rparr> else bufs s j)"
  by (simp add: binit_push_def Let_def) (simp add: strip_def set_prev_def set_next_def)

lemma links_upd_lock [simp]:
  "nexts (upd_buf i (\<lambda>b. b\<lparr>b_lock := l\<rparr>) s) = nexts s" "prevs (upd_buf i (\<lambda>b. b\<lparr>b_lock := l\<rparr>) s) = prevs s"
  by (auto simp: nexts_def prevs_def)

lemma binit_push_links:
  assumes "i \<noteq> HEAD"
  shows "nexts (binit_push i s) = (nexts s)(i := nexts s HEAD, HEAD := i)"
    "prevs (binit_push i s) = (prevs s)(i := HEAD, nexts s HEAD := i)"
proof -
  have nx: "b_next (bufs t i) = nexts t i" for t :: "'a kbio_scheme" and i by (simp add: nexts_def)
  show "nexts (binit_push i s) = (nexts s)(i := nexts s HEAD, HEAD := i)"
    "prevs (binit_push i s) = (prevs s)(i := HEAD, nexts s HEAD := i)"
    using assms by (simp_all add: binit_push_def Let_def nx)
qed

lemma binit_push_frame: "\<exists>bs. binit_push i s = s\<lparr>bufs := bs\<rparr>"
proof -
  have ex: "\<exists>bs. t = s\<lparr>bufs := bs\<rparr> \<Longrightarrow> \<exists>bs. upd_buf i f t = s\<lparr>bufs := bs\<rparr>" for i f t
    by (auto simp: upd_buf_def)
  show ?thesis unfolding binit_push_def Let_def set_prev_def set_next_def
    by (intro ex exI [of _ "bufs s"]) simp
qed

definition zeroed :: "'z kbio_scheme \<Rightarrow> bool" where
  "zeroed s \<longleftrightarrow> (\<forall>i. b_flags (bufs s i) = 0 \<and> b_dev (bufs s i) = 0 \<and> b_refcnt (bufs s i) = 0 \<and>
     length (b_data (bufs s i)) = BSIZE) \<and> (\<forall>bno. length (disk s bno) = BSIZE)"

lemma binit_loop:
  assumes "zeroed s"
  shows "wp binit (\<lambda>_ t. (\<exists>bs. t = s\<lparr>bufs := bs\<rparr>) \<and> ring (nexts t) (prevs t) (rev [0..<NBUF]) \<and>
    (\<forall>j. strip (bufs t j) = strip (if j < NBUF then (bufs s j)\<lparr>b_lock := initsleeplock\<rparr> else bufs s j))) s"
    (is "wp binit ?Q s")
proof -
  let ?I = "\<lambda>k t. (\<exists>bs. t = s\<lparr>bufs := bs\<rparr>) \<and> ring (nexts t) (prevs t) (rev [0..<k]) \<and>
    (\<forall>j. strip (bufs t j) = strip (if j < k then (bufs s j)\<lparr>b_lock := initsleeplock\<rparr> else bufs s j))"
  let ?s = "set_next HEAD HEAD (set_prev HEAD HEAD s)"
  have "wp (kfor [0..<NBUF] (\<lambda>i. kmodify (binit_push i))) (\<lambda>_. ?I NBUF) ?s"
  proof (rule wp_kfor_upt)
    show "?I 0 ?s" by (auto simp: ring_def set_next_def set_prev_def upd_buf_def nexts_def prevs_def strip_def)
  next
    fix i t assume i: "i < NBUF" and I: "?I i t"
    have "\<exists>bs. binit_push i t = s\<lparr>bufs := bs\<rparr>" using I binit_push_frame [of i t] by fastforce
    moreover have "ring (nexts (binit_push i t)) (prevs (binit_push i t)) (i # rev [0..<i])"
      unfolding binit_push_links [OF less_imp_neq [OF i]] using I i by (intro ring_push) auto
    moreover have "strip (bufs (binit_push i t) j) =
        strip (if j < Suc i then (bufs s j)\<lparr>b_lock := initsleeplock\<rparr> else bufs s j)" for j
    proof (cases "j = i")
      case True
      moreover have "strip (bufs t i) = strip (bufs s i)" using I by auto
      then have "strip ((bufs t i)\<lparr>b_lock := initsleeplock\<rparr>) = strip ((bufs s i)\<lparr>b_lock := initsleeplock\<rparr>)"
        by (simp add: strip_eq_fields)
      ultimately show ?thesis by (simp add: strip_binit_push)
    next
      case False
      then show ?thesis using I by (auto simp: strip_binit_push less_Suc_eq)
    qed
    ultimately show "wp (kmodify (binit_push i)) (\<lambda>_. ?I (Suc i)) t" by simp
  qed simp
  then show ?thesis unfolding binit_def wp_kthen wp_kmodify by simp
qed

lemma binit_all:
  assumes "zeroed s"
  shows "\<exists>t. binit s = Done () t \<and> (\<forall>i. bc_inv (t\<lparr>cpu_proc := Some i\<rparr>)) \<and>
    (\<forall>i bno. cview (t\<lparr>cpu_proc := Some i\<rparr>) bno = disk s bno) \<and> lockedblks t = {} \<and> dirtied t = {}"
proof -
  obtain t where t: "binit s = Done () t" "\<exists>bs. t = s\<lparr>bufs := bs\<rparr>" "ring (nexts t) (prevs t) (rev [0..<NBUF])"
    and st: "\<And>j. strip (bufs t j) = strip (if j < NBUF then (bufs s j)\<lparr>b_lock := initsleeplock\<rparr> else bufs s j)"
    using binit_loop [OF assms] by (auto simp: wp_iff)
  have f: "b_flags (bufs t i) = 0" "b_dev (bufs t i) = 0" "b_refcnt (bufs t i) = 0"
    "length (b_data (bufs t i)) = BSIZE" "\<not> sl_locked (b_lock (bufs t i))" if "i < NBUF" for i
    using st [of i, unfolded strip_eq_fields] that assms by (auto simp: zeroed_def initsleeplock_def)
  have c: "\<not> cached t i x" "cached (t\<lparr>cpu_proc := Some k\<rparr>) = cached t" for i x k
    using f(2) by (auto simp: cached_def ROOTDEV_def fun_eq_iff)
  have disk: "disk t = disk s" "\<And>x. length (disk s x) = BSIZE" using t(2) assms by (auto simp: zeroed_def)
  have "bc_inv (t\<lparr>cpu_proc := Some k\<rparr>)" for k
  proof -
    have "buf_ok (t\<lparr>cpu_proc := Some k\<rparr>) i" if "i < NBUF" for i
      using f [OF that] by (simp add: buf_ok_def locked_def ROOTDEV_def)
    moreover have "ring (nexts (t\<lparr>cpu_proc := Some k\<rparr>)) (prevs (t\<lparr>cpu_proc := Some k\<rparr>)) (rev [0..<NBUF])"
      using t(3) by (simp add: nexts_def prevs_def)
    moreover have "set (rev [0..<NBUF]) = {..<NBUF}" by auto
    ultimately show ?thesis unfolding bc_inv_def c(2) using c(1) disk by auto
  qed
  moreover have "cview (t\<lparr>cpu_proc := Some k\<rparr>) x = disk s x" for k x
    using cview_uncached [of "t\<lparr>cpu_proc := Some k\<rparr>" x] c disk by simp
  ultimately show ?thesis using t(1) c(1) by (auto simp: lockedblks_def dirtied_def)
qed

lemma binit_ready:
  "zeroed s \<Longrightarrow> \<exists>t. binit s = Done () t \<and> (\<forall>i. bc_inv (t\<lparr>cpu_proc := Some i\<rparr>)) \<and> lockedblks t = {} \<and> dirtied t = {}"
  using binit_all by blast

text \<open>
  C7: binit() sets the cache up. Run on the zeroed buffers of a booting kernel it returns
  with all NBUF buffers on the recency list, unlocked and unused, so that the invariant of
  the cache holds for the first process and every block reads as what is on the disk.
\<close>

theorem binit_establishes:
  assumes "zeroed s"
  shows "\<exists>t. binit s = Done () t \<and> (\<forall>i. bc_inv (t\<lparr>cpu_proc := Some i\<rparr>)) \<and>
    (\<forall>i bno. cview (t\<lparr>cpu_proc := Some i\<rparr>) bno = disk s bno) \<and> lockedblks t = {} \<and> dirtied t = {}"
  by (rule binit_all [OF assms])

definition boot_bio :: kbio where
  "boot_bio = \<lparr>ptable = (\<lambda>_. proc_zero), nextpid = 1, initproc = None, cpu_proc = None,
     disk = (\<lambda>n. replicate BSIZE (if n = 5 then 9 else 0)), disksize = 1000, dtrace = [],
     bufs = (\<lambda>_. \<lparr>b_flags = 0, b_dev = 0, b_blockno = 0, b_lock = initsleeplock, b_refcnt = 0,
       b_prev = 0, b_next = 0, b_data = replicate BSIZE 0\<rparr>)\<rparr>"

lemma boot_bio_zeroed: "zeroed boot_bio"
  by (simp add: zeroed_def boot_bio_def)

theorem binit_establishes_witness:
  "\<exists>t. binit boot_bio = Done () t \<and> bc_inv (t\<lparr>cpu_proc := Some 0\<rparr>) \<and>
     cview (t\<lparr>cpu_proc := Some 0\<rparr>) 5 = replicate BSIZE 9"
  using binit_establishes [OF boot_bio_zeroed] by (auto simp: boot_bio_def)

section \<open>Reading and writing\<close>

text \<open>
  C5: A block written through the cache is the block read back. bread(), a store to the
  buffer, bwrite() and brelse() return with the new contents on the disk and in the cache, in
  one disk write, and a later bread() of any block returns a buffer that holds what was last
  written to that block; no other block changes.
\<close>

theorem cache_write_through:
  assumes inv: "bc_inv s" "lockedblks s = {}" "dirtied s = {}"
    and bno: "bno < disksize s" and len: "length x = BSIZE"
  shows "wp (kbind (bread ROOTDEV bno) (\<lambda>b. kthen (set_data b (\<lambda>_. x)) (kthen (bwrite b) (brelse b))))
    (\<lambda>_ t. bc_inv t \<and> disk t = (disk s)(bno := x) \<and> dtrace t = dtrace s @ [(bno, x)] \<and>
       lockedblks t = {} \<and> dirtied t = {} \<and>
       (\<forall>y. y < disksize s \<longrightarrow> wp (bread ROOTDEV y) (\<lambda>b u. held u b y \<and> b_data (bufs u b) = ((disk s)(bno := x)) y) t)) s"
proof -
  have l: "bc.looks s (cview s) (disk s) (dtrace s) {} {} (brest s)" using inv by (simp add: bc.looks_def)
  have cv: "cview s = disk s" using bc.clean [OF l] by auto
  show ?thesis
  proof (rule bc.overwrite [where f = "\<lambda>_. x", OF l])
    fix t assume t: "bc.looks t ((cview s)(bno := x)) ((disk s)(bno := x)) (dtrace s @ [(bno, x)]) ({} - {bno}) {} (brest s)"
    have "wp (bread ROOTDEV y) (\<lambda>b u. held u b y \<and> b_data (bufs u b) = ((disk s)(bno := x)) y) t"
      if "y < disksize s" for y
    proof (rule bc.read_rule [OF t])
      fix b u assume u: "bc.looks u ((cview s)(bno := x)) ((disk s)(bno := x)) (dtrace s @ [(bno, x)]) ({} - {bno}) {y} (brest s)"
        "held u b y"
      then have "bc_inv u" "cview u = (disk s)(bno := x)" using cv by (simp_all add: bc.looks_def)
      then show "held u b y \<and> b_data (bufs u b) = ((disk s)(bno := x)) y"
        using u(2) cview_cached [of u b y] by (simp add: held_def)
    qed (use that in \<open>auto simp: brange_def brest_def NBUF_def\<close>)
    then show "bc_inv t \<and> disk t = (disk s)(bno := x) \<and> dtrace t = dtrace s @ [(bno, x)] \<and>
       lockedblks t = {} \<and> dirtied t = {} \<and>
       (\<forall>y. y < disksize s \<longrightarrow> wp (bread ROOTDEV y) (\<lambda>b u. held u b y \<and> b_data (bufs u b) = ((disk s)(bno := x)) y) t)"
      using t by (simp add: bc.looks_def)
  qed (use bno len in \<open>auto simp: brange_def brest_def NBUF_def\<close>)
qed

theorem cache_write_through_witness:
  "\<exists>s :: kbio. disk s 5 = replicate BSIZE 9 \<and>
    wp (kbind (bread ROOTDEV 5) (\<lambda>b. kthen (set_data b (\<lambda>_. replicate BSIZE 3)) (kthen (bwrite b) (brelse b))))
      (\<lambda>_ t. disk t 5 = replicate BSIZE 3 \<and> disk t 6 = disk s 6) s"
proof -
  obtain t0 where t0: "binit boot_bio = Done () t0" "\<exists>bs. t0 = boot_bio\<lparr>bufs := bs\<rparr>"
    using binit_loop [OF boot_bio_zeroed] by (auto simp: wp_iff)
  let ?s = "t0\<lparr>cpu_proc := Some 0\<rparr>"
  have "\<exists>t. binit boot_bio = Done () t \<and> (\<forall>i. bc_inv (t\<lparr>cpu_proc := Some i\<rparr>)) \<and> lockedblks t = {} \<and> dirtied t = {}"
    by (rule binit_ready [OF boot_bio_zeroed])
  then have s: "bc_inv ?s" "lockedblks ?s = {}" "dirtied ?s = {}"
    using t0(1) by (auto simp: lockedblks_def dirtied_def cached_def locked_def dirty_def)
  have d: "disksize ?s = 1000" "disk ?s 5 = replicate BSIZE 9" using t0(2) by (auto simp: boot_bio_def)
  have "wp (kbind (bread ROOTDEV 5) (\<lambda>b. kthen (set_data b (\<lambda>_. replicate BSIZE 3)) (kthen (bwrite b) (brelse b))))
      (\<lambda>_ t. disk t 5 = replicate BSIZE 3 \<and> disk t 6 = disk ?s 6) ?s"
    by (rule wp_mono [OF cache_write_through [OF s, of 5 "replicate BSIZE 3"]])
      (auto simp: d word_less_nat_alt)
  with d(2) show ?thesis by blast
qed

text \<open>
  C6: bget() recycles the least recently used free buffer. When the block is not cached and
  some buffer is neither locked nor dirty, bget() returns the free buffer that is last on the
  recency list: every buffer behind it is in use.
\<close>

theorem bget_recycles_lru:
  assumes inv: "bc_inv s" and r: "ring (nexts s) (prevs s) xs" "set xs = {..<NBUF}"
    and miss: "\<forall>i. \<not> cached s i bno" and free: "\<exists>i<NBUF. i \<notin> busy s"
  shows "\<exists>b t ys zs. bget ROOTDEV bno s = Done b t \<and> xs = ys @ b # zs \<and> b \<notin> busy s \<and> set zs \<subseteq> busy s"
proof -
  let ?P = "\<lambda>i. b_refcnt (bufs s i) = 0 \<and> b_flags (bufs s i) AND B_DIRTY = 0"
  have P: "?P i \<longleftrightarrow> i \<notin> busy s" if "i < NBUF" for i
    using bc_inv_ok [OF inv that] that by (auto simp: buf_ok_def busy_def dirty_def)
  have v: "bget_victim s = find ?P (rev xs)"
    using ring_find_prev [OF r(1), of "Suc NBUF" ?P] ring_length [OF r]
    by (simp add: bget_victim_def prevs_def)
  obtain b where b: "bget_victim s = Some b" "b < NBUF" "b \<notin> busy s"
    using bget_victim_free [OF inv free] by blast
  then obtain i where i: "i < length (rev xs)" "b = rev xs ! i" "\<forall>j<i. \<not> ?P (rev xs ! j)"
    unfolding v find_Some_iff by blast
  let ?zs = "rev (take i (rev xs))" and ?ys = "rev (drop (Suc i) (rev xs))"
  have "rev xs = take i (rev xs) @ b # drop (Suc i) (rev xs)" using i(1,2) id_take_nth_drop by metis
  then have xs: "xs = ?ys @ b # ?zs" by (metis append.assoc append_Cons append_Nil rev.simps(2) rev_append rev_rev_ident)
  have "set ?zs \<subseteq> busy s"
  proof
    fix x assume "x \<in> set ?zs"
    then obtain j where j: "j < i" "x = rev xs ! j" using i(1) by (auto simp: in_set_conv_nth)
    then have "\<not> ?P x" "x \<in> set xs" using i(1,3) nth_mem [of j "rev xs"] by auto
    then show "x \<in> busy s" using P r(2) by auto
  qed
  moreover have "acquiresleep (buf_lock b) (upd_buf b (\<lambda>x. x\<lparr>b_dev := ROOTDEV, b_blockno := bno, b_flags := 0, b_refcnt := 1\<rparr>) s)
      = Done () (upd_buf b (\<lambda>x. x\<lparr>b_lock := mylock s\<rparr>) (upd_buf b (\<lambda>x. x\<lparr>b_dev := ROOTDEV, b_blockno := bno, b_flags := 0, b_refcnt := 1\<rparr>) s))"
    using acquire_buf [of "upd_buf b (\<lambda>x. x\<lparr>b_dev := ROOTDEV, b_blockno := bno, b_flags := 0, b_refcnt := 1\<rparr>) s" b] b(2,3) inv
    by (simp add: locked_def busy_def bc_inv_def)
  then have "\<exists>t. bget ROOTDEV bno s = Done b t"
    using bget_hit_uncached [OF inv] miss b(1) by (simp add: bget_def kbind_def kthen_def)
  ultimately show ?thesis using xs b(3) by blast
qed

theorem bget_recycles_lru_witness:
  "\<exists>(s :: kbio) b t. ring (nexts s) (prevs s) (rev [0..<NBUF]) \<and> bget ROOTDEV 5 s = Done b t \<and> b \<notin> busy s"
proof -
  obtain t0 where t0: "binit boot_bio = Done () t0" "ring (nexts t0) (prevs t0) (rev [0..<NBUF])"
    and st: "\<And>j. strip (bufs t0 j) = strip (if j < NBUF then (bufs boot_bio j)\<lparr>b_lock := initsleeplock\<rparr> else bufs boot_bio j)"
    using binit_loop [OF boot_bio_zeroed] by (auto simp: wp_iff)
  let ?s = "t0\<lparr>cpu_proc := Some 0\<rparr>"
  have inv: "bc_inv ?s" using binit_ready [OF boot_bio_zeroed] t0(1) by auto
  have r: "ring (nexts ?s) (prevs ?s) (rev [0..<NBUF])" "set (rev [0..<NBUF]) = {..<NBUF}"
    using t0(2) by (auto simp: nexts_def prevs_def)
  have f: "b_flags (bufs t0 i) = 0" "b_dev (bufs t0 i) = 0" "\<not> sl_locked (b_lock (bufs t0 i))" for i
    using st [of i, unfolded strip_eq_fields] by (auto simp: boot_bio_def initsleeplock_def split: if_splits)
  have "\<forall>i. \<not> cached ?s i 5" "\<exists>i<NBUF. i \<notin> busy ?s"
    using f by (auto simp: cached_def ROOTDEV_def busy_def locked_def dirty_def NBUF_def intro!: exI [of _ 0])
  from bget_recycles_lru [OF inv r this] r(1) show ?thesis by blast
qed

end
