(* ===== verification/CStrings.thy ===== *)
theory CStrings
  imports Prelude
begin

text \<open>
  string.c, and the functions of ulib.c that have the same job in user programs. A pointer
  that is only read is the stream of bytes it points at; functions that write take the memory
  and return it. Addresses are 32-bit words and wrap around.
\<close>

section \<open>Functions that read\<close>

type_synonym cptr = "nat \<Rightarrow> byte"
type_synonym mem = "addr \<Rightarrow> byte"

definition incr :: "cptr \<Rightarrow> cptr" where
  "incr p = (\<lambda>i. p (Suc i))"

text \<open>The string literal or buffer with the given bytes, followed by NUL.\<close>

definition cstring :: "byte list \<Rightarrow> cptr" where
  "cstring xs = (\<lambda>i. if i < length xs then xs ! i else 0)"

definition mem_ptr :: "mem \<Rightarrow> addr \<Rightarrow> cptr" where
  "mem_ptr m a = (\<lambda>i. m (a + of_nat i))"

fun memcmp :: "cptr \<Rightarrow> cptr \<Rightarrow> nat \<Rightarrow> int" where
  "memcmp s1 s2 0 = 0"
| "memcmp s1 s2 (Suc n) = (if s1 0 \<noteq> s2 0 then uint (s1 0) - uint (s2 0) else memcmp (incr s1) (incr s2) n)"

fun strncmp :: "cptr \<Rightarrow> cptr \<Rightarrow> nat \<Rightarrow> int" where
  "strncmp p q 0 = 0"
| "strncmp p q (Suc n) = (if p 0 \<noteq> 0 \<and> p 0 = q 0 then strncmp (incr p) (incr q) n
     else uint (p 0) - uint (q 0))"

text \<open>
  Loops that only a NUL ends: \<open>None\<close> is a loop that never returns.
\<close>

partial_function (option) strlen_from :: "cptr \<Rightarrow> nat \<Rightarrow> nat option" where
  "strlen_from s n = (if s n \<noteq> 0 then strlen_from s (Suc n) else Some n)"

definition strlen :: "cptr \<Rightarrow> nat option" where
  "strlen s = strlen_from s 0"

partial_function (option) strcmp :: "cptr \<Rightarrow> cptr \<Rightarrow> int option" where
  "strcmp p q = (if p 0 \<noteq> 0 \<and> p 0 = q 0 then strcmp (incr p) (incr q) else Some (uint (p 0) - uint (q 0)))"

partial_function (option) strchr_from :: "cptr \<Rightarrow> byte \<Rightarrow> nat \<Rightarrow> nat option option" where
  "strchr_from s c i = (if s i = 0 then Some None else if s i = c then Some (Some i) else strchr_from s c (Suc i))"

definition strchr :: "cptr \<Rightarrow> byte \<Rightarrow> nat option option" where
  "strchr s c = strchr_from s c 0"

text \<open>atoi(): the loop over the digits, in 32-bit arithmetic.\<close>

partial_function (option) atoi_loop :: "cptr \<Rightarrow> uint \<Rightarrow> uint option" where
  "atoi_loop s n = (if 0x30 \<le> s 0 \<and> s 0 \<le> 0x39 then atoi_loop (incr s) (n * 10 + ucast (s 0) - 0x30) else Some n)"

definition atoi :: "cptr \<Rightarrow> int option" where
  "atoi s = map_option sint (atoi_loop s 0)"

section \<open>Functions that write\<close>

text \<open>The x86 string instructions behind memset().\<close>

fun stosb :: "mem \<Rightarrow> addr \<Rightarrow> byte \<Rightarrow> nat \<Rightarrow> mem" where
  "stosb m dst c 0 = m"
| "stosb m dst c (Suc n) = stosb (m(dst := c)) (dst + 1) c n"

fun stosl :: "mem \<Rightarrow> addr \<Rightarrow> uint \<Rightarrow> nat \<Rightarrow> mem" where
  "stosl m dst w 0 = m"
| "stosl m dst w (Suc n) = stosl (m(dst := ucast w, dst + 1 := ucast (drop_bit 8 w),
     dst + 2 := ucast (drop_bit 16 w), dst + 3 := ucast (drop_bit 24 w))) (dst + 4) w n"

definition memset :: "mem \<Rightarrow> addr \<Rightarrow> uint \<Rightarrow> uint \<Rightarrow> mem" where
  "memset m dst c n =
     (if sint dst mod 4 = 0 \<and> n mod 4 = 0
      then let c = c AND 0xFF
           in stosl m dst (push_bit 24 c OR push_bit 16 c OR push_bit 8 c OR c) (unat (n div 4))
      else stosb m dst (ucast c) (unat n))"

fun copy_up :: "mem \<Rightarrow> addr \<Rightarrow> addr \<Rightarrow> nat \<Rightarrow> mem" where
  "copy_up m d s 0 = m"
| "copy_up m d s (Suc n) = copy_up (m(d := m s)) (d + 1) (s + 1) n"

fun copy_down :: "mem \<Rightarrow> addr \<Rightarrow> addr \<Rightarrow> nat \<Rightarrow> mem" where
  "copy_down m d s 0 = m"
| "copy_down m d s (Suc n) = copy_down (m(d - 1 := m (s - 1))) (d - 1) (s - 1) n"

definition memmove :: "mem \<Rightarrow> addr \<Rightarrow> addr \<Rightarrow> uint \<Rightarrow> mem" where
  "memmove m dst src n =
     (if src < dst \<and> src + n > dst then copy_down m (dst + n) (src + n) (unat n)
      else copy_up m dst src (unat n))"

text \<open>memmove() of ulib.c, which copies upwards only.\<close>

definition memmove_user :: "mem \<Rightarrow> addr \<Rightarrow> addr \<Rightarrow> int \<Rightarrow> mem" where
  "memmove_user m dst src n = copy_up m dst src (nat n)"

text \<open>memset() and strcpy() of ulib.c.\<close>

definition memset_user :: "mem \<Rightarrow> addr \<Rightarrow> uint \<Rightarrow> uint \<Rightarrow> mem" where
  "memset_user m dst c n = stosb m dst (ucast c) (unat n)"

partial_function (option) strcpy :: "mem \<Rightarrow> addr \<Rightarrow> addr \<Rightarrow> mem option" where
  "strcpy m s t = (if m t \<noteq> 0 then strcpy (m(s := m t)) (s + 1) (t + 1) else Some (m(s := m t)))"

text \<open>The bytes that strncpy() and safestrcpy() store, in order from the destination.\<close>

fun strncpy_loop :: "cptr \<Rightarrow> nat \<Rightarrow> byte list" where
  "strncpy_loop t 0 = []"
| "strncpy_loop t (Suc n) = t 0 # (if t 0 \<noteq> 0 then strncpy_loop (incr t) n else replicate n 0)"

definition strncpy :: "cptr \<Rightarrow> int \<Rightarrow> byte list" where
  "strncpy t n = strncpy_loop t (nat n)"

fun safestrcpy_loop :: "cptr \<Rightarrow> nat \<Rightarrow> byte list" where
  "safestrcpy_loop t 0 = [0]"
| "safestrcpy_loop t (Suc n) = t 0 # (if t 0 \<noteq> 0 then safestrcpy_loop (incr t) n else [0])"

definition safestrcpy :: "cptr \<Rightarrow> int \<Rightarrow> byte list" where
  "safestrcpy t n = (if n \<le> 0 then [] else safestrcpy_loop t (nat n - 1))"

section \<open>Memory\<close>

definition span :: "addr \<Rightarrow> nat \<Rightarrow> addr set" where
  "span a n = (\<lambda>i. a + of_nat i) ` {..<n}"

lemma span_0 [simp]: "span a 0 = {}"
  by (simp add: span_def)

lemma span_Suc: "span a (Suc n) = insert a (span (a + 1) n)"
proof -
  have "span a (Suc n) = (\<lambda>i. a + of_nat i) ` insert 0 (Suc ` {..<n})"
    by (simp add: span_def lessThan_Suc_eq_insert_0)
  then show ?thesis by (simp add: span_def image_image algebra_simps)
qed

lemma span_offset:
  fixes a :: addr
  assumes "i < n" "n \<le> 2 ^ 32" "j < n" "a + of_nat i = a + of_nat j"
  shows "i = j"
proof -
  have "(of_nat i :: uint) = of_nat j" using assms(4) by simp
  then show ?thesis using assms(1-3) unat_of_nat_small [of i] unat_of_nat_small [of j]
    by (metis order_less_le_trans)
qed

lemma head_notin_span: "n < 2 ^ 32 \<Longrightarrow> a \<notin> span (a + 1) n"
proof
  assume n: "n < 2 ^ 32" and "a \<in> span (a + 1) n"
  then obtain i where i: "i < n" "a + of_nat 0 = a + of_nat (Suc i)" by (auto simp: span_def algebra_simps)
  then show False using span_offset [of 0 "Suc n" "Suc i" a] n by simp
qed

lemma stosb_spec:
  assumes "n \<le> 2 ^ 32"
  shows "stosb m dst c n = (\<lambda>a. if a \<in> span dst n then c else m a)"
  using assms
proof (induction n arbitrary: m dst)
  case (Suc n)
  then show ?case by (auto simp: span_Suc fun_eq_iff)
qed simp

lemma span_4: "span dst (4 * Suc n) = {dst, dst + 1, dst + 2, dst + 3} \<union> span (dst + 4) (4 * n)"
proof -
  have e: "4 * Suc n = Suc (Suc (Suc (Suc (4 * n))))" by simp
  show ?thesis unfolding e span_Suc by (auto simp: add.assoc)
qed

lemma stosl_spec:
  assumes "ucast w = c" "ucast (drop_bit 8 w) = c" "ucast (drop_bit 16 w) = c" "ucast (drop_bit 24 w) = c"
  shows "stosl m dst w n = (\<lambda>a. if a \<in> span dst (4 * n) then c else m a)"
proof (induction n arbitrary: m dst)
  case (Suc n)
  show ?case unfolding stosl.simps Suc.IH span_4 using assms by (auto simp: fun_eq_iff)
qed simp

lemma span_memb: "a \<in> span d n \<Longrightarrow> \<exists>i<n. a = d + of_nat i"
  by (auto simp: span_def)

text \<open>What both copying loops compute when no store hits a byte that is still to be read.\<close>

definition copied :: "mem \<Rightarrow> addr \<Rightarrow> addr \<Rightarrow> nat \<Rightarrow> mem" where
  "copied m d s n = (\<lambda>a. if a \<in> span d n then m (s + (a - d)) else m a)"

lemma copy_up_spec:
  assumes "n \<le> 2 ^ 32" and "\<And>i j. i < j \<Longrightarrow> j < n \<Longrightarrow> d + of_nat i \<noteq> s + of_nat j"
  shows "copy_up m d s n = copied m d s n"
  using assms
proof (induction n arbitrary: m d s)
  case (Suc n)
  have cl: "d + 1 + of_nat i \<noteq> s + 1 + of_nat j" if "i < j" "j < n" for i j
    using Suc.prems(2) [of "Suc i" "Suc j"] that by (simp add: algebra_simps)
  have IH: "copy_up (m(d := m s)) (d + 1) (s + 1) n = copied (m(d := m s)) (d + 1) (s + 1) n"
    using Suc.prems(1) by (intro Suc.IH cl) auto
  have "copied (m(d := m s)) (d + 1) (s + 1) n a = copied m d s (Suc n) a" for a
  proof (cases "a \<in> span (d + 1) n")
    case True
    then obtain i where i: "i < n" "a = d + 1 + of_nat i" using span_memb by blast
    have "s + of_nat (Suc i) \<noteq> d" using Suc.prems(2) [of 0 "Suc i"] i(1) by auto
    then show ?thesis using True i(2) by (simp add: copied_def span_Suc algebra_simps)
  next
    case False
    then show ?thesis by (auto simp: copied_def span_Suc)
  qed
  then show ?case using IH by (simp add: fun_eq_iff)
qed (simp add: copied_def)

lemma span_snoc: "span d (Suc n) = insert (d + of_nat n) (span d n)"
  by (auto simp: span_def less_Suc_eq)

lemma copy_down_spec:
  assumes "n \<le> 2 ^ 32" and "\<And>i j. i < j \<Longrightarrow> j < n \<Longrightarrow> d + of_nat j \<noteq> s + of_nat i"
  shows "copy_down m (d + of_nat n) (s + of_nat n) n = copied m d s n"
  using assms
proof (induction n arbitrary: m)
  case (Suc n)
  let ?m = "m(d + of_nat n := m (s + of_nat n))"
  have IH: "copy_down ?m (d + of_nat n) (s + of_nat n) n = copied ?m d s n"
    using Suc.prems by (intro Suc.IH) auto
  have "copied ?m d s n a = copied m d s (Suc n) a" for a
  proof (cases "a \<in> span d n")
    case True
    then obtain i where i: "i < n" "a = d + of_nat i" using span_memb by blast
    have "s + of_nat i \<noteq> d + of_nat n" using Suc.prems(2) [of i n] i(1) by auto
    then show ?thesis using True i(2) by (simp add: copied_def span_snoc)
  next
    case False
    then show ?thesis by (auto simp: copied_def span_snoc)
  qed
  moreover have "copy_down m (d + of_nat (Suc n)) (s + of_nat (Suc n)) (Suc n) =
      copy_down ?m (d + of_nat n) (s + of_nat n) n" by simp
  ultimately show ?case using IH by (simp add: fun_eq_iff)
qed (simp add: copied_def)

lemma no_wrap_neq:
  fixes d s :: addr
  assumes "unat d + i < 2 ^ 32" "unat s + j < 2 ^ 32" "unat d + i \<noteq> unat s + j"
  shows "d + of_nat i \<noteq> s + of_nat j"
proof
  assume "d + of_nat i = s + of_nat j"
  then have "(of_nat (unat d + i) :: addr) = of_nat (unat s + j)" by simp
  then have "unat d + i = unat s + j" using assms(1,2) unat_of_nat_small by metis
  with assms(3) show False by simp
qed

lemma memset_spec:
  "memset m dst c n = (\<lambda>a. if a \<in> span dst (unat n) then ucast c else m a)"
proof (cases "sint dst mod 4 = 0 \<and> n mod 4 = 0")
  case True
  define e where "e = c AND 0xFF"
  define w where "w = push_bit 24 e OR push_bit 16 e OR push_bit 8 e OR e"
  have ff: "(0xFF :: uint) = mask 8" by (simp add: mask_eq_exp_minus_1)
  have b: "bit e i \<longleftrightarrow> i < 8 \<and> bit c i" for i unfolding e_def ff bit_and_iff bit_mask_iff by auto
  have u: "ucast w = (ucast c :: byte)" "ucast (drop_bit 8 w) = (ucast c :: byte)"
    "ucast (drop_bit 16 w) = (ucast c :: byte)" "ucast (drop_bit 24 w) = (ucast c :: byte)"
    by (rule bit_word_eqI; force simp: w_def bit_simps b)+
  have "unat (n mod 4) = 0" using True by simp
  then have "unat n mod 4 = 0" by (simp add: unat_mod_distrib)
  then have "4 * unat (n div 4) = unat n" by (simp add: unat_div_distrib) presburger
  then show ?thesis using True stosl_spec [OF u, of m dst "unat (n div 4)"]
    by (simp add: memset_def Let_def w_def e_def)
next
  case False
  then show ?thesis using unat_bound [of n] by (auto simp: memset_def stosb_spec simp del: not_all)
qed

lemma memmove_spec:
  assumes "unat src + unat n < 2 ^ 32" and "unat dst + unat n \<le> 2 ^ 32"
  shows "memmove m dst src n = (\<lambda>a. if a \<in> span dst (unat n) then m (src + (a - dst)) else m a)"
proof -
  have lt: "src < dst \<longleftrightarrow> unat src < unat dst" by (simp add: word_less_nat_alt)
  have "unat (src + n) = unat src + unat n" using assms(1) by (simp add: unat_plus_if')
  then have gt: "src + n > dst \<longleftrightarrow> unat dst < unat src + unat n" by (simp add: word_less_nat_alt)
  have nb: "unat n \<le> 2 ^ 32" using unat_bound [of n] by simp
  have "memmove m dst src n = copied m dst src (unat n)"
  proof (cases "src < dst \<and> src + n > dst")
    case True
    then have "copy_down m (dst + of_nat (unat n)) (src + of_nat (unat n)) (unat n) = copied m dst src (unat n)"
      using assms lt by (intro copy_down_spec [OF nb] no_wrap_neq) auto
    with True show ?thesis by (simp add: memmove_def)
  next
    case False
    then have "copy_up m dst src (unat n) = copied m dst src (unat n)"
      using assms lt gt by (intro copy_up_spec [OF nb] no_wrap_neq) auto
    with False show ?thesis by (auto simp: memmove_def)
  qed
  then show ?thesis by (simp add: copied_def)
qed

text \<open>
  C14: memmove() copies. For any two ranges that do not wrap around the address space,
  overlapping or not, afterwards the destination holds what the source held before the call
  and no other byte has changed.
\<close>

theorem memmove_copies:
  assumes "unat src + unat n < 2 ^ 32" and "unat dst + unat n \<le> 2 ^ 32"
  shows "memmove m dst src n = (\<lambda>a. if a \<in> span dst (unat n) then m (src + (a - dst)) else m a)"
  using assms by (rule memmove_spec)

theorem memmove_copies_witness:
  "memmove (\<lambda>a. ucast a) 0x1004 0x1000 8 0x100A = 6 \<and> memmove (\<lambda>a. ucast a) 0x1004 0x1000 8 0x1003 = 3"
proof -
  have "memmove (\<lambda>a. ucast a) 0x1004 0x1000 8 = (\<lambda>a. if a \<in> span 0x1004 8 then ucast (0x1000 + (a - 0x1004)) else ucast a)"
    using memmove_copies [of "0x1000" 8 "0x1004"] by simp
  moreover have "(0x100A :: addr) \<in> span 0x1004 8" "(0x1003 :: addr) \<notin> span 0x1004 8"
    by (simp_all add: span_def lessThan_nat_numeral lessThan_Suc)
  ultimately show ?thesis by simp
qed

text \<open>The user-space memmove() copies upwards whatever the overlap, so it is no memmove().\<close>

lemma memmove_user_overlap:
  "memmove_user (\<lambda>a. ucast a) 0x1001 0x1000 2 0x1002 = 0"
  "memmove (\<lambda>a. ucast a) 0x1001 0x1000 2 0x1002 = 1"
  by code_simp+

section \<open>Strings\<close>

lemma incr_cstring [simp]: "incr (cstring (x # xs)) = cstring xs" "incr (cstring []) = cstring []"
  by (auto simp: incr_def cstring_def)

lemma cstring_0 [simp]: "cstring (x # xs) 0 = x" "cstring [] 0 = 0"
  by (auto simp: cstring_def)

lemma strncmp_zero:
  "strncmp p q n = 0 \<longleftrightarrow> (\<forall>i<n. (\<forall>j<i. p j \<noteq> 0) \<longrightarrow> p i = q i)"
proof (induction n arbitrary: p q)
  case (Suc n)
  have u: "uint (p 0) - uint (q 0) = 0 \<longleftrightarrow> p 0 = q 0" by (simp add: word_uint_eq_iff)
  have "(\<forall>i<Suc n. (\<forall>j<i. p j \<noteq> 0) \<longrightarrow> p i = q i) \<longleftrightarrow>
      p 0 = q 0 \<and> (p 0 \<noteq> 0 \<longrightarrow> (\<forall>i<n. (\<forall>j<i. incr p j \<noteq> 0) \<longrightarrow> incr p i = incr q i))"
    unfolding All_less_Suc2 incr_def by auto
  then show ?case using Suc.IH [of "incr p" "incr q"] u by (cases "p 0 \<noteq> 0 \<and> p 0 = q 0") auto
qed simp

lemma strncmp_first:
  "k < n \<Longrightarrow> \<forall>j<k. p j \<noteq> 0 \<and> p j = q j \<Longrightarrow> p k \<noteq> q k \<Longrightarrow> strncmp p q n = uint (p k) - uint (q k)"
proof (induction n arbitrary: p q k)
  case (Suc n)
  show ?case
  proof (cases k)
    case (Suc l)
    then have "p 0 \<noteq> 0" "p 0 = q 0" using Suc.prems(2) by auto
    moreover have "strncmp (incr p) (incr q) n = uint (incr p l) - uint (incr q l)"
      by (rule Suc.IH) (use Suc.prems Suc in \<open>auto simp: incr_def\<close>)
    ultimately show ?thesis using Suc by (simp add: incr_def)
  qed (use Suc.prems in simp)
qed simp

text \<open>
  C15: strncmp() compares strings in memory, whatever follows their NULs. It returns 0 exactly
  when the bytes agree at each of the first \<open>n\<close> positions that has no NUL before it, and
  otherwise the difference of the bytes at the first position where they differ.
\<close>

theorem strncmp_correct:
  "(strncmp p q n = 0 \<longleftrightarrow> (\<forall>i<n. (\<forall>j<i. p j \<noteq> 0) \<longrightarrow> p i = q i)) \<and>
   (k < n \<and> (\<forall>j<k. p j \<noteq> 0 \<and> p j = q j) \<and> p k \<noteq> q k \<longrightarrow> strncmp p q n = uint (p k) - uint (q k))"
  using strncmp_zero strncmp_first by blast

text \<open>Two strings that end at the same place and are followed by different bytes, and two that differ.\<close>

theorem strncmp_correct_witness:
  "strncmp (mem_ptr (\<lambda>a. if a = 0x10 then 0x61 else if a = 0x12 then 5 else 0) 0x10) (mem_ptr (\<lambda>a. if a = 0x20 then 0x61 else 0) 0x20) 3 = 0 \<and>
   strncmp (cstring [0x61, 0x62]) (cstring [0x61, 0x63]) 5 = -1"
proof
  let ?p = "mem_ptr (\<lambda>a. if a = 0x10 then 0x61 else if a = 0x12 then 5 else 0) 0x10" and ?q = "mem_ptr (\<lambda>a. if a = 0x20 then 0x61 else 0) 0x20"
  have "\<forall>i<3. (\<forall>j<i. ?p j \<noteq> 0) \<longrightarrow> ?p i = ?q i" by (simp add: mem_ptr_def numeral_3_eq_3 All_less_Suc)
  then show "strncmp ?p ?q 3 = 0" using strncmp_correct [of ?p ?q 3] by blast
  show "strncmp (cstring [0x61, 0x62]) (cstring [0x61, 0x63]) 5 = -1"
    using strncmp_correct [of "cstring [0x61, 0x62]" "cstring [0x61, 0x63]" 5 1] by (simp add: cstring_def)
qed

lemma strlen_from_cstring: "0 \<notin> set xs \<Longrightarrow> n \<le> length xs \<Longrightarrow> strlen_from (cstring xs) n = Some (length xs)"
proof (induction "length xs - n" arbitrary: n)
  case 0
  then show ?case by (subst strlen_from.simps) (simp add: cstring_def)
next
  case (Suc d)
  then have "n < length xs" by simp
  moreover have "xs ! n \<noteq> 0" using Suc.prems(1) nth_mem [OF \<open>n < length xs\<close>] by auto
  moreover have "strlen_from (cstring xs) (Suc n) = Some (length xs)" using Suc by simp
  ultimately show ?case by (subst strlen_from.simps) (simp add: cstring_def)
qed

lemma strlen_cstring: "0 \<notin> set xs \<Longrightarrow> strlen (cstring xs) = Some (length xs)"
  by (simp add: strlen_def strlen_from_cstring)

lemma strncpy_cstring:
  assumes "0 \<notin> set xs"
  shows "strncpy_loop (cstring xs) n = take n xs @ replicate (n - length xs) 0"
  using assms
proof (induction n arbitrary: xs)
  case (Suc n)
  then show ?case by (cases xs) auto
qed simp

lemma safestrcpy_loop_spec:
  "safestrcpy_loop t n \<noteq> [] \<and> length (safestrcpy_loop t n) \<le> Suc n \<and> last (safestrcpy_loop t n) = 0"
proof (induction t n rule: safestrcpy_loop.induct)
  case (2 t n)
  then show ?case by auto
qed simp

text \<open>
  C16: safestrcpy() always terminates the copy. For a positive size it stores between 1 and
  \<open>n\<close> bytes, the last one NUL, and the bytes before it are the source string cut to \<open>n - 1\<close>.
\<close>

theorem safestrcpy_terminated:
  assumes "0 < n"
  shows "safestrcpy t n \<noteq> [] \<and> length (safestrcpy t n) \<le> nat n \<and> last (safestrcpy t n) = 0 \<and>
    (\<forall>xs. 0 \<notin> set xs \<longrightarrow> takeWhile (\<lambda>c. c \<noteq> 0) (safestrcpy (cstring xs) n) = take (nat n - 1) xs)"
proof -
  have "takeWhile (\<lambda>c. c \<noteq> 0) (safestrcpy_loop (cstring xs) k) = take k xs" if "0 \<notin> set xs" for k xs
    using that
  proof (induction k arbitrary: xs)
    case (Suc k)
    then show ?case by (cases xs) auto
  qed simp
  then show ?thesis using assms safestrcpy_loop_spec [of t "nat n - 1"] by (simp add: safestrcpy_def)
qed

theorem safestrcpy_terminated_witness:
  "last (safestrcpy (cstring [0x61, 0x62, 0x63]) 2) = 0 \<and> length (safestrcpy (cstring [0x61, 0x62, 0x63]) 2) \<le> 2"
  using safestrcpy_terminated [of 2 "cstring [0x61, 0x62, 0x63]"] by simp

end
