(* ===== verification/Fs.thy ===== *)
theory Fs
  imports Log CStrings
begin

text \<open>
  fs.c: the on-disk structures (free map, inodes, directories), the inode cache and path
  names. A struct inode pointer is the index of its entry in icache, with \<open>None\<close> for null.
  Blocks of a device are read and changed through the buffer cache and the log exactly where
  the source does so. Device files are read and written through the table devsw, which is an
  argument of the functions that consult it.
\<close>

section \<open>Constants and layout\<close>

definition NDIRECT :: nat where "NDIRECT = 12"
definition NINDIRECT :: nat where "NINDIRECT = BSIZE div 4"
definition MAXFILE :: nat where "MAXFILE = NDIRECT + NINDIRECT"
definition IPB :: nat where "IPB = BSIZE div 64"
definition BPB :: nat where "BPB = BSIZE * 8"
definition NINODE :: nat where "NINODE = 50"
definition NDEV :: nat where "NDEV = 10"
definition ROOTINO :: uint where "ROOTINO = 1"
definition DIRSIZ :: nat where "DIRSIZ = 14"
definition T_DIR :: ushort where "T_DIR = 1"
definition T_FILE :: ushort where "T_FILE = 2"
definition T_DEV :: ushort where "T_DEV = 3"

definition IBLOCK :: "uint \<Rightarrow> superblock \<Rightarrow> uint" where
  "IBLOCK i sb = i div of_nat IPB + sb_inodestart sb"

definition BBLOCK :: "uint \<Rightarrow> superblock \<Rightarrow> uint" where
  "BBLOCK b sb = b div of_nat BPB + sb_bmapstart sb"

text \<open>struct dinode, 64 bytes: four shorts, the size and 13 block addresses.\<close>

record dinode =
  d_type :: ushort
  d_major :: ushort
  d_minor :: ushort
  d_nlink :: ushort
  d_size :: uint
  d_addrs :: "nat \<Rightarrow> uint"

definition dinode_off :: "uint \<Rightarrow> nat" where
  "dinode_off inum = 64 * (unat inum mod IPB)"

definition get_dinode :: "block \<Rightarrow> nat \<Rightarrow> dinode" where
  "get_dinode d off = \<lparr>d_type = get16 d off, d_major = get16 d (off + 2), d_minor = get16 d (off + 4),
     d_nlink = get16 d (off + 6), d_size = get32 d (off + 8),
     d_addrs = (\<lambda>i. if i \<le> NDIRECT then get32 d (off + 12 + 4 * i) else 0)\<rparr>"

definition put_dinode :: "dinode \<Rightarrow> nat \<Rightarrow> block \<Rightarrow> block" where
  "put_dinode x off d = fold (\<lambda>i d. put32 d (off + 12 + 4 * i) (d_addrs x i)) [0..<NDIRECT + 1]
     (put32 (put16 (put16 (put16 (put16 d off (d_type x)) (off + 2) (d_major x)) (off + 4) (d_minor x))
       (off + 6) (d_nlink x)) (off + 8) (d_size x))"

record inode =
  i_dev :: uint
  i_inum :: uint
  i_ref :: int
  i_lock :: sleeplock
  i_valid :: bool
  i_type :: ushort
  i_major :: ushort
  i_minor :: ushort
  i_nlink :: ushort
  i_size :: uint
  i_addrs :: "nat \<Rightarrow> uint"

record kfs = klog +
  the_sb :: superblock
  inodes :: "nat \<Rightarrow> inode"

definition upd_inode :: "nat \<Rightarrow> (inode \<Rightarrow> inode) \<Rightarrow> 'z kfs_scheme \<Rightarrow> 'z kfs_scheme" where
  "upd_inode i f s = s\<lparr>inodes := (inodes s)(i := f (inodes s i))\<rparr>"

definition inode_lock :: "nat \<Rightarrow> 'z kfs_scheme lockref" where
  "inode_lock i = \<lparr>lk_chan = ChanInode i, lk_get = (\<lambda>s. i_lock (inodes s i)),
     lk_set = (\<lambda>l. upd_inode i (\<lambda>x. x\<lparr>i_lock := l\<rparr>))\<rparr>"

section \<open>Blocks\<close>

definition bzero :: "uint \<Rightarrow> uint \<Rightarrow> ('z klog_scheme, unit) prog" where
  "bzero dev bno = kbind (bread dev bno) (\<lambda>bp.
     kthen (set_data bp (\<lambda>_. replicate BSIZE 0)) (kthen (log_write bp) (brelse bp)))"

text \<open>bp->data[bi/8] & m, |= m and &= ~m for m = 1 << (bi % 8).\<close>

definition map_bit :: "block \<Rightarrow> nat \<Rightarrow> bool" where
  "map_bit d bi \<longleftrightarrow> d ! (bi div 8) AND push_bit (bi mod 8) 1 \<noteq> 0"

definition set_map :: "nat \<Rightarrow> block \<Rightarrow> block" where
  "set_map bi d = d[bi div 8 := d ! (bi div 8) OR push_bit (bi mod 8) 1]"

definition clear_map :: "nat \<Rightarrow> block \<Rightarrow> block" where
  "clear_map bi d = d[bi div 8 := d ! (bi div 8) AND NOT (push_bit (bi mod 8) 1)]"

text \<open>The outer loop of balloc() over the free-map blocks, given by their first block number.\<close>

primrec balloc_loop :: "uint \<Rightarrow> nat list \<Rightarrow> ('z kfs_scheme, uint) prog" where
  "balloc_loop dev [] = panic ''balloc: out of blocks''"
| "balloc_loop dev (b # bs) = kbind (kget the_sb) (\<lambda>sb.
     kbind (bread dev (BBLOCK (of_nat b) sb)) (\<lambda>bp.
     kbind (buf_data bp) (\<lambda>d.
     case find (\<lambda>bi. b + bi < unat (sb_size sb) \<and> \<not> map_bit d bi) [0..<BPB] of
       Some bi \<Rightarrow> kthen (set_data bp (set_map bi)) (kthen (log_write bp) (kthen (brelse bp)
         (kthen (bzero dev (of_nat (b + bi))) (kreturn (of_nat (b + bi))))))
     | None \<Rightarrow> kthen (brelse bp) (balloc_loop dev bs))))"

definition map_starts :: "uint \<Rightarrow> nat list" where
  "map_starts sz = map (\<lambda>i. i * BPB) [0..<(unat sz + BPB - 1) div BPB]"

definition balloc :: "uint \<Rightarrow> ('z kfs_scheme, uint) prog" where
  "balloc dev = kbind (kget the_sb) (\<lambda>sb. balloc_loop dev (map_starts (sb_size sb)))"

definition bfree :: "uint \<Rightarrow> uint \<Rightarrow> ('z kfs_scheme, unit) prog" where
  "bfree dev b = kbind (kget the_sb) (\<lambda>sb. kbind (bread dev (BBLOCK b sb)) (\<lambda>bp.
     kbind (buf_data bp) (\<lambda>d.
     let bi = unat b mod BPB in
     if \<not> map_bit d bi then panic ''freeing free block''
     else kthen (set_data bp (clear_map bi)) (kthen (log_write bp) (brelse bp)))))"

section \<open>Inodes\<close>

definition iinit :: "uint \<Rightarrow> ('z kfs_scheme, unit) prog" where
  "iinit dev = kthen (kfor [0..<NINODE] (\<lambda>i. kmodify (upd_inode i (\<lambda>x. x\<lparr>i_lock := initsleeplock\<rparr>))))
     (kbind (readsb dev) (\<lambda>sb. kmodify (\<lambda>s. s\<lparr>the_sb := sb\<rparr>)))"

text \<open>
  iget(): the loop looks for the inode among the entries in use and remembers the first free
  entry on the way.
\<close>

definition iget_hit :: "uint \<Rightarrow> uint \<Rightarrow> (nat \<Rightarrow> inode) \<Rightarrow> nat option" where
  "iget_hit dev inum t = find (\<lambda>i. i_ref (t i) > 0 \<and> i_dev (t i) = dev \<and> i_inum (t i) = inum) [0..<NINODE]"

definition iget_empty :: "(nat \<Rightarrow> inode) \<Rightarrow> nat option" where
  "iget_empty t = find (\<lambda>i. i_ref (t i) = 0) [0..<NINODE]"

definition iget :: "uint \<Rightarrow> uint \<Rightarrow> ('z kfs_scheme, nat) prog" where
  "iget dev inum = kbind (kget inodes) (\<lambda>t. case iget_hit dev inum t of
       Some i \<Rightarrow> kthen (kmodify (upd_inode i (\<lambda>x. x\<lparr>i_ref := i_ref x + 1\<rparr>))) (kreturn i)
     | None \<Rightarrow> (case iget_empty t of
         None \<Rightarrow> panic ''iget: no inodes''
       | Some i \<Rightarrow> kthen (kmodify (upd_inode i (\<lambda>x. x\<lparr>i_dev := dev, i_inum := inum, i_ref := 1, i_valid := False\<rparr>)))
           (kreturn i)))"

definition blank_dinode :: "ushort \<Rightarrow> dinode" where
  "blank_dinode ty = \<lparr>d_type = ty, d_major = 0, d_minor = 0, d_nlink = 0, d_size = 0, d_addrs = (\<lambda>_. 0)\<rparr>"

primrec ialloc_loop :: "uint \<Rightarrow> ushort \<Rightarrow> nat list \<Rightarrow> ('z kfs_scheme, nat) prog" where
  "ialloc_loop dev ty [] = panic ''ialloc: no inodes''"
| "ialloc_loop dev ty (n # ns) = kbind (kget the_sb) (\<lambda>sb.
     kbind (bread dev (IBLOCK (of_nat n) sb)) (\<lambda>bp. kbind (buf_data bp) (\<lambda>d.
     if get16 d (dinode_off (of_nat n)) = 0
     then kthen (set_data bp (put_dinode (blank_dinode ty) (dinode_off (of_nat n))))
       (kthen (log_write bp) (kthen (brelse bp) (iget dev (of_nat n))))
     else kthen (brelse bp) (ialloc_loop dev ty ns))))"

definition ialloc :: "uint \<Rightarrow> ushort \<Rightarrow> ('z kfs_scheme, nat) prog" where
  "ialloc dev ty = kbind (kget the_sb) (\<lambda>sb. ialloc_loop dev ty [1..<unat (sb_ninodes sb)])"

definition to_dinode :: "inode \<Rightarrow> dinode" where
  "to_dinode x = \<lparr>d_type = i_type x, d_major = i_major x, d_minor = i_minor x, d_nlink = i_nlink x,
     d_size = i_size x, d_addrs = i_addrs x\<rparr>"

definition iupdate :: "nat \<Rightarrow> ('z kfs_scheme, unit) prog" where
  "iupdate ip = kbind (kget (\<lambda>s. inodes s ip)) (\<lambda>x. kbind (kget the_sb) (\<lambda>sb.
     kbind (bread (i_dev x) (IBLOCK (i_inum x) sb)) (\<lambda>bp.
     kthen (set_data bp (put_dinode (to_dinode x) (dinode_off (i_inum x))))
     (kthen (log_write bp) (brelse bp)))))"

definition idup :: "nat \<Rightarrow> ('z kfs_scheme, nat) prog" where
  "idup ip = kthen (kmodify (upd_inode ip (\<lambda>x. x\<lparr>i_ref := i_ref x + 1\<rparr>))) (kreturn ip)"

definition load_dinode :: "dinode \<Rightarrow> inode \<Rightarrow> inode" where
  "load_dinode d x = x\<lparr>i_type := d_type d, i_major := d_major d, i_minor := d_minor d,
     i_nlink := d_nlink d, i_size := d_size d, i_addrs := d_addrs d\<rparr>"

definition ilock :: "nat option \<Rightarrow> ('z kfs_scheme, unit) prog" where
  "ilock p = (case p of None \<Rightarrow> panic ''ilock'' | Some ip \<Rightarrow>
     kbind (kget (\<lambda>s. i_ref (inodes s ip))) (\<lambda>r.
     if r < 1 then panic ''ilock'' else
     kthen (acquiresleep (inode_lock ip))
     (kbind (kget (\<lambda>s. inodes s ip)) (\<lambda>x.
     kwhen (\<not> i_valid x)
       (kbind (kget the_sb) (\<lambda>sb. kbind (bread (i_dev x) (IBLOCK (i_inum x) sb)) (\<lambda>bp.
        kbind (buf_data bp) (\<lambda>d.
        kthen (kmodify (upd_inode ip (load_dinode (get_dinode d (dinode_off (i_inum x))))))
        (kthen (brelse bp)
        (kthen (kmodify (upd_inode ip (\<lambda>x. x\<lparr>i_valid := True\<rparr>)))
        (kbind (kget (\<lambda>s. i_type (inodes s ip))) (\<lambda>ty.
         kwhen (ty = 0) (panic ''ilock: no type'')))))))))))))"

definition iunlock :: "nat option \<Rightarrow> ('z kfs_scheme, unit) prog" where
  "iunlock p = (case p of None \<Rightarrow> panic ''iunlock'' | Some ip \<Rightarrow>
     kbind (holdingsleep (inode_lock ip)) (\<lambda>h.
     kbind (kget (\<lambda>s. i_ref (inodes s ip))) (\<lambda>r.
     if \<not> h \<or> r < 1 then panic ''iunlock'' else releasesleep (inode_lock ip))))"

definition itrunc :: "nat \<Rightarrow> ('z kfs_scheme, unit) prog" where
  "itrunc ip = kthen (kfor [0..<NDIRECT] (\<lambda>i. kbind (kget (\<lambda>s. inodes s ip)) (\<lambda>x.
       kwhen (i_addrs x i \<noteq> 0) (kthen (bfree (i_dev x) (i_addrs x i))
         (kmodify (upd_inode ip (\<lambda>x. x\<lparr>i_addrs := (i_addrs x)(i := 0)\<rparr>)))))))
     (kthen (kbind (kget (\<lambda>s. inodes s ip)) (\<lambda>x.
       kwhen (i_addrs x NDIRECT \<noteq> 0)
         (kbind (bread (i_dev x) (i_addrs x NDIRECT)) (\<lambda>bp. kbind (buf_data bp) (\<lambda>d.
          kthen (kfor [0..<NINDIRECT] (\<lambda>j. kwhen (get32 d (4 * j) \<noteq> 0) (bfree (i_dev x) (get32 d (4 * j)))))
          (kthen (brelse bp)
          (kthen (bfree (i_dev x) (i_addrs x NDIRECT))
          (kmodify (upd_inode ip (\<lambda>x. x\<lparr>i_addrs := (i_addrs x)(NDIRECT := 0)\<rparr>))))))))))
     (kthen (kmodify (upd_inode ip (\<lambda>x. x\<lparr>i_size := 0\<rparr>))) (iupdate ip)))"

definition iput :: "nat \<Rightarrow> ('z kfs_scheme, unit) prog" where
  "iput ip = kthen (acquiresleep (inode_lock ip))
     (kbind (kget (\<lambda>s. inodes s ip)) (\<lambda>x.
     kthen (kwhen (i_valid x \<and> i_nlink x = 0 \<and> i_ref x = 1)
       (kthen (itrunc ip) (kthen (kmodify (upd_inode ip (\<lambda>x. x\<lparr>i_type := 0\<rparr>)))
       (kthen (iupdate ip) (kmodify (upd_inode ip (\<lambda>x. x\<lparr>i_valid := False\<rparr>)))))))
     (kthen (releasesleep (inode_lock ip))
     (kmodify (upd_inode ip (\<lambda>x. x\<lparr>i_ref := i_ref x - 1\<rparr>))))))"

definition iunlockput :: "nat \<Rightarrow> ('z kfs_scheme, unit) prog" where
  "iunlockput ip = kthen (iunlock (Some ip)) (iput ip)"

section \<open>Inode content\<close>

definition bmap :: "nat \<Rightarrow> uint \<Rightarrow> ('z kfs_scheme, uint) prog" where
  "bmap ip bn = kbind (kget (\<lambda>s. inodes s ip)) (\<lambda>x.
     if unat bn < NDIRECT then
       (if i_addrs x (unat bn) = 0
        then kbind (balloc (i_dev x)) (\<lambda>addr.
          kthen (kmodify (upd_inode ip (\<lambda>x. x\<lparr>i_addrs := (i_addrs x)(unat bn := addr)\<rparr>))) (kreturn addr))
        else kreturn (i_addrs x (unat bn)))
     else if unat bn - NDIRECT < NINDIRECT then
       kbind (if i_addrs x NDIRECT = 0
              then kbind (balloc (i_dev x)) (\<lambda>addr.
                kthen (kmodify (upd_inode ip (\<lambda>x. x\<lparr>i_addrs := (i_addrs x)(NDIRECT := addr)\<rparr>))) (kreturn addr))
              else kreturn (i_addrs x NDIRECT)) (\<lambda>ind.
       kbind (bread (i_dev x) ind) (\<lambda>bp. kbind (buf_data bp) (\<lambda>d.
       let off = 4 * (unat bn - NDIRECT) in
       if get32 d off = 0
       then kbind (balloc (i_dev x)) (\<lambda>addr.
         kthen (set_data bp (\<lambda>d. put32 d off addr)) (kthen (log_write bp)
         (kthen (brelse bp) (kreturn addr))))
       else kthen (brelse bp) (kreturn (get32 d off)))))
     else panic ''bmap: out of range'')"

record stat =
  st_type :: ushort
  st_dev :: uint
  st_ino :: uint
  st_nlink :: ushort
  st_size :: uint

definition stati :: "nat \<Rightarrow> ('z kfs_scheme, stat) prog" where
  "stati ip = kget (\<lambda>s. let x = inodes s ip in
     \<lparr>st_type = i_type x, st_dev = i_dev x, st_ino = i_inum x, st_nlink = i_nlink x, st_size = i_size x\<rparr>)"

text \<open>
  The pieces in which readi() and writei() move the bytes \<open>off\<close> to \<open>off + n\<close>: each is
  min(n - tot, BSIZE - off%BSIZE) bytes long.
\<close>

function chunks :: "nat \<Rightarrow> nat \<Rightarrow> (nat \<times> nat) list" where
  "chunks off n = (if n = 0 then [] else
     let m = min n (BSIZE - off mod BSIZE) in (off, m) # chunks (off + m) (n - m))"
  by pat_completeness auto
termination
  by (relation "measure snd") (auto simp: BSIZE_def)

declare chunks.simps [simp del]

text \<open>Device files: the entry of devsw for a major number, if the table has one.\<close>

definition dev_entry :: "(nat \<Rightarrow> 'd option) \<Rightarrow> ushort \<Rightarrow> 'd option" where
  "dev_entry devsw major = (if sint major < 0 \<or> sint major \<ge> int NDEV then None else devsw (nat (sint major)))"

primrec readi_loop :: "nat \<Rightarrow> (nat \<times> nat) list \<Rightarrow> ('z kfs_scheme, byte list) prog" where
  "readi_loop ip [] = kreturn []"
| "readi_loop ip (c # cs) = kbind (kget (\<lambda>s. i_dev (inodes s ip))) (\<lambda>dev.
     kbind (bmap ip (of_nat (fst c div BSIZE))) (\<lambda>addr. kbind (bread dev addr) (\<lambda>bp.
     kbind (buf_data bp) (\<lambda>d. kthen (brelse bp)
     (kbind (readi_loop ip cs) (\<lambda>rest.
      kreturn (take (snd c) (drop (fst c mod BSIZE) d) @ rest)))))))"

definition readi :: "(nat \<Rightarrow> (nat \<Rightarrow> uint \<Rightarrow> ('z kfs_scheme, int \<times> byte list) prog) option) \<Rightarrow>
    nat \<Rightarrow> uint \<Rightarrow> uint \<Rightarrow> ('z kfs_scheme, int \<times> byte list) prog" where
  "readi devsw ip off n = kbind (kget (\<lambda>s. inodes s ip)) (\<lambda>x.
     if i_type x = T_DEV then
       (case dev_entry devsw (i_major x) of None \<Rightarrow> kreturn (-1, []) | Some rd \<Rightarrow> rd ip n)
     else if off > i_size x \<or> off + n < off then kreturn (-1, [])
     else let n = (if off + n > i_size x then i_size x - off else n) in
       kbind (readi_loop ip (chunks (unat off) (unat n))) (\<lambda>bytes. kreturn (sint n, bytes)))"

definition store_at :: "nat \<Rightarrow> byte list \<Rightarrow> block \<Rightarrow> block" where
  "store_at o' src d = take o' d @ src @ drop (o' + length src) d"

primrec writei_loop :: "nat \<Rightarrow> (nat \<times> nat) list \<Rightarrow> byte list \<Rightarrow> ('z kfs_scheme, unit) prog" where
  "writei_loop ip [] src = kreturn ()"
| "writei_loop ip (c # cs) src = kbind (kget (\<lambda>s. i_dev (inodes s ip))) (\<lambda>dev.
     kbind (bmap ip (of_nat (fst c div BSIZE))) (\<lambda>addr. kbind (bread dev addr) (\<lambda>bp.
     kthen (set_data bp (store_at (fst c mod BSIZE) (take (snd c) src)))
     (kthen (log_write bp) (kthen (brelse bp)
     (writei_loop ip cs (drop (snd c) src)))))))"

definition writei :: "(nat \<Rightarrow> (nat \<Rightarrow> byte list \<Rightarrow> uint \<Rightarrow> ('z kfs_scheme, int) prog) option) \<Rightarrow>
    nat \<Rightarrow> byte list \<Rightarrow> uint \<Rightarrow> uint \<Rightarrow> ('z kfs_scheme, int) prog" where
  "writei devsw ip src off n = kbind (kget (\<lambda>s. inodes s ip)) (\<lambda>x.
     if i_type x = T_DEV then
       (case dev_entry devsw (i_major x) of None \<Rightarrow> kreturn (-1) | Some wr \<Rightarrow> wr ip src n)
     else if off > i_size x \<or> off + n < off then kreturn (-1)
     else if off + n > of_nat (MAXFILE * BSIZE) then kreturn (-1)
     else kthen (writei_loop ip (chunks (unat off) (unat n)) src)
       (kthen (kbind (kget (\<lambda>s. i_size (inodes s ip))) (\<lambda>sz.
          kwhen (n > 0 \<and> off + n > sz)
            (kthen (kmodify (upd_inode ip (\<lambda>x. x\<lparr>i_size := off + n\<rparr>))) (iupdate ip))))
       (kreturn (sint n))))"

section \<open>Directories\<close>

definition de_inum :: "byte list \<Rightarrow> ushort" where
  "de_inum de = get16 de 0"

definition de_name :: "byte list \<Rightarrow> cptr" where
  "de_name de = cstring (drop 2 de)"

definition namecmp :: "cptr \<Rightarrow> cptr \<Rightarrow> int" where
  "namecmp s t = strncmp s t DIRSIZ"

text \<open>The offsets 0, 16, 32, ... below the size of a directory.\<close>

definition dirent_offs :: "uint \<Rightarrow> nat list" where
  "dirent_offs sz = map (\<lambda>i. i * 16) [0..<(unat sz + 15) div 16]"

primrec dirlookup_loop :: "nat \<Rightarrow> byte list \<Rightarrow> nat list \<Rightarrow> ('z kfs_scheme, (nat \<times> nat) option) prog" where
  "dirlookup_loop dp name [] = kreturn None"
| "dirlookup_loop dp name (off # offs) =
     kbind (readi (\<lambda>_. None) dp (of_nat off) 16) (\<lambda>(n, de).
     if n \<noteq> 16 then panic ''dirlookup read'' else
     if de_inum de = 0 then dirlookup_loop dp name offs else
     if namecmp (cstring name) (de_name de) = 0
     then kbind (kget (\<lambda>s. i_dev (inodes s dp))) (\<lambda>dev.
       kbind (iget dev (ucast (de_inum de))) (\<lambda>ip. kreturn (Some (ip, off))))
     else dirlookup_loop dp name offs)"

definition dirlookup :: "nat \<Rightarrow> byte list \<Rightarrow> ('z kfs_scheme, (nat \<times> nat) option) prog" where
  "dirlookup dp name = kbind (kget (\<lambda>s. inodes s dp)) (\<lambda>x.
     if i_type x \<noteq> T_DIR then panic ''dirlookup not DIR''
     else dirlookup_loop dp name (dirent_offs (i_size x)))"

text \<open>The search for an empty entry; without one the entry goes to the end.\<close>

primrec dirlink_slot :: "nat \<Rightarrow> nat \<Rightarrow> nat list \<Rightarrow> ('z kfs_scheme, nat) prog" where
  "dirlink_slot dp fin [] = kreturn fin"
| "dirlink_slot dp fin (off # offs) =
     kbind (readi (\<lambda>_. None) dp (of_nat off) 16) (\<lambda>(n, de).
     if n \<noteq> 16 then panic ''dirlink read'' else
     if de_inum de = 0 then kreturn off else dirlink_slot dp fin offs)"

definition dirent :: "ushort \<Rightarrow> byte list \<Rightarrow> byte list" where
  "dirent inum name = [ucast inum, ucast (drop_bit 8 inum)] @ strncpy (cstring name) (int DIRSIZ)"

definition dirlink :: "nat \<Rightarrow> byte list \<Rightarrow> uint \<Rightarrow> ('z kfs_scheme, int) prog" where
  "dirlink dp name inum = kbind (dirlookup dp name) (\<lambda>r. case r of
       Some (ip, _) \<Rightarrow> kthen (iput ip) (kreturn (-1))
     | None \<Rightarrow> kbind (kget (\<lambda>s. i_size (inodes s dp))) (\<lambda>sz.
         kbind (dirlink_slot dp (16 * ((unat sz + 15) div 16)) (dirent_offs sz)) (\<lambda>off.
         kbind (writei (\<lambda>_. None) dp (dirent (ucast inum) name) (of_nat off) 16) (\<lambda>n.
         if n \<noteq> 16 then panic ''dirlink'' else kreturn 0))))"

section \<open>Paths\<close>

text \<open>A path is its characters; the end of the list is the terminating NUL.\<close>

definition SLASH :: byte where "SLASH = 0x2F"

definition skipelem :: "byte list \<Rightarrow> (byte list \<times> byte list) option" where
  "skipelem path = (case dropWhile (\<lambda>c. c = SLASH) path of
       [] \<Rightarrow> None
     | s \<Rightarrow> Some (dropWhile (\<lambda>c. c = SLASH) (dropWhile (\<lambda>c. c \<noteq> SLASH) s),
         take DIRSIZ (takeWhile (\<lambda>c. c \<noteq> SLASH) s)))"

lemma skipelem_shorter:
  assumes "skipelem path = Some (rest, name)"
  shows "length rest < length path"
proof (cases "dropWhile (\<lambda>c. c = SLASH) path")
  case Nil
  with assms show ?thesis by (simp add: skipelem_def)
next
  case (Cons c s)
  then have "c \<noteq> SLASH" using hd_dropWhile [of "\<lambda>c. c = SLASH" path] by auto
  then have "rest = dropWhile (\<lambda>c. c = SLASH) (dropWhile (\<lambda>c. c \<noteq> SLASH) s)"
    using assms Cons by (simp add: skipelem_def)
  then have "length rest \<le> length s"
    using length_dropWhile_le [of "\<lambda>c. c = SLASH" "dropWhile (\<lambda>c. c \<noteq> SLASH) s"]
      length_dropWhile_le [of "\<lambda>c. c \<noteq> SLASH" s] by simp
  moreover have "length (c # s) \<le> length path"
    using length_dropWhile_le [of "\<lambda>c. c = SLASH" path] Cons by simp
  ultimately show ?thesis by simp
qed

function namex_loop :: "bool \<Rightarrow> byte list \<Rightarrow> nat \<Rightarrow> ('z kfs_scheme, (nat \<times> byte list) option) prog" where
  "namex_loop parent path ip = (case skipelem path of
       None \<Rightarrow> if parent then kthen (iput ip) (kreturn None) else kreturn (Some (ip, []))
     | Some (rest, name) \<Rightarrow>
         kthen (ilock (Some ip)) (kbind (kget (\<lambda>s. i_type (inodes s ip))) (\<lambda>ty.
         if ty \<noteq> T_DIR then kthen (iunlockput ip) (kreturn None) else
         if parent \<and> rest = [] then kthen (iunlock (Some ip)) (kreturn (Some (ip, name))) else
         kbind (dirlookup ip name) (\<lambda>r. case r of
           None \<Rightarrow> kthen (iunlockput ip) (kreturn None)
         | Some (nxt, _) \<Rightarrow> kthen (iunlockput ip) (namex_loop parent rest nxt)))))"
  by pat_completeness auto
termination
  by (relation "measure (\<lambda>(_, path, _). length path)") (auto dest: skipelem_shorter)

definition namex :: "bool \<Rightarrow> byte list \<Rightarrow> ('z kfs_scheme, (nat \<times> byte list) option) prog" where
  "namex parent path =
     kbind (if path \<noteq> [] \<and> hd path = SLASH then iget ROOTDEV ROOTINO
            else kbind myproc (\<lambda>p. case p of None \<Rightarrow> kfault ''myproc''
              | Some i \<Rightarrow> kbind (kget (\<lambda>s. p_cwd (ptable s i))) (\<lambda>c. case c of
                  None \<Rightarrow> kfault ''cwd'' | Some d \<Rightarrow> idup d)))
     (namex_loop parent path)"

definition namei :: "byte list \<Rightarrow> ('z kfs_scheme, nat option) prog" where
  "namei path = kbind (namex False path) (\<lambda>r. kreturn (map_option fst r))"

definition nameiparent :: "byte list \<Rightarrow> ('z kfs_scheme, (nat \<times> byte list) option) prog" where
  "nameiparent path = namex True path"

end
