(* ===== verification/TxnLayer.thy ===== *)
theory TxnLayer
  imports Prelude
begin

text \<open>
  The contract between the log and the file system (fs.c). Inside an operation, blocks are
  read, changed with log\_write() and released; \<open>tx s v k m r\<close> says that in state \<open>s\<close> the
  current contents of the blocks are \<open>v\<close>, the caller holds the blocks \<open>k\<close>, the transaction has
  room for \<open>m\<close> more blocks, and \<open>r\<close> is everything the block layer and the log leave alone.
\<close>

locale txn_layer =
  fixes tx :: "'s \<Rightarrow> (uint \<Rightarrow> block) \<Rightarrow> uint set \<Rightarrow> nat \<Rightarrow> 'r \<Rightarrow> bool"
    and holds :: "'s \<Rightarrow> nat \<Rightarrow> uint \<Rightarrow> bool"
    and in_range :: "'r \<Rightarrow> uint \<Rightarrow> bool"
    and home :: "'r \<Rightarrow> uint \<Rightarrow> bool"
    and blksize :: nat
    and rd :: "uint \<Rightarrow> ('s, nat) prog"
    and dat :: "nat \<Rightarrow> ('s, block) prog"
    and st :: "nat \<Rightarrow> (block \<Rightarrow> block) \<Rightarrow> ('s, unit) prog"
    and lw :: "nat \<Rightarrow> ('s, unit) prog"
    and rel :: "nat \<Rightarrow> ('s, unit) prog"
  assumes rd_law:
    "\<lbrakk>tx s v k m r; in_range r a; a \<notin> k; card k \<le> m\<rbrakk> \<Longrightarrow>
     wp (rd a) (\<lambda>b t. tx t v (insert a k) m r \<and> holds t b a \<and> (\<forall>b' x. holds s b' x \<longrightarrow> holds t b' x)) s"
    and dat_law: "tx s v k m r \<Longrightarrow> holds s b a \<Longrightarrow> dat b s = Done (v a) s"
    and update_law:
    "\<lbrakk>tx s v k (Suc m) r; holds s b a; home r a; length (f (v a)) = blksize\<rbrakk> \<Longrightarrow>
     wp (kthen (st b f) (lw b)) (\<lambda>_ t. tx t (v(a := f (v a))) k m r \<and> (\<forall>b' x. holds s b' x \<longrightarrow> holds t b' x)) s"
    and rel_law:
    "\<lbrakk>tx s v k m r; holds s b a\<rbrakk> \<Longrightarrow>
     wp (rel b) (\<lambda>_ t. tx t v (k - {a}) m r \<and> (\<forall>b' x. holds s b' x \<and> x \<noteq> a \<longrightarrow> holds t b' x)) s"
    and home_range: "home r a \<Longrightarrow> in_range r a"
    and size_law: "tx s v k m r \<Longrightarrow> length (v a) = blksize"
    and less_room: "tx s v k m r \<Longrightarrow> m' \<le> m \<Longrightarrow> tx s v k m' r"
begin

lemma rd_rule:
  assumes "tx s v k m r" and "in_range r a" and "a \<notin> k" and "card k \<le> m"
    and "\<And>b t. tx t v (insert a k) m r \<Longrightarrow> holds t b a \<Longrightarrow>
      (\<And>b' x. holds s b' x \<Longrightarrow> holds t b' x) \<Longrightarrow> Q b t"
  shows "wp (rd a) Q s"
  by (rule wp_mono [OF rd_law [OF assms(1-4)]]) (use assms(5) in blast)

lemma dat_rule: "tx s v k m r \<Longrightarrow> holds s b a \<Longrightarrow> Q (v a) s \<Longrightarrow> wp (dat b) Q s"
  by (simp add: wp_def dat_law)

lemma update_rule:
  assumes "tx s v k (Suc m) r" and "holds s b a" and "home r a" and "length (f (v a)) = blksize"
    and "\<And>t. tx t (v(a := f (v a))) k m r \<Longrightarrow> (\<And>b' x. holds s b' x \<Longrightarrow> holds t b' x) \<Longrightarrow> Q () t"
  shows "wp (st b f) (\<lambda>_. wp (lw b) Q) s"
proof -
  have "wp (kthen (st b f) (lw b)) Q s"
    by (rule wp_mono [OF update_law [of s v k m r b a f, OF assms(1-4)]]) (use assms(5) in auto)
  then show ?thesis by simp
qed

lemma rel_rule:
  assumes "tx s v k m r" and "holds s b a"
    and "\<And>t. tx t v (k - {a}) m r \<Longrightarrow> (\<And>b' x. holds s b' x \<Longrightarrow> x \<noteq> a \<Longrightarrow> holds t b' x) \<Longrightarrow> Q () t"
  shows "wp (rel b) Q s"
  by (rule wp_mono [OF rel_law [OF assms(1,2)]]) (use assms(3) in auto)

text \<open>Read a block and give it back, and read, change, log and give back.\<close>

lemma look:
  assumes s: "tx s v k m r" and "in_range r a" and a: "a \<notin> k" and "card k \<le> m"
    and Q: "\<And>t. tx t v k m r \<Longrightarrow> (\<And>b' x. holds s b' x \<Longrightarrow> x \<noteq> a \<Longrightarrow> holds t b' x) \<Longrightarrow> Q (g (v a)) t"
  shows "wp (kbind (rd a) (\<lambda>b. kbind (dat b) (\<lambda>x. kthen (rel b) (kreturn (g x))))) Q s"
  unfolding wp_kbind wp_kthen
proof (rule rd_rule [OF assms(1-4)])
  fix b t assume t: "tx t v (insert a k) m r" "holds t b a" "\<And>b' x. holds s b' x \<Longrightarrow> holds t b' x"
  show "wp (dat b) (\<lambda>x. wp (rel b) (\<lambda>_. wp (kreturn (g x)) Q)) t"
  proof (rule dat_rule [OF t(1,2)], rule rel_rule [OF t(1,2)])
    fix u assume u: "tx u v (insert a k - {a}) m r" "\<And>b' x. holds t b' x \<Longrightarrow> x \<noteq> a \<Longrightarrow> holds u b' x"
    then have "tx u v k m r" using a by simp
    then show "wp (kreturn (g (v a))) Q u" using Q t(3) u(2) by auto
  qed
qed

lemma change:
  assumes s: "tx s v k (Suc m) r" and h: "home r a" and a: "a \<notin> k" and "card k \<le> Suc m"
    and len: "length (f (v a)) = blksize"
    and Q: "\<And>t. tx t (v(a := f (v a))) k m r \<Longrightarrow> (\<And>b' x. holds s b' x \<Longrightarrow> x \<noteq> a \<Longrightarrow> holds t b' x) \<Longrightarrow> Q () t"
  shows "wp (kbind (rd a) (\<lambda>b. kthen (st b f) (kthen (lw b) (rel b)))) Q s"
  unfolding wp_kbind wp_kthen
proof (rule rd_rule [OF s home_range [OF h] a assms(4)])
  fix b t assume t: "tx t v (insert a k) (Suc m) r" "holds t b a" "\<And>b' x. holds s b' x \<Longrightarrow> holds t b' x"
  show "wp (st b f) (\<lambda>_. wp (lw b) (\<lambda>_. wp (rel b) Q)) t"
  proof (rule update_rule [where f = f, OF t(1,2) h len])
    fix u assume u: "tx u (v(a := f (v a))) (insert a k) m r" "\<And>b' x. holds t b' x \<Longrightarrow> holds u b' x"
    show "wp (rel b) Q u"
    proof (rule rel_rule [OF u(1) u(2) [OF t(2)]])
      fix w assume w: "tx w (v(a := f (v a))) (insert a k - {a}) m r" "\<And>b' x. holds u b' x \<Longrightarrow> x \<noteq> a \<Longrightarrow> holds w b' x"
      then have "tx w (v(a := f (v a))) k m r" using a by simp
      then show "Q () w" using Q w(2) u(2) t(3) by auto
    qed
  qed
qed

end

end
