(* ===== verification/Txn.thy ===== *)
theory Txn
  imports LogSpec TxnLayer
begin

text \<open>
  The log provides the transaction layer: the buffer operations of bio.c together with
  log\_write() satisfy the contract the file system relies on.
\<close>

definition no_head :: logheader where
  "no_head = \<lparr>lh_n = 0, lh_block = (\<lambda>_. 0)\<rparr>"

text \<open>Everything an operation on blocks leaves alone inside a transaction, the disk included.\<close>

record ('k, 'z) txrest =
  tr_disk :: "uint \<Rightarrow> block"
  tr_trace :: "(uint \<times> block) list"
  tr_log :: klogdata
  tr_size :: uint
  tr_cpu :: "nat option"
  tr_proc :: 'k
  tr_more :: 'z

definition txrest :: "'z klog_scheme \<Rightarrow> (uint \<times> nat option \<times> (nat \<Rightarrow> proc), 'z) txrest" where
  "txrest s = \<lparr>tr_disk = disk s, tr_trace = dtrace s, tr_log = (the_log s)\<lparr>l_lh := no_head\<rparr>,
     tr_size = disksize s, tr_cpu = cpu_proc s,
     tr_proc = (nextpid s, initproc s, (\<lambda>i. (ptable s i)\<lparr>p_state := UNUSED\<rparr>)), tr_more = klog.more s\<rparr>"

definition tx :: "'z klog_scheme \<Rightarrow> (uint \<Rightarrow> block) \<Rightarrow> uint set \<Rightarrow> nat \<Rightarrow>
    (uint \<times> nat option \<times> (nat \<Rightarrow> proc), 'z) txrest \<Rightarrow> bool" where
  "tx s v k m r \<longleftrightarrow> log_inv s \<and> cview s = v \<and> lockedblks s = k \<and>
     (\<forall>a. a \<in> dirtied s \<or> cview s a = disk s a) \<and> 1 \<le> l_outstanding (the_log s) \<and>
     int m \<le> l_size (the_log s) - 1 - lh_n (l_lh (the_log s)) \<and> txrest s = r"

definition tx_range :: "('k, 'z) txrest \<Rightarrow> uint \<Rightarrow> bool" where
  "tx_range r a \<longleftrightarrow> a < tr_size r"

definition tx_home :: "('k, 'z) txrest \<Rightarrow> uint \<Rightarrow> bool" where
  "tx_home r a \<longleftrightarrow> a < tr_size r \<and> a \<notin> log_area (tr_log r)"

lemma txrest_brest:
  assumes "brest t = brest s" and "disk t = disk s" and "dtrace t = dtrace s"
  shows "txrest t = txrest s"
proof -
  have "the_log t = the_log s" "klog.more t = klog.more s"
    using assms(1) brest_log by (cases s, cases t, simp add: brest_def)+
  with assms show ?thesis by (simp add: txrest_def brest_def)
qed

lemma tx_brest:
  assumes "tx s v k m r" and "brest t = brest s" and "disk t = disk s" and "dtrace t = dtrace s"
    and "bc_inv t" and "cview t = v'" and "dirtied t = dirtied s" and "lockedblks t = k'"
    and "\<forall>a. a \<in> dirtied s \<or> v' a = disk s a"
  shows "tx t v' k' m r"
  using assms txrest_brest [OF assms(2-4)] brest_log [OF assms(2)] brest_size [OF assms(2)]
  by (simp add: tx_def log_inv_def)

lemma card_dirtied:
  assumes "log_inv s"
  shows "int (card (dirtied s)) \<le> lh_n (l_lh (the_log s))" "finite (dirtied s)"
proof -
  let ?l = "the_log s"
  have e: "dirtied s = lh_block (l_lh ?l) ` {..<nat (lh_n (l_lh ?l))}" and h: "0 \<le> lh_n (l_lh ?l)"
    using assms by (auto simp: log_inv_def entries_def head_ok_def)
  then show "int (card (dirtied s)) \<le> lh_n (l_lh ?l)"
    using card_image_le [of "{..<nat (lh_n (l_lh ?l))}" "lh_block (l_lh ?l)"] by simp
  show "finite (dirtied s)" unfolding e by simp
qed

lemma tx_rd_law:
  assumes s: "tx s v k m r" and r: "tx_range r a" and a: "a \<notin> k" and c: "card k \<le> m"
  shows "wp (bread ROOTDEV a) (\<lambda>b t. tx t v (insert a k) m r \<and> held t b a \<and>
    (\<forall>b' x. held s b' x \<longrightarrow> held t b' x)) s"
proof -
  have li: "log_inv s" and k: "lockedblks s = k" and inv: "bc_inv s" and cv: "cview s = v"
    using s by (auto simp: tx_def log_inv_def)
  have "int (card (k \<union> dirtied s)) \<le> int (card k) + lh_n (l_lh (the_log s))"
    using card_Un_le [of k "dirtied s"] card_dirtied(1) [OF li] by linarith
  also have "\<dots> < int NBUF"
    using s c li unfolding tx_def log_inv_def log_ok_def by linarith
  finally have room: "card (lockedblks s \<union> dirtied s) < NBUF" using k by (simp del: sizes)
  have "brange (brest s) a" using r s by (auto simp: tx_range_def tx_def txrest_def)
  from bread_law [OF inv this, unfolded k, OF a disjI2 [OF room [unfolded k]]]
  show ?thesis
    by (rule wp_mono) (use s cv tx_brest [OF s, where v' = v and k' = "insert a k"] in \<open>auto simp: tx_def\<close>)
qed

lemma log_write_frame:
  assumes i: "log_inv s" and h: "held s b bno" and a: "bno \<notin> log_area (the_log s)"
    and n: "lh_n (l_lh (the_log s)) < l_size (the_log s) - 1" "1 \<le> l_outstanding (the_log s)"
  shows "\<exists>t. log_write b s = Done () t \<and> log_inv t \<and> lockedblks t = lockedblks s \<and>
    dirtied t = insert bno (dirtied s) \<and> cview t = cview s \<and> disk t = disk s \<and>
    lh_n (l_lh (the_log t)) \<le> lh_n (l_lh (the_log s)) + 1 \<and> txrest t = txrest s \<and>
    l_outstanding (the_log t) = l_outstanding (the_log s) \<and> l_size (the_log t) = l_size (the_log s) \<and>
    (\<forall>b' x. held t b' x = held s b' x)"
proof -
  let ?s = "set_lh (log_add bno) s"
  let ?t = "upd_buf b (\<lambda>x. x\<lparr>b_flags := b_flags x OR B_DIRTY\<rparr>) ?s"
  obtain t where t: "log_write b s = Done () t" "log_inv t" "lockedblks t = lockedblks s"
    "dirtied t = insert bno (dirtied s)" "cview t = cview s" "disk t = disk s"
    "lh_n (l_lh (the_log t)) = lh_n (l_lh (the_log s)) + (if bno \<in> entries (the_log s) then 0 else 1)"
    using log_write_law [OF assms] by blast
  have "lh_n (l_lh (the_log s)) < int LOGSIZE" using i n(1) by (auto simp: log_inv_def log_ok_def)
  moreover have "b_blockno (bufs s b) = bno" using h by (simp add: held_def cached_def)
  ultimately have te: "t = ?t" using log_write_eq [of s b bno] n t(1) by simp
  have inv: "bc_inv ?s" "held ?s b bno" using i h by (simp_all add: log_inv_def set_lh_def)
  have ht: "held t b' x = held s b' x" for b' x
    unfolding te dirty_held(5) [OF inv] by (simp add: set_lh_def)
  have "txrest t = txrest s" "l_outstanding (the_log t) = l_outstanding (the_log s)" "l_size (the_log t) = l_size (the_log s)"
    by (simp_all add: te txrest_def set_lh_def upd_log_def upd_buf_def)
  with t ht show ?thesis by auto
qed

lemma tx_update_law:
  assumes s: "tx s v k (Suc m) r" and h: "held s b a" and home: "tx_home r a" and len: "length (f (v a)) = BSIZE"
  shows "wp (kthen (set_data b f) (log_write b)) (\<lambda>_ t. tx t (v(a := f (v a))) k m r \<and>
    (\<forall>b' x. held s b' x \<longrightarrow> held t b' x)) s"
proof -
  have li: "log_inv s" and inv: "bc_inv s" and cv: "cview s = v" and rr: "txrest s = r"
    using s by (auto simp: tx_def log_inv_def)
  have "wp (set_data b f) (\<lambda>_ u. wp (log_write b) (\<lambda>_ t. tx t (v(a := f (v a))) k m r \<and>
    (\<forall>b' x. held s b' x \<longrightarrow> held t b' x)) u) s"
  proof (rule wp_mono [OF set_data_law [of s b a f, OF inv h len [folded cv]]], elim conjE)
    fix u assume u: "bc_inv u" "cview u = (cview s)(a := f (cview s a))" "disk u = disk s" "dtrace u = dtrace s"
      "dirtied u = dirtied s" "lockedblks u = lockedblks s" "brest u = brest s" "\<forall>b' x. held s b' x \<longrightarrow> held u b' x"
    note lg = brest_log [OF u(7)] brest_size [OF u(7)] and tr = txrest_brest [OF u(7,3,4)]
    have liu: "log_inv u" using li u lg by (simp add: log_inv_def)
    have ar: "a \<notin> log_area (the_log u)" using home rr lg by (auto simp: tx_home_def txrest_def)
    have n: "lh_n (l_lh (the_log u)) < l_size (the_log u) - 1" "1 \<le> l_outstanding (the_log u)"
      using s lg by (auto simp: tx_def)
    obtain t where t: "log_write b u = Done () t" "log_inv t" "lockedblks t = lockedblks u"
      "dirtied t = insert a (dirtied u)" "cview t = cview u" "disk t = disk u"
      "lh_n (l_lh (the_log t)) \<le> lh_n (l_lh (the_log u)) + 1" and tx: "txrest t = txrest u"
      "l_outstanding (the_log t) = l_outstanding (the_log u)" "l_size (the_log t) = l_size (the_log u)"
      and ht: "\<And>b' x. held t b' x = held u b' x"
      using log_write_frame [OF liu u(8) [rule_format, OF h] ar n] by blast
    have "tx t (v(a := f (v a))) k m r"
      using s t tx u lg tr cv rr unfolding tx_def by auto
    then show "wp (log_write b) (\<lambda>_ t. tx t (v(a := f (v a))) k m r \<and> (\<forall>b' x. held s b' x \<longrightarrow> held t b' x)) u"
      using t(1) ht u(8) by (simp add: wp_def)
  qed
  then show ?thesis by simp
qed

lemma tx_rel_law:
  assumes s: "tx s v k m r" and h: "held s b a"
  shows "wp (brelse b) (\<lambda>_ t. tx t v (k - {a}) m r \<and> (\<forall>b' x. held s b' x \<and> x \<noteq> a \<longrightarrow> held t b' x)) s"
proof -
  have inv: "bc_inv s" and c: "a \<in> dirtied s \<or> cview s a = disk s a" and k: "lockedblks s = k" and cv: "cview s = v"
    using s by (auto simp: tx_def log_inv_def)
  show ?thesis
    by (rule wp_mono [OF brelse_law [OF inv h c]])
      (use s cv k tx_brest [OF s, where v' = v and k' = "k - {a}"] in \<open>auto simp: tx_def\<close>)
qed

interpretation tl: txn_layer tx held tx_range tx_home BSIZE "bread ROOTDEV" buf_data set_data log_write brelse
proof (unfold_locales, goal_cases)
  case (1 s v k m r a) then show ?case by (rule tx_rd_law)
next
  case (2 s v k m r b a) then show ?case using buf_data_law [of s b a] by (auto simp: tx_def log_inv_def)
next
  case (3 s v k m r b a f) then show ?case by (rule tx_update_law)
next
  case (4 s v k m r b a) then show ?case by (rule tx_rel_law)
next
  case (5 r a) then show ?case by (simp add: tx_home_def tx_range_def)
next
  case (6 s v k m r a) then show ?case using length_cview by (auto simp: tx_def log_inv_def simp del: sizes)
next
  case (7 s v k m r m') then show ?case by (auto simp: tx_def)
qed

end
