(* ===== verification/FsAlloc.thy ===== *)
theory FsAlloc
  imports Fs Txn
begin

text \<open>
  The free map: balloc() and bfree() of fs.c over the transaction layer, described by the set
  of blocks in use.
\<close>

section \<open>The file system state inside a transaction\<close>

lemmas fs_sizes = NDIRECT_def NINDIRECT_def MAXFILE_def IPB_def BPB_def

lemma txrest_fs:
  fixes s t :: "'z kfs_scheme"
  assumes "txrest t = txrest s"
  shows "the_sb t = the_sb s" "inodes t = inodes s" "disksize t = disksize s" "kfs.more t = kfs.more s"
    "cpu_proc t = cpu_proc s" "txrest (upd_inode i f t) = txrest (upd_inode i f s)"
  using assms by (cases s, cases t, simp add: txrest_def upd_inode_def)+

lemma upd_inode_obs [simp]:
  "bc_inv (upd_inode i f s) = bc_inv s" "cview (upd_inode i f s) = cview s" "disk (upd_inode i f s) = disk s"
  "dirtied (upd_inode i f s) = dirtied s" "lockedblks (upd_inode i f s) = lockedblks s"
  "held (upd_inode i f s) b x = held s b x" "disksize (upd_inode i f s) = disksize s"
  "the_log (upd_inode i f s) = the_log s" "the_sb (upd_inode i f s) = the_sb s"
  "inodes (upd_inode i f s) = (inodes s)(i := f (inodes s i))" "log_inv (upd_inode i f s) = log_inv s"
  "cpu_proc (upd_inode i f s) = cpu_proc s" "ptable (upd_inode i f s) = ptable s"
proof -
  show b: "bc_inv (upd_inode i f s) = bc_inv s" and d: "dirtied (upd_inode i f s) = dirtied s"
    and l: "the_log (upd_inode i f s) = the_log s" and z: "disksize (upd_inode i f s) = disksize s"
    by (simp_all add: upd_inode_def bc_inv_def cached_def dirtied_def dirty_def locked_def buf_ok_def
        nexts_def prevs_def)
  show "log_inv (upd_inode i f s) = log_inv s" by (simp add: log_inv_def b d l z)
  show "cview (upd_inode i f s) = cview s"
    by (rule ext) (simp add: cview_def upd_inode_def cached_def split: option.split)
qed (simp_all add: upd_inode_def cached_def lockedblks_def locked_def held_def mylock_def mypid_def)

lemma tx_upd_inode:
  "tx t v k m (txrest s) \<Longrightarrow> tx (upd_inode i f t) v k m (txrest (upd_inode i f s))"
  using txrest_fs(6) by (auto simp: tx_def)

lemma tx_fs:
  assumes "tx t v k m (txrest s)"
  shows "the_sb t = the_sb s" "inodes t = inodes s" "txrest t = txrest s"
  using assms txrest_fs(1,2) by (auto simp: tx_def)

lemma tx_ref: "tx t v k m (txrest s) \<Longrightarrow> tx t v k m (txrest t)"
  by (auto simp: tx_def)

section \<open>Bits of the free map\<close>

lemma map_bit_iff: "map_bit d bi \<longleftrightarrow> bit (d ! (bi div 8)) (bi mod 8)"
  by (simp add: map_bit_def push_bit_of_1 and_exp_eq_0_iff_not_bit)

lemma length_map [simp]: "length (set_map bi d) = length d" "length (clear_map bi d) = length d"
  by (simp_all add: set_map_def clear_map_def)

lemma bit_or_one: "n < 8 \<Longrightarrow> bit (x OR 2 ^ m) n \<longleftrightarrow> bit x n \<or> n = m" for x :: byte
  by (auto simp: bit_simps)

lemma bit_and_not_one: "n < 8 \<Longrightarrow> bit (x AND NOT (2 ^ m)) n \<longleftrightarrow> bit x n \<and> n \<noteq> m" for x :: byte
  by (auto simp: bit_simps)

lemma div_mod_8_eq: "(i :: nat) div 8 = j div 8 \<Longrightarrow> i mod 8 = j mod 8 \<longleftrightarrow> i = j"
  by (metis div_mult_mod_eq)

lemma map_bit_set:
  assumes "length d = BSIZE" and "bi < BPB" and "bj < BPB"
  shows "map_bit (set_map bi d) bj \<longleftrightarrow> bj = bi \<or> map_bit d bj"
proof (cases "bj div 8 = bi div 8")
  case True
  moreover have "bi div 8 < length d" using assms by (simp add: BPB_def less_mult_imp_div_less)
  ultimately show ?thesis using div_mod_8_eq [OF True]
    by (auto simp: map_bit_iff set_map_def bit_or_one)
next
  case False
  then show ?thesis by (auto simp: map_bit_iff set_map_def)
qed

lemma map_bit_clear:
  assumes "length d = BSIZE" and "bi < BPB" and "bj < BPB"
  shows "map_bit (clear_map bi d) bj \<longleftrightarrow> bj \<noteq> bi \<and> map_bit d bj"
proof (cases "bj div 8 = bi div 8")
  case True
  moreover have "bi div 8 < length d" using assms by (simp add: BPB_def less_mult_imp_div_less)
  ultimately show ?thesis using div_mod_8_eq [OF True]
    by (auto simp: map_bit_iff clear_map_def bit_and_not_one)
next
  case False
  then show ?thesis by (auto simp: map_bit_iff clear_map_def)
qed

section \<open>The layout of the disk\<close>

text \<open>
  What mkfs guarantees of a superblock, with \<open>ds\<close> the first data block: log, inodes, free map
  and data follow one another and fit the disk.
\<close>

definition layout_ok :: "superblock \<Rightarrow> nat \<Rightarrow> uint \<Rightarrow> klogdata \<Rightarrow> bool" where
  "layout_ok sb ds sz l \<longleftrightarrow>
     unat (l_start l) + nat (l_size l) \<le> unat (sb_inodestart sb) \<and>
     unat (sb_inodestart sb) + unat (sb_ninodes sb) div IPB < unat (sb_bmapstart sb) \<and>
     unat (sb_bmapstart sb) + unat (sb_size sb) div BPB < ds \<and>
     ds \<le> unat (sb_size sb) \<and> unat (sb_size sb) \<le> unat sz"

definition blk_used :: "superblock \<Rightarrow> (uint \<Rightarrow> block) \<Rightarrow> uint \<Rightarrow> bool" where
  "blk_used sb v b \<longleftrightarrow> map_bit (v (BBLOCK b sb)) (unat b mod BPB)"

definition in_fs :: "superblock \<Rightarrow> uint \<Rightarrow> bool" where
  "in_fs sb b \<longleftrightarrow> unat b < unat (sb_size sb)"

definition free_blocks :: "superblock \<Rightarrow> (uint \<Rightarrow> block) \<Rightarrow> uint set" where
  "free_blocks sb v = {b. in_fs sb b \<and> \<not> blk_used sb v b}"

text \<open>mkfs marks everything below the first data block as in use.\<close>

definition meta_used :: "superblock \<Rightarrow> nat \<Rightarrow> (uint \<Rightarrow> block) \<Rightarrow> bool" where
  "meta_used sb ds v \<longleftrightarrow> (\<forall>b. unat b < ds \<longrightarrow> blk_used sb v b)"

lemma unat_div_const: "n < 2 ^ 32 \<Longrightarrow> unat (b div of_nat n) = unat b div n" for b :: uint
  by (simp add: unat_div_distrib unat_of_nat_small)

lemma unat_BBLOCK:
  assumes "layout_ok sb ds sz l" and "in_fs sb b"
  shows "unat (BBLOCK b sb) = unat (sb_bmapstart sb) + unat b div BPB"
    "unat (BBLOCK b sb) < ds" "BBLOCK b sb < sz" "BBLOCK b sb \<notin> log_area l"
    "unat (sb_bmapstart sb) \<le> unat (BBLOCK b sb)"
proof -
  have le: "unat b div BPB \<le> unat (sb_size sb) div BPB"
    using assms(2) by (intro div_le_mono) (simp add: in_fs_def)
  have "unat (sb_bmapstart sb) + unat b div BPB < 2 ^ 32"
    using assms(1) le unat_bound [of sz] by (simp add: layout_ok_def)
  moreover have "unat (b div of_nat BPB) = unat b div BPB"
    by (rule unat_div_const) (simp add: BPB_def)
  ultimately show u: "unat (BBLOCK b sb) = unat (sb_bmapstart sb) + unat b div BPB"
    by (simp add: BBLOCK_def unat_plus_if')
  then show "unat (BBLOCK b sb) < ds" "BBLOCK b sb < sz" "unat (sb_bmapstart sb) \<le> unat (BBLOCK b sb)"
    using assms(1) le by (simp_all add: layout_ok_def word_less_nat_alt)
  show "BBLOCK b sb \<notin> log_area l" using u assms(1) by (simp add: layout_ok_def log_area_def)
qed

lemma BBLOCK_eq_iff:
  assumes "layout_ok sb ds sz l" and "in_fs sb b" and "in_fs sb c"
  shows "BBLOCK b sb = BBLOCK c sb \<and> unat b mod BPB = unat c mod BPB \<longleftrightarrow> b = c"
proof
  assume a: "BBLOCK b sb = BBLOCK c sb \<and> unat b mod BPB = unat c mod BPB"
  then have "unat b div BPB = unat c div BPB"
    using unat_BBLOCK(1) [OF assms(1,2)] unat_BBLOCK(1) [OF assms(1,3)] by simp
  with a have "unat b = unat c" by (metis div_mult_mod_eq)
  then show "b = c" by (simp add: word_unat_eq_iff)
qed simp

lemma tx_home_iff [simp]:
  "tx_home (txrest s) a \<longleftrightarrow> a < disksize s \<and> a \<notin> log_area (the_log s)"
  "tx_range (txrest s) a \<longleftrightarrow> a < disksize s"
  by (simp_all add: tx_home_def tx_range_def txrest_def)

lemma data_home:
  assumes "layout_ok sb ds sz l" and "ds \<le> unat b" and "in_fs sb b"
  shows "b < sz" "b \<notin> log_area l"
  using assms by (auto simp: layout_ok_def in_fs_def log_area_def word_less_nat_alt)

lemma wp_bzero:
  assumes "tx s v k (Suc m) (txrest s)" and "a < disksize s" and "a \<notin> log_area (the_log s)" and "a \<notin> k" and "card k \<le> Suc m"
    and "\<And>t. tx t (v(a := replicate BSIZE 0)) k m (txrest s) \<Longrightarrow>
      (\<And>b' x. held s b' x \<Longrightarrow> x \<noteq> a \<Longrightarrow> held t b' x) \<Longrightarrow> Q () t"
  shows "wp (bzero ROOTDEV a) Q s"
  unfolding bzero_def
  by (rule tl.change [where f = "\<lambda>_. replicate BSIZE 0", OF assms(1)]) (use assms in auto)

section \<open>balloc()\<close>

text \<open>The view after block \<open>b\<close> has been marked and zeroed.\<close>

definition alloc_view :: "superblock \<Rightarrow> uint \<Rightarrow> (uint \<Rightarrow> block) \<Rightarrow> uint \<Rightarrow> block" where
  "alloc_view sb b v = v(BBLOCK b sb := set_map (unat b mod BPB) (v (BBLOCK b sb)), b := replicate BSIZE 0)"

lemma BPB_pos [simp]: "0 < BPB"
  by (simp add: BPB_def)

lemma BPB_small: "BPB < 2 ^ 32"
  by (simp add: BPB_def)

lemma map_block_of:
  assumes "b mod BPB = 0" and "bi < BPB" and "b + bi < 2 ^ 32"
  shows "BBLOCK (of_nat (b + bi)) sb = BBLOCK (of_nat b) sb" "unat (of_nat (b + bi) :: uint) = b + bi"
    "(b + bi) mod BPB = bi"
proof -
  show u: "unat (of_nat (b + bi) :: uint) = b + bi" using assms(3) by (rule unat_of_nat_small)
  have "b < 2 ^ 32" using assms(3) by simp
  then have ub: "unat (of_nat b :: uint) = b" by (rule unat_of_nat_small)
  have "(b + bi) div BPB = b div BPB" using assms(1,2) by (auto simp: div_add1_eq)
  then have "(of_nat (b + bi) :: uint) div of_nat BPB = of_nat b div of_nat BPB"
    unfolding word_unat_eq_iff unat_div_const [OF BPB_small] u ub .
  then show "BBLOCK (of_nat (b + bi)) sb = BBLOCK (of_nat b) sb" by (simp add: BBLOCK_def)
  show "(b + bi) mod BPB = bi" using assms(1,2) by (metis mod_add_left_eq add_0 mod_less)
qed

lemma wp_balloc_loop:
  fixes s :: "'z kfs_scheme"
  defines "sb \<equiv> the_sb s"
  assumes tx: "tx t v k (Suc (Suc m)) (txrest s)" and k: "card k \<le> Suc m"
    and lay: "layout_ok sb ds (disksize s) (the_log s)" and meta: "meta_used sb ds v"
    and kok: "\<forall>a\<in>k. ds \<le> unat a \<and> in_fs sb a \<and> blk_used sb v a"
    and bs: "\<forall>b\<in>set bs. b mod BPB = 0 \<and> b < unat (sb_size sb)"
    and free: "\<exists>c. in_fs sb c \<and> \<not> blk_used sb v c \<and> unat c - unat c mod BPB \<in> set bs"
    and Q: "\<And>b u. b \<in> free_blocks sb v \<Longrightarrow> ds \<le> unat b \<Longrightarrow> tx u (alloc_view sb b v) k m (txrest s) \<Longrightarrow>
      (\<And>b' x. held t b' x \<Longrightarrow> ds \<le> unat x \<Longrightarrow> x \<noteq> b \<Longrightarrow> held u b' x) \<Longrightarrow> Q b u"
  shows "wp (balloc_loop ROOTDEV bs) Q t"
  using tx bs free Q
proof (induction bs arbitrary: t)
  case Nil
  then show ?case by simp
next
  case (Cons b bs)
  let ?B = "BBLOCK (of_nat b) sb" and ?P = "\<lambda>bi. b + bi < unat (sb_size sb) \<and> \<not> map_bit (v (BBLOCK (of_nat b) sb)) bi"
  have sbt: "the_sb t = sb" unfolding sb_def by (rule tx_fs(1) [OF Cons.prems(1)])
  have b: "b mod BPB = 0" "b < unat (sb_size sb)" using Cons.prems(2) by auto
  have b32: "b + bi < 2 ^ 32" if "b + bi < unat (sb_size sb)" for bi using that unat_bound [of "sb_size sb"] by simp
  have fsb: "in_fs sb (of_nat b)" using map_block_of(2) [OF b(1) BPB_pos b32] b(2) by (simp add: in_fs_def)
  note B = unat_BBLOCK [OF lay fsb]
  have neB: "x \<noteq> ?B" if "ds \<le> unat x" for x using that B(2) by auto
  have Bk: "?B \<notin> k" using kok neB by blast
  have blk: "BBLOCK (of_nat (b + bi)) sb = ?B" "unat (of_nat (b + bi) :: uint) = b + bi" "(b + bi) mod BPB = bi"
    if "bi < BPB" "b + bi < unat (sb_size sb)" for bi
    using map_block_of [OF b(1) that(1) b32 [OF that(2)]] by blast+
  show ?case unfolding balloc_loop.simps wp_kbind wp_kget sbt
  proof (rule tl.rd_rule [OF Cons.prems(1) _ Bk])
    fix bp u assume u: "tx u v (insert ?B k) (Suc (Suc m)) (txrest s)" "held u bp ?B"
      "\<And>b' x. held t b' x \<Longrightarrow> held u b' x"
    show "wp (buf_data bp) (\<lambda>d. wp (case find (\<lambda>bi. b + bi < unat (sb_size sb) \<and> \<not> map_bit d bi) [0..<BPB] of
          None \<Rightarrow> kthen (brelse bp) (balloc_loop ROOTDEV bs)
        | Some bi \<Rightarrow> kthen (set_data bp (set_map bi)) (kthen (log_write bp) (kthen (brelse bp)
            (kthen (bzero ROOTDEV (of_nat (b + bi))) (kreturn (of_nat (b + bi))))))) Q) u"
    proof (rule tl.dat_rule [OF u(1,2)], cases "find ?P [0..<BPB]")
      case None
      have "wp (brelse bp) (\<lambda>_. wp (balloc_loop ROOTDEV bs) Q) u"
      proof (rule tl.rel_rule [OF u(1,2)])
        fix w assume w: "tx w v (insert ?B k - {?B}) (Suc (Suc m)) (txrest s)"
          "\<And>b' x. held u b' x \<Longrightarrow> x \<noteq> ?B \<Longrightarrow> held w b' x"
        obtain c where c: "in_fs sb c" "\<not> blk_used sb v c" "unat c - unat c mod BPB \<in> set (b # bs)"
          using Cons.prems(3) by blast
        have "unat c - unat c mod BPB \<noteq> b"
        proof
          assume e: "unat c - unat c mod BPB = b"
          then have "unat c = b + unat c mod BPB" using mod_less_eq_dividend [of "unat c" BPB] by linarith
          moreover have "unat c mod BPB < BPB" by simp
          ultimately show False using None c(1,2) blk(1) [of "unat c mod BPB"]
            by (auto simp: find_None_iff blk_used_def in_fs_def)
        qed
        then have free: "\<exists>c. in_fs sb c \<and> \<not> blk_used sb v c \<and> unat c - unat c mod BPB \<in> set bs" using c by auto
        have w1: "tx w v k (Suc (Suc m)) (txrest s)" using w(1) Bk by simp
        have hd: "held w b' x" if "held t b' x" "ds \<le> unat x" for b' x
          by (rule w(2) [OF u(3) [OF that(1)] neB [OF that(2)]])
        show "wp (balloc_loop ROOTDEV bs) Q w"
          by (rule Cons.IH [OF w1 _ free]) (use Cons.prems(2,4) hd in auto)
      qed
      with None show "wp (case find ?P [0..<BPB] of None \<Rightarrow> kthen (brelse bp) (balloc_loop ROOTDEV bs)
        | Some bi \<Rightarrow> kthen (set_data bp (set_map bi)) (kthen (log_write bp) (kthen (brelse bp)
            (kthen (bzero ROOTDEV (of_nat (b + bi))) (kreturn (of_nat (b + bi))))))) Q u" by simp
    next
      case (Some bi)
      then have bi: "b + bi < unat (sb_size sb)" "\<not> map_bit (v ?B) bi" "bi < BPB" using find_Some_sat [OF Some] by auto
      let ?b = "of_nat (b + bi) :: uint" and ?v = "v(?B := set_map bi (v ?B))"
      note bl = blk [OF bi(3,1)]
      have fb: "in_fs sb ?b" "\<not> blk_used sb v ?b" using bi bl by (simp_all only: in_fs_def blk_used_def simp_thms)
      then have ds: "ds \<le> unat ?b" using meta by (auto simp: meta_used_def not_less [symmetric])
      have dk: "?b \<notin> k" using kok fb(2) by auto
      have "wp (set_data bp (set_map bi)) (\<lambda>_. wp (log_write bp) (\<lambda>_. wp (brelse bp) (\<lambda>_. wp (bzero ROOTDEV ?b)
          (\<lambda>_. Q ?b)))) u"
      proof (rule tl.update_rule [where f = "set_map bi", OF u(1,2)])
        fix w assume w: "tx w ?v (insert ?B k) (Suc m) (txrest s)" "\<And>b' x. held u b' x \<Longrightarrow> held w b' x"
        show "wp (brelse bp) (\<lambda>_. wp (bzero ROOTDEV ?b) (\<lambda>_. Q ?b)) w"
        proof (rule tl.rel_rule [OF w(1) w(2) [OF u(2)]])
          fix y assume y: "tx y ?v (insert ?B k - {?B}) (Suc m) (txrest s)" "\<And>b' x. held w b' x \<Longrightarrow> x \<noteq> ?B \<Longrightarrow> held y b' x"
          then have y1: "tx y ?v k (Suc m) (txrest y)" using Bk tx_ref by fastforce
          have ry: "txrest y = txrest s" using y(1) by (auto simp: tx_def)
          have hm: "?b < disksize s" "?b \<notin> log_area (the_log s)" using data_home [OF lay ds fb(1)] by blast+
          show "wp (bzero ROOTDEV ?b) (\<lambda>_. Q ?b) y"
          proof (rule wp_bzero [OF y1])
            show "?b < disksize y" "?b \<notin> log_area (the_log y)"
              using hm tx_home_iff(1) [of y ?b] tx_home_iff(1) [of s ?b] ry by auto
            fix z assume z: "tx z (?v(?b := replicate BSIZE 0)) k m (txrest y)" "\<And>b' x. held y b' x \<Longrightarrow> x \<noteq> ?b \<Longrightarrow> held z b' x"
            show "Q ?b z"
            proof (rule Cons.prems(4))
              show "?b \<in> free_blocks sb v" using fb by (simp add: free_blocks_def)
              show "tx z (alloc_view sb ?b v) k m (txrest s)"
                using z(1) ry unfolding alloc_view_def bl by simp
              show "held z b' x" if "held t b' x" "ds \<le> unat x" "x \<noteq> ?b" for b' x
                by (rule z(2) [OF y(2) [OF w(2) [OF u(3) [OF that(1)]] neB [OF that(2)]] that(3)])
            qed (rule ds)
          qed (use dk k in auto)
        qed
      qed (use B(3,4) tl.size_law [OF u(1), of ?B] in simp_all)
      with Some show "wp (case find ?P [0..<BPB] of None \<Rightarrow> kthen (brelse bp) (balloc_loop ROOTDEV bs)
        | Some bi \<Rightarrow> kthen (set_data bp (set_map bi)) (kthen (log_write bp) (kthen (brelse bp)
            (kthen (bzero ROOTDEV (of_nat (b + bi))) (kreturn (of_nat (b + bi))))))) Q u" by (simp add: wp_seq)
    qed
  qed (use B k in auto)
qed

lemma map_starts_facts:
  "b \<in> set (map_starts sz) \<Longrightarrow> b mod BPB = 0 \<and> b < unat sz"
  "unat c < unat sz \<Longrightarrow> unat c - unat c mod BPB \<in> set (map_starts sz)"
proof -
  have lt: "i < (n + BPB - Suc 0) div BPB \<longleftrightarrow> i * BPB < n" for i n :: nat
    using less_eq_div_iff_mult_less_eq [of BPB "Suc i" "n + BPB - Suc 0"] by (auto simp: Suc_le_eq BPB_def)
  show "b mod BPB = 0 \<and> b < unat sz" if "b \<in> set (map_starts sz)"
    using that by (auto simp: map_starts_def lt)
  show "unat c - unat c mod BPB \<in> set (map_starts sz)" if "unat c < unat sz"
  proof -
    have e: "unat c - unat c mod BPB = unat c div BPB * BPB" by (rule minus_mod_eq_div_mult)
    moreover have "unat c div BPB * BPB < unat sz" using that div_times_less_eq_dividend order_le_less_trans by blast
    ultimately show ?thesis by (auto simp: map_starts_def lt)
  qed
qed

text \<open>Inside a transaction, with the layout of mkfs: what every operation on blocks may assume.\<close>

definition fs_tx :: "'z kfs_scheme \<Rightarrow> nat \<Rightarrow> (uint \<Rightarrow> block) \<Rightarrow> uint set \<Rightarrow> nat \<Rightarrow> bool" where
  "fs_tx s ds v k m \<longleftrightarrow> tx s v k m (txrest s) \<and> layout_ok (the_sb s) ds (disksize s) (the_log s) \<and>
     meta_used (the_sb s) ds v \<and> (\<forall>a\<in>k. ds \<le> unat a \<and> in_fs (the_sb s) a \<and> blk_used (the_sb s) v a)"

lemma log_area_txrest: "txrest t = txrest s \<Longrightarrow> log_area (the_log t) = log_area (the_log s)"
  "txrest t = txrest s \<Longrightarrow> layout_ok sb ds sz (the_log t) = layout_ok sb ds sz (the_log s)"
proof -
  assume "txrest t = txrest s"
  then have "(the_log t)\<lparr>l_lh := no_head\<rparr> = (the_log s)\<lparr>l_lh := no_head\<rparr>" by (simp add: txrest_def)
  then have "l_start (the_log t) = l_start (the_log s)" "l_size (the_log t) = l_size (the_log s)"
    by (cases "the_log t", cases "the_log s", simp)+
  then show "log_area (the_log t) = log_area (the_log s)"
    "layout_ok sb ds sz (the_log t) = layout_ok sb ds sz (the_log s)"
    by (simp_all add: log_area_def layout_ok_def)
qed

lemma fs_tx_step:
  assumes "fs_tx s ds v k m" and "tx t v' k' m' (txrest s)" and "meta_used (the_sb s) ds v'"
    and "\<forall>a\<in>k'. ds \<le> unat a \<and> in_fs (the_sb s) a \<and> blk_used (the_sb s) v' a"
  shows "fs_tx t ds v' k' m'" "txrest t = txrest s"
proof -
  show r: "txrest t = txrest s" using assms(2) by (auto simp: tx_def)
  show "fs_tx t ds v' k' m'"
    using assms txrest_fs [OF r] log_area_txrest [OF r] by (simp add: fs_tx_def r)
qed

lemma alloc_view_used:
  assumes lay: "layout_ok sb ds sz l" and len: "\<And>x. length (v x) = BSIZE" and b: "in_fs sb b" "ds \<le> unat b"
    and c: "in_fs sb c"
  shows "blk_used sb (alloc_view sb b v) c \<longleftrightarrow> c = b \<or> blk_used sb v c"
proof -
  have ne: "BBLOCK c sb \<noteq> b" using unat_BBLOCK(2) [OF lay c] b(2) by auto
  have m: "unat c mod BPB < BPB" "unat b mod BPB < BPB" by simp_all
  show ?thesis
  proof (cases "BBLOCK c sb = BBLOCK b sb")
    case True
    then have "map_bit (set_map (unat b mod BPB) (v (BBLOCK b sb))) (unat c mod BPB) \<longleftrightarrow>
        unat c mod BPB = unat b mod BPB \<or> map_bit (v (BBLOCK b sb)) (unat c mod BPB)"
      by (intro map_bit_set len m)
    moreover have "unat c mod BPB = unat b mod BPB \<longleftrightarrow> c = b" using BBLOCK_eq_iff [OF lay c b(1)] True by blast
    ultimately show ?thesis using ne True by (simp add: blk_used_def alloc_view_def)
  next
    case False
    then have "c \<noteq> b" by auto
    with False ne show ?thesis by (simp add: blk_used_def alloc_view_def)
  qed
qed

lemma meta_used_in_fs: "layout_ok sb ds sz l \<Longrightarrow> unat b < ds \<Longrightarrow> in_fs sb b"
  by (simp add: layout_ok_def in_fs_def)

lemma wp_balloc:
  assumes s: "fs_tx s ds v k (Suc (Suc m))" and k: "card k \<le> Suc m" and f: "free_blocks (the_sb s) v \<noteq> {}"
    and Q: "\<And>b t. \<lbrakk>b \<in> free_blocks (the_sb s) v; ds \<le> unat b; fs_tx t ds (alloc_view (the_sb s) b v) k m; txrest t = txrest s;
      free_blocks (the_sb s) (alloc_view (the_sb s) b v) = free_blocks (the_sb s) v - {b};
      \<And>b' x. held s b' x \<Longrightarrow> ds \<le> unat x \<Longrightarrow> x \<noteq> b \<Longrightarrow> held t b' x\<rbrakk> \<Longrightarrow> Q b t"
  shows "wp (balloc ROOTDEV) Q s"
proof -
  let ?sb = "the_sb s"
  have tx: "tx s v k (Suc (Suc m)) (txrest s)" and lay: "layout_ok ?sb ds (disksize s) (the_log s)"
    and meta: "meta_used ?sb ds v" and kok: "\<forall>a\<in>k. ds \<le> unat a \<and> in_fs ?sb a \<and> blk_used ?sb v a"
    using s by (auto simp: fs_tx_def)
  show ?thesis unfolding balloc_def wp_kbind wp_kget
  proof (rule wp_balloc_loop [OF tx k lay meta kok])
    show "\<forall>b\<in>set (map_starts (sb_size ?sb)). b mod BPB = 0 \<and> b < unat (sb_size ?sb)"
      using map_starts_facts(1) by blast
    show "\<exists>c. in_fs ?sb c \<and> \<not> blk_used ?sb v c \<and> unat c - unat c mod BPB \<in> set (map_starts (sb_size ?sb))"
      using f map_starts_facts(2) by (auto simp: free_blocks_def in_fs_def)
  next
    fix b u assume b: "b \<in> free_blocks ?sb v" "ds \<le> unat b" "tx u (alloc_view ?sb b v) k m (txrest s)"
      "\<And>b' x. held s b' x \<Longrightarrow> ds \<le> unat x \<Longrightarrow> x \<noteq> b \<Longrightarrow> held u b' x"
    have inb: "in_fs ?sb b" using b(1) by (simp add: free_blocks_def)
    have us: "blk_used ?sb (alloc_view ?sb b v) c \<longleftrightarrow> c = b \<or> blk_used ?sb v c" if "in_fs ?sb c" for c
      by (rule alloc_view_used [OF lay tl.size_law [OF tx] inb b(2) that])
    have meta': "meta_used ?sb ds (alloc_view ?sb b v)"
      using meta us meta_used_in_fs [OF lay] by (simp add: meta_used_def)
    have kok': "\<forall>a\<in>k. ds \<le> unat a \<and> in_fs ?sb a \<and> blk_used ?sb (alloc_view ?sb b v) a" using kok us by blast
    note st = fs_tx_step [OF s b(3) meta' kok']
    have "free_blocks ?sb (alloc_view ?sb b v) = free_blocks ?sb v - {b}" using us by (auto simp: free_blocks_def)
    then show "Q b u" using Q [OF b(1,2) st _ b(4)] by blast
  qed
qed

section \<open>bfree()\<close>

definition free_view :: "superblock \<Rightarrow> uint \<Rightarrow> (uint \<Rightarrow> block) \<Rightarrow> uint \<Rightarrow> block" where
  "free_view sb b v = v(BBLOCK b sb := clear_map (unat b mod BPB) (v (BBLOCK b sb)))"

lemma free_view_used:
  assumes lay: "layout_ok sb ds sz l" and len: "\<And>x. length (v x) = BSIZE" and b: "in_fs sb b" and c: "in_fs sb c"
  shows "blk_used sb (free_view sb b v) c \<longleftrightarrow> c \<noteq> b \<and> blk_used sb v c"
proof (cases "BBLOCK c sb = BBLOCK b sb")
  case True
  have m: "unat c mod BPB < BPB" "unat b mod BPB < BPB" by simp_all
  have "map_bit (clear_map (unat b mod BPB) (v (BBLOCK b sb))) (unat c mod BPB) \<longleftrightarrow>
      unat c mod BPB \<noteq> unat b mod BPB \<and> map_bit (v (BBLOCK b sb)) (unat c mod BPB)"
    by (intro map_bit_clear len m)
  moreover have "unat c mod BPB = unat b mod BPB \<longleftrightarrow> c = b" using BBLOCK_eq_iff [OF lay c b] True by blast
  ultimately show ?thesis using True by (simp add: blk_used_def free_view_def)
next
  case False
  then have "c \<noteq> b" by auto
  with False show ?thesis by (simp add: blk_used_def free_view_def)
qed

lemma wp_bfree:
  assumes s: "fs_tx s ds v k (Suc m)" and k: "card k \<le> Suc m" and b: "ds \<le> unat b" "in_fs (the_sb s) b" "blk_used (the_sb s) v b" "b \<notin> k"
    and Q: "\<And>t. \<lbrakk>fs_tx t ds (free_view (the_sb s) b v) k m; txrest t = txrest s;
      free_blocks (the_sb s) (free_view (the_sb s) b v) = insert b (free_blocks (the_sb s) v);
      \<And>b' x. held s b' x \<Longrightarrow> ds \<le> unat x \<Longrightarrow> held t b' x\<rbrakk> \<Longrightarrow> Q () t"
  shows "wp (bfree ROOTDEV b) Q s"
proof -
  let ?sb = "the_sb s" let ?B = "BBLOCK b ?sb" and ?bi = "unat b mod BPB"
  have tx: "tx s v k (Suc m) (txrest s)" and lay: "layout_ok ?sb ds (disksize s) (the_log s)"
    and meta: "meta_used ?sb ds v" and kok: "\<forall>a\<in>k. ds \<le> unat a \<and> in_fs ?sb a \<and> blk_used ?sb v a"
    using s by (auto simp: fs_tx_def)
  note B = unat_BBLOCK [OF lay b(2)]
  have neB: "x \<noteq> ?B" if "ds \<le> unat x" for x using that B(2) by auto
  have Bk: "?B \<notin> k" using kok neB by blast
  have us: "blk_used ?sb (free_view ?sb b v) c \<longleftrightarrow> c \<noteq> b \<and> blk_used ?sb v c" if "in_fs ?sb c" for c
    by (rule free_view_used [OF lay tl.size_law [OF tx] b(2) that])
  have meta': "meta_used ?sb ds (free_view ?sb b v)"
    using meta us meta_used_in_fs [OF lay] b(1) by (auto simp: meta_used_def)
  have kok': "\<forall>a\<in>k. ds \<le> unat a \<and> in_fs ?sb a \<and> blk_used ?sb (free_view ?sb b v) a" using kok us b(4) by blast
  have fr: "free_blocks ?sb (free_view ?sb b v) = insert b (free_blocks ?sb v)" using us b(2) by (auto simp: free_blocks_def)
  show ?thesis unfolding bfree_def Let_def wp_kbind wp_kget
  proof (rule tl.rd_rule [OF tx _ Bk])
    fix bp t assume t: "tx t v (insert ?B k) (Suc m) (txrest s)" "held t bp ?B" "\<And>b' x. held s b' x \<Longrightarrow> held t b' x"
    have "wp (set_data bp (clear_map ?bi)) (\<lambda>_. wp (log_write bp) (\<lambda>_. wp (brelse bp) Q)) t"
    proof (rule tl.update_rule [where f = "clear_map ?bi", OF t(1,2)])
      fix u assume u: "tx u (v(?B := clear_map ?bi (v ?B))) (insert ?B k) m (txrest s)" "\<And>b' x. held t b' x \<Longrightarrow> held u b' x"
      show "wp (brelse bp) Q u"
      proof (rule tl.rel_rule [OF u(1) u(2) [OF t(2)]])
        fix w assume w: "tx w (v(?B := clear_map ?bi (v ?B))) (insert ?B k - {?B}) m (txrest s)"
          "\<And>b' x. held u b' x \<Longrightarrow> x \<noteq> ?B \<Longrightarrow> held w b' x"
        then have "tx w (free_view ?sb b v) k m (txrest s)" using Bk by (simp add: free_view_def)
        from fs_tx_step [OF s this meta' kok'] show "Q () w"
          using Q fr w(2) u(2) t(3) neB by blast
      qed
    qed (use B(3,4) tl.size_law [OF tx, of ?B] in simp_all)
    then have "wp (if \<not> map_bit (v ?B) ?bi then panic ''freeing free block''
        else kthen (set_data bp (clear_map ?bi)) (kthen (log_write bp) (brelse bp))) Q t"
      using b(3) by (simp add: blk_used_def wp_seq)
    then show "wp (buf_data bp) (\<lambda>d. wp (if \<not> map_bit d ?bi then panic ''freeing free block''
        else kthen (set_data bp (clear_map ?bi)) (kthen (log_write bp) (brelse bp))) Q) t"
      by (rule tl.dat_rule [OF t(1,2)])
  qed (use B k in auto)
qed

section \<open>Properties\<close>

text \<open>
  A state for the witnesses: the disk that mkfs lays out for 1000 blocks and 200 inodes (log
  in blocks 2 to 31, inodes from 32, free map in block 58, data from block 59), an empty
  cache, and one operation in progress.
\<close>

definition demo_sb :: superblock where
  "demo_sb = \<lparr>sb_size = 1000, sb_nblocks = 941, sb_ninodes = 200, sb_nlog = 30, sb_logstart = 2,
     sb_inodestart = 32, sb_bmapstart = 58\<rparr>"

definition demo_map :: block where
  "demo_map = replicate 7 0xFF @ [0x07] @ replicate 504 0"

definition fs_demo :: kfs where
  "fs_demo = \<lparr>ptable = (\<lambda>_. proc_zero), nextpid = 1, initproc = None, cpu_proc = Some 0,
     disk = (\<lambda>b. if b = 58 then demo_map else replicate BSIZE 0), disksize = 1000, dtrace = [],
     bufs = (\<lambda>i. (demo_buf i)\<lparr>b_flags := 0, b_dev := 0\<rparr>),
     the_log = demo_log\<lparr>l_lh := no_head, l_outstanding := 1, l_committing := False\<rparr>,
     the_sb = demo_sb, inodes = (\<lambda>_. \<lparr>i_dev = ROOTDEV, i_inum = 1, i_ref = 1, i_lock = initsleeplock, i_valid = True,
       i_type = T_FILE, i_major = 0, i_minor = 0, i_nlink = 1, i_size = 0, i_addrs = (\<lambda>_. 0)\<rparr>)\<rparr>"

lemma fs_demo_sel [simp]:
  "the_sb fs_demo = demo_sb" "disksize fs_demo = 1000" "cpu_proc fs_demo = Some 0"
  "disk fs_demo = (\<lambda>b. if b = 58 then demo_map else replicate BSIZE 0)"
  "the_log fs_demo = demo_log\<lparr>l_lh := no_head, l_outstanding := 1, l_committing := False\<rparr>"
  by (simp_all add: fs_demo_def)

lemma fs_demo_bc: "bc_inv fs_demo" "lockedblks fs_demo = {}" "dirtied fs_demo = {}" "cview fs_demo = disk fs_demo"
proof -
  have c: "cached fs_demo i x = False" for i x by (simp add: cached_def fs_demo_def ROOTDEV_def)
  have l: "locked fs_demo i = False" for i by (simp add: locked_def fs_demo_def demo_buf_def initsleeplock_def)
  have "buf_ok fs_demo i" for i
    unfolding buf_ok_def l by (simp add: fs_demo_def demo_buf_def ROOTDEV_def)
  moreover have "nexts fs_demo = nexts demo" "prevs fs_demo = prevs demo"
    by (auto simp: nexts_def prevs_def demo_def fs_demo_def)
  then have "\<exists>xs. ring (nexts fs_demo) (prevs fs_demo) xs \<and> set xs = {..<NBUF}"
    using demo_ring by (intro exI [of _ "[0..<NBUF]"]) (simp add: atLeast0LessThan)
  ultimately show "bc_inv fs_demo" unfolding bc_inv_def c by (simp add: demo_map_def)
  show "lockedblks fs_demo = {}" "dirtied fs_demo = {}" by (simp_all add: lockedblks_def dirtied_def c)
  show "cview fs_demo = disk fs_demo" by (rule ext, rule cview_uncached) (simp add: c)
qed

lemma demo_map_bits: "map_bit demo_map i \<longleftrightarrow> i < 59" if "i < BPB"
proof -
  consider "i < 56" | "56 \<le> i" "i < 64" | "64 \<le> i" by linarith
  then show ?thesis
  proof cases
    case 1
    then have "i div 8 < 7" by auto
    then have "demo_map ! (i div 8) = 0xFF" by (simp add: demo_map_def nth_append)
    moreover have "bit (0xFF :: byte) n" if "n < 8" for n
      using that by (auto simp: less_Suc_eq numeral_eq_Suc)
    ultimately show ?thesis using 1 by (simp add: map_bit_iff)
  next
    case 2
    then have e: "i div 8 = 7" "i mod 8 = i - 56" by presburger+
    have "demo_map ! 7 = 0x07" by (simp add: demo_map_def nth_append)
    moreover have "bit (0x07 :: byte) n \<longleftrightarrow> n < 3" if "n < 8" for n
      using that by (auto simp: less_Suc_eq numeral_eq_Suc)
    ultimately show ?thesis using 2 e by (auto simp: map_bit_iff)
  next
    case 3
    then have "8 \<le> i div 8" "i div 8 < 512" using that by (auto simp: BPB_def)
    then have "demo_map ! (i div 8) = 0" by (simp add: demo_map_def nth_append)
    then show ?thesis using 3 by (simp add: map_bit_iff)
  qed
qed

lemma fs_demo_used: "in_fs demo_sb b \<Longrightarrow> blk_used demo_sb (disk fs_demo) b \<longleftrightarrow> unat b < 59"
proof -
  assume "in_fs demo_sb b"
  then have u: "unat b < 1000" by (simp add: in_fs_def demo_sb_def)
  have "b div of_nat BPB = 0" using u by (simp add: word_unat_eq_iff unat_div_distrib BPB_def)
  then have "BBLOCK b demo_sb = 58" by (simp add: BBLOCK_def demo_sb_def)
  moreover have "unat b mod BPB = unat b" using u by (simp add: BPB_def)
  ultimately show ?thesis using demo_map_bits [of "unat b"] u by (simp add: blk_used_def BPB_def)
qed

lemma fs_demo_layout: "layout_ok demo_sb 59 1000 (the_log fs_demo)"
  by (simp add: layout_ok_def demo_sb_def demo_log_def fs_sizes)

lemma fs_demo_tx: "fs_tx fs_demo 59 (disk fs_demo) {} 29"
proof -
  have "log_inv fs_demo" unfolding log_inv_def
    using fs_demo_bc by (simp add: entries_def head_ok_def log_ok_def demo_log_def no_head_def)
  then have "tx fs_demo (disk fs_demo) {} 29 (txrest fs_demo)"
    unfolding tx_def using fs_demo_bc by (simp add: demo_log_def no_head_def)
  moreover have "meta_used demo_sb 59 (disk fs_demo)"
    unfolding meta_used_def using fs_demo_used by (simp add: in_fs_def demo_sb_def)
  ultimately show ?thesis using fs_demo_layout by (simp add: fs_tx_def)
qed

lemma fs_demo_free: "60 \<in> free_blocks demo_sb (disk fs_demo)"
  using fs_demo_used [of 60] by (simp add: free_blocks_def in_fs_def demo_sb_def)

text \<open>
  C11: balloc() allocates. Inside an operation with room for two more blocks, and with a free
  block on the disk, it returns a block that was free; afterwards that block is zeroed and
  marked in use, every other block is free or in use as before, no other data block has
  changed, and nothing has been written to the disk yet.
\<close>

theorem balloc_allocates:
  assumes s: "fs_tx s ds v {} (Suc (Suc m))" and f: "free_blocks (the_sb s) v \<noteq> {}"
  shows "\<exists>b t. balloc ROOTDEV s = Done b t \<and> b \<in> free_blocks (the_sb s) v \<and> fs_tx t ds (cview t) {} m \<and>
    cview t b = replicate BSIZE 0 \<and> free_blocks (the_sb s) (cview t) = free_blocks (the_sb s) v - {b} \<and>
    (\<forall>x. x \<noteq> b \<and> ds \<le> unat x \<longrightarrow> cview t x = v x) \<and> disk t = disk s"
proof -
  let ?R = "\<lambda>b t. b \<in> free_blocks (the_sb s) v \<and> fs_tx t ds (cview t) {} m \<and>
    cview t b = replicate BSIZE 0 \<and> free_blocks (the_sb s) (cview t) = free_blocks (the_sb s) v - {b} \<and>
    (\<forall>x. x \<noteq> b \<and> ds \<le> unat x \<longrightarrow> cview t x = v x) \<and> disk t = disk s"
  have lay: "layout_ok (the_sb s) ds (disksize s) (the_log s)" using s by (simp add: fs_tx_def)
  have "wp (balloc ROOTDEV) ?R s"
  proof (rule wp_balloc [OF s _ f])
    fix b t assume b: "b \<in> free_blocks (the_sb s) v" "fs_tx t ds (alloc_view (the_sb s) b v) {} m" "txrest t = txrest s"
      and fr: "free_blocks (the_sb s) (alloc_view (the_sb s) b v) = free_blocks (the_sb s) v - {b}"
    have cv: "cview t = alloc_view (the_sb s) b v" using b(2) by (auto simp: fs_tx_def tx_def)
    have "in_fs (the_sb s) b" using b(1) by (simp add: free_blocks_def)
    from unat_BBLOCK(2) [OF lay this]
    have "x \<noteq> b \<and> ds \<le> unat x \<longrightarrow> alloc_view (the_sb s) b v x = v x" for x by (auto simp: alloc_view_def)
    moreover have "disk t = disk s" using b(3) by (simp add: txrest_def)
    ultimately show "?R b t" using b fr by (simp add: cv) (simp add: alloc_view_def)
  qed simp
  then show ?thesis by (simp add: wp_iff)
qed

theorem balloc_allocates_witness:
  "\<exists>b t. balloc ROOTDEV fs_demo = Done b t \<and> b \<in> free_blocks demo_sb (disk fs_demo) \<and> cview t b = replicate BSIZE 0"
proof -
  have "fs_tx fs_demo 59 (disk fs_demo) {} (Suc (Suc 27))" using fs_demo_tx by simp
  moreover have "free_blocks (the_sb fs_demo) (disk fs_demo) \<noteq> {}" using fs_demo_free by auto
  ultimately show ?thesis using balloc_allocates [of fs_demo 59 "disk fs_demo" 27] by auto
qed

text \<open>
  C12: bfree() undoes balloc(). Freeing the block that balloc() has just returned leaves
  exactly the blocks free that were free before.
\<close>

theorem balloc_bfree_roundtrip:
  assumes s: "fs_tx s ds v {} (Suc (Suc (Suc m)))" and f: "free_blocks (the_sb s) v \<noteq> {}"
  shows "wp (kbind (balloc ROOTDEV) (bfree ROOTDEV))
    (\<lambda>_ t. fs_tx t ds (cview t) {} m \<and> free_blocks (the_sb s) (cview t) = free_blocks (the_sb s) v) s"
  unfolding wp_kbind
proof (rule wp_balloc [OF s _ f])
  fix b t assume b: "b \<in> free_blocks (the_sb s) v" "ds \<le> unat b" "fs_tx t ds (alloc_view (the_sb s) b v) {} (Suc m)"
    "txrest t = txrest s" "free_blocks (the_sb s) (alloc_view (the_sb s) b v) = free_blocks (the_sb s) v - {b}"
  have sb: "the_sb t = the_sb s" by (rule txrest_fs(1) [OF b(4)])
  have fb: "in_fs (the_sb s) b" using b(1) by (simp add: free_blocks_def)
  then have us: "blk_used (the_sb s) (alloc_view (the_sb s) b v) b"
    using b(5) by (auto simp: free_blocks_def)
  show "wp (bfree ROOTDEV b) (\<lambda>_ t. fs_tx t ds (cview t) {} m \<and>
      free_blocks (the_sb s) (cview t) = free_blocks (the_sb s) v) t"
  proof (rule wp_bfree [OF b(3)])
    fix u assume u: "fs_tx u ds (free_view (the_sb t) b (alloc_view (the_sb s) b v)) {} m"
      "free_blocks (the_sb t) (free_view (the_sb t) b (alloc_view (the_sb s) b v)) =
        insert b (free_blocks (the_sb t) (alloc_view (the_sb s) b v))"
    have "cview u = free_view (the_sb t) b (alloc_view (the_sb s) b v)" using u(1) by (auto simp: fs_tx_def tx_def)
    then show "fs_tx u ds (cview u) {} m \<and> free_blocks (the_sb s) (cview u) = free_blocks (the_sb s) v"
      using u b(1,5) sb by auto
  qed (use b(2) fb us sb in auto)
qed simp

theorem balloc_bfree_roundtrip_witness:
  "wp (kbind (balloc ROOTDEV) (bfree ROOTDEV))
    (\<lambda>_ t. free_blocks demo_sb (cview t) = free_blocks demo_sb (disk fs_demo)) fs_demo"
proof -
  have "fs_tx fs_demo 59 (disk fs_demo) {} (Suc (Suc (Suc 26)))" using fs_demo_tx by simp
  moreover have "free_blocks (the_sb fs_demo) (disk fs_demo) \<noteq> {}" using fs_demo_free by auto
  ultimately show ?thesis
    using wp_mono [OF balloc_bfree_roundtrip [of fs_demo 59 "disk fs_demo" 26]] by simp
qed

end
