(* ===== verification/FsInode.thy ===== *)
theory FsInode
  imports FsAlloc
begin

text \<open>
  Inodes: the on-disk layout of struct dinode, iupdate() and ilock() as a round trip through
  the disk block, and the inode cache of iget().
\<close>

section \<open>struct dinode inside its block\<close>

lemma fold_put32:
  fixes f :: "nat \<Rightarrow> uint"
  assumes "off + 4 * m \<le> length d"
  defines "e \<equiv> fold (\<lambda>i d. put32 d (off + 4 * i) (f i)) [0..<m] d"
  shows "length e = length d" "i < m \<Longrightarrow> get32 e (off + 4 * i) = f i"
    "o' + 2 \<le> off \<or> off + 4 * m \<le> o' \<Longrightarrow> get16 e o' = get16 d o'"
    "o' + 4 \<le> off \<or> off + 4 * m \<le> o' \<Longrightarrow> get32 e o' = get32 d o'"
proof -
  have "length e = length d \<and> (\<forall>i<m. get32 e (off + 4 * i) = f i) \<and>
      (\<forall>o'. (o' + 2 \<le> off \<or> off + 4 * m \<le> o' \<longrightarrow> get16 e o' = get16 d o') \<and>
        (o' + 4 \<le> off \<or> off + 4 * m \<le> o' \<longrightarrow> get32 e o' = get32 d o'))"
    using assms(1) unfolding e_def
  proof (induction m)
    case (Suc m)
    then show ?case by (auto simp: byte_layout less_Suc_eq)
  qed simp
  then show "length e = length d" "i < m \<Longrightarrow> get32 e (off + 4 * i) = f i"
    "o' + 2 \<le> off \<or> off + 4 * m \<le> o' \<Longrightarrow> get16 e o' = get16 d o'"
    "o' + 4 \<le> off \<or> off + 4 * m \<le> o' \<Longrightarrow> get32 e o' = get32 d o'" by blast+
qed

lemma length_put_dinode:
  assumes "off + 64 \<le> length d"
  shows "length (put_dinode x off d) = length d"
  unfolding put_dinode_def using assms
  by (subst fold_put32(1)) (simp_all add: NDIRECT_def)

lemma get_put_dinode:
  assumes "off + 64 \<le> length d" and "\<And>i. NDIRECT < i \<Longrightarrow> d_addrs x i = 0"
  shows "get_dinode (put_dinode x off d) off = x"
proof -
  let ?e = "put32 (put16 (put16 (put16 (put16 d off (d_type x)) (off + 2) (d_major x)) (off + 4) (d_minor x))
       (off + 6) (d_nlink x)) (off + 8) (d_size x)"
  have l: "(off + 12) + 4 * (NDIRECT + 1) \<le> length ?e" using assms(1) by (simp add: NDIRECT_def)
  note f = fold_put32 [where f = "d_addrs x", OF l]
  have "(\<lambda>i. if i \<le> NDIRECT then d_addrs x i else 0) = d_addrs x" using assms(2) by (auto simp: not_le)
  then have a: "(\<lambda>i. if i \<le> NDIRECT then get32 (put_dinode x off d) (off + 12 + 4 * i) else 0) = d_addrs x"
    using f(2) unfolding put_dinode_def by (simp add: less_Suc_eq_le cong: if_cong)
  have g: "get16 (put_dinode x off d) (off + k) = get16 ?e (off + k)" if "k \<le> 6" for k
    unfolding put_dinode_def using that by (intro f(3)) simp
  have "get32 (put_dinode x off d) (off + 8) = get32 ?e (off + 8)"
    unfolding put_dinode_def by (intro f(4)) simp
  then show ?thesis
    using a g [of 0] g [of 2] g [of 4] g [of 6] assms(1)
    by (simp add: get_dinode_def byte_layout)
qed

lemma get_put_dinode_other:
  assumes "off + 64 \<le> length d" and "off' + 64 \<le> off \<or> off + 64 \<le> off'"
  shows "get_dinode (put_dinode x off d) off' = get_dinode d off'"
proof -
  let ?e = "put32 (put16 (put16 (put16 (put16 d off (d_type x)) (off + 2) (d_major x)) (off + 4) (d_minor x))
       (off + 6) (d_nlink x)) (off + 8) (d_size x)"
  have l: "(off + 12) + 4 * (NDIRECT + 1) \<le> length ?e" using assms(1) by (simp add: NDIRECT_def)
  note f = fold_put32 [where f = "d_addrs x", OF l]
  have g16: "get16 (put_dinode x off d) (off' + k) = get16 d (off' + k)" if "k \<le> 6" for k
    using assms(2) that unfolding put_dinode_def by (subst f(3)) (auto simp: NDIRECT_def byte_layout)
  have g32: "get32 (put_dinode x off d) (off' + k) = get32 d (off' + k)" if "k \<le> 60" for k
    using assms(2) that unfolding put_dinode_def by (subst f(4)) (auto simp: NDIRECT_def byte_layout)
  have "get32 (put_dinode x off d) (off' + 12 + 4 * i) = get32 d (off' + 12 + 4 * i)" if "i \<le> NDIRECT" for i
    using g32 [of "12 + 4 * i"] that by (simp add: NDIRECT_def add.assoc)
  then show ?thesis using g16 [of 0] g16 [of 2] g16 [of 4] g16 [of 6] g32 [of 8]
    by (simp add: get_dinode_def cong: if_cong)
qed

lemma dinode_off_bound: "dinode_off i + 64 \<le> BSIZE"
proof -
  have "unat i mod IPB < IPB" by (simp add: IPB_def)
  then show ?thesis by (simp add: dinode_off_def IPB_def)
qed

text \<open>Inode \<open>inum\<close> as it is on the disk.\<close>

definition disk_inode :: "superblock \<Rightarrow> (uint \<Rightarrow> block) \<Rightarrow> uint \<Rightarrow> dinode" where
  "disk_inode sb v inum = get_dinode (v (IBLOCK inum sb)) (dinode_off inum)"

definition inum_ok :: "superblock \<Rightarrow> uint \<Rightarrow> bool" where
  "inum_ok sb inum \<longleftrightarrow> inum < sb_ninodes sb"

lemma unat_IBLOCK:
  assumes lay: "layout_ok sb ds sz l" and i: "inum_ok sb inum"
  shows "unat (IBLOCK inum sb) = unat (sb_inodestart sb) + unat inum div IPB"
    "unat (IBLOCK inum sb) < unat (sb_bmapstart sb)" "IBLOCK inum sb < sz" "IBLOCK inum sb \<notin> log_area l"
    "unat (IBLOCK inum sb) < ds"
proof -
  have le: "unat inum div IPB \<le> unat (sb_ninodes sb) div IPB"
    using i by (intro div_le_mono) (simp add: inum_ok_def word_less_nat_alt)
  have "unat (sb_inodestart sb) + unat inum div IPB < 2 ^ 32"
    using lay le unat_bound [of sz] unfolding layout_ok_def by linarith
  moreover have "unat (inum div of_nat IPB) = unat inum div IPB" by (rule unat_div_const) (simp add: IPB_def)
  ultimately show u: "unat (IBLOCK inum sb) = unat (sb_inodestart sb) + unat inum div IPB"
    by (simp add: IBLOCK_def unat_plus_if')
  then show "unat (IBLOCK inum sb) < unat (sb_bmapstart sb)" using lay le unfolding layout_ok_def by linarith
  then show "unat (IBLOCK inum sb) < ds" "IBLOCK inum sb < sz"
    using lay unfolding layout_ok_def word_less_nat_alt by linarith+
  show "IBLOCK inum sb \<notin> log_area l" using u lay unfolding layout_ok_def log_area_def mem_Collect_eq by linarith
qed

lemma disk_inode_upd:
  assumes lay: "layout_ok sb ds sz l" and i: "inum_ok sb i" and j: "inum_ok sb j" and len: "length (v (IBLOCK i sb)) = BSIZE"
    and a: "\<And>n. NDIRECT < n \<Longrightarrow> d_addrs x n = 0"
  shows "disk_inode sb (v(IBLOCK i sb := put_dinode x (dinode_off i) (v (IBLOCK i sb)))) j =
    (if j = i then x else disk_inode sb v j)"
proof (cases "IBLOCK j sb = IBLOCK i sb")
  case True
  then have dv: "unat j div IPB = unat i div IPB"
    using unat_IBLOCK(1) [OF lay i] unat_IBLOCK(1) [OF lay j] by simp
  show ?thesis
  proof (cases "j = i")
    case eq: True
    then show ?thesis using get_put_dinode [of "dinode_off i" "v (IBLOCK i sb)" x] dinode_off_bound [of i] len a
      by (simp add: disk_inode_def)
  next
    case False
    then have "unat j mod IPB \<noteq> unat i mod IPB" using dv by (metis div_mult_mod_eq word_unat_eq_iff)
    then have "dinode_off j + 64 \<le> dinode_off i \<or> dinode_off i + 64 \<le> dinode_off j"
      unfolding dinode_off_def by linarith
    then show ?thesis using False True dinode_off_bound [of i] len get_put_dinode_other [of "dinode_off i" "v (IBLOCK i sb)"]
      by (simp add: disk_inode_def)
  qed
next
  case False
  then have "j \<noteq> i" by auto
  with False show ?thesis by (simp add: disk_inode_def)
qed

section \<open>iupdate() and ilock()\<close>

lemma blk_used_meta:
  assumes lay: "layout_ok sb ds sz l" and a: "unat a < unat (sb_bmapstart sb)" and c: "in_fs sb c"
  shows "blk_used sb (v(a := x)) c = blk_used sb v c"
proof -
  have "BBLOCK c sb \<noteq> a" using unat_BBLOCK(5) [OF lay c] a by auto
  then show ?thesis by (simp add: blk_used_def)
qed

lemma meta_change:
  assumes s: "fs_tx s ds v k m" and a: "unat a < unat (sb_bmapstart (the_sb s))"
  shows "meta_used (the_sb s) ds (v(a := x))"
    "\<forall>b\<in>k. ds \<le> unat b \<and> in_fs (the_sb s) b \<and> blk_used (the_sb s) (v(a := x)) b"
    "free_blocks (the_sb s) (v(a := x)) = free_blocks (the_sb s) v"
proof -
  have lay: "layout_ok (the_sb s) ds (disksize s) (the_log s)" using s by (simp add: fs_tx_def)
  note u = blk_used_meta [OF lay a]
  show "meta_used (the_sb s) ds (v(a := x))"
    using s u meta_used_in_fs [OF lay] by (simp add: fs_tx_def meta_used_def)
  show "\<forall>b\<in>k. ds \<le> unat b \<and> in_fs (the_sb s) b \<and> blk_used (the_sb s) (v(a := x)) b"
    using s u by (simp add: fs_tx_def)
  show "free_blocks (the_sb s) (v(a := x)) = free_blocks (the_sb s) v" using u by (auto simp: free_blocks_def)
qed

definition iupdate_view :: "superblock \<Rightarrow> inode \<Rightarrow> (uint \<Rightarrow> block) \<Rightarrow> uint \<Rightarrow> block" where
  "iupdate_view sb x v = v(IBLOCK (i_inum x) sb :=
     put_dinode (to_dinode x) (dinode_off (i_inum x)) (v (IBLOCK (i_inum x) sb)))"

lemma wp_iupdate:
  assumes s: "fs_tx s ds v k (Suc m)" and k: "card k \<le> Suc m"
    and x: "x = inodes s ip" "i_dev x = ROOTDEV" "inum_ok (the_sb s) (i_inum x)"
    and Q: "\<And>t. \<lbrakk>fs_tx t ds (iupdate_view (the_sb s) x v) k m; txrest t = txrest s;
      free_blocks (the_sb s) (iupdate_view (the_sb s) x v) = free_blocks (the_sb s) v;
      \<And>b' y. held s b' y \<Longrightarrow> ds \<le> unat y \<Longrightarrow> held t b' y\<rbrakk> \<Longrightarrow> Q () t"
  shows "wp (iupdate ip) Q s"
proof -
  let ?sb = "the_sb s" let ?B = "IBLOCK (i_inum x) ?sb"
  have tx: "tx s v k (Suc m) (txrest s)" and lay: "layout_ok ?sb ds (disksize s) (the_log s)"
    and kok: "\<forall>a\<in>k. ds \<le> unat a" using s by (auto simp: fs_tx_def)
  note B = unat_IBLOCK [OF lay x(3)]
  have neB: "y \<noteq> ?B" if "ds \<le> unat y" for y using that B(5) by auto
  have Bk: "?B \<notin> k" using kok neB by blast
  have len: "length (put_dinode (to_dinode x) (dinode_off (i_inum x)) (v ?B)) = BSIZE"
    using length_put_dinode [of "dinode_off (i_inum x)" "v ?B"] dinode_off_bound [of "i_inum x"] tl.size_law [OF tx, of ?B] by simp
  note mc = meta_change [OF s B(2)]
  show ?thesis unfolding iupdate_def wp_kbind [of "kget (\<lambda>s. inodes s ip)"] wp_kbind [of "kget the_sb"] wp_kget x(1) [symmetric] x(2)
  proof (rule tl.change [where f = "put_dinode (to_dinode x) (dinode_off (i_inum x))", OF tx _ Bk k len])
    fix t assume t: "tx t (v(?B := put_dinode (to_dinode x) (dinode_off (i_inum x)) (v ?B))) k m (txrest s)"
      "\<And>b' y. held s b' y \<Longrightarrow> y \<noteq> ?B \<Longrightarrow> held t b' y"
    show "Q () t"
    proof (rule Q)
      show "fs_tx t ds (iupdate_view ?sb x v) k m" "txrest t = txrest s"
        unfolding iupdate_view_def by (rule fs_tx_step [OF s t(1) mc(1,2)])+
      show "free_blocks ?sb (iupdate_view ?sb x v) = free_blocks ?sb v" unfolding iupdate_view_def by (rule mc(3))
      show "held t b' y" if "held s b' y" "ds \<le> unat y" for b' y by (rule t(2) [OF that(1) neB [OF that(2)]])
    qed
  qed (use B in simp)
qed

lemma fs_tx_upd_inode: "fs_tx s ds v k m \<Longrightarrow> fs_tx (upd_inode i f s) ds v k m"
  using tx_upd_inode [of s v k m s i f] by (simp add: fs_tx_def)

text \<open>The inode after ilock() has read it from the disk.\<close>

definition locked_by :: "'z kfs_scheme \<Rightarrow> sleeplock" where
  "locked_by s = \<lparr>sl_locked = True, sl_pid = p_pid (ptable s (the (cpu_proc s)))\<rparr>"

lemma wp_ilock_load:
  fixes s :: "'z kfs_scheme"
  assumes s: "fs_tx s ds v k m" and k: "card k \<le> m"
    and x: "x = inodes s ip" "i_dev x = ROOTDEV" "inum_ok (the_sb s) (i_inum x)" "1 \<le> i_ref x"
      "\<not> sl_locked (i_lock x)" "\<not> i_valid x"
    and ty: "d_type (disk_inode (the_sb s) v (i_inum x)) \<noteq> 0" and cpu: "cpu_proc s \<noteq> None"
    and Q: "\<And>t. \<lbrakk>fs_tx t ds v k m; inodes t ip = (load_dinode (disk_inode (the_sb s) v (i_inum x)) x)
        \<lparr>i_lock := locked_by s, i_valid := True\<rparr>; \<forall>j. j \<noteq> ip \<longrightarrow> inodes t j = inodes s j\<rbrakk> \<Longrightarrow> Q () t"
  shows "wp (ilock (Some ip)) Q s"
proof -
  let ?sb = "the_sb s" let ?B = "IBLOCK (i_inum x) ?sb" and ?d = "disk_inode (the_sb s) v (i_inum x)"
  let ?s1 = "upd_inode ip (\<lambda>x. x\<lparr>i_lock := locked_by s\<rparr>) s"
  have lay: "layout_ok ?sb ds (disksize s) (the_log s)" and kok: "\<forall>a\<in>k. ds \<le> unat a" using s by (auto simp: fs_tx_def)
  note B = unat_IBLOCK [OF lay x(3)]
  have Bk: "?B \<notin> k" using kok B(5) by auto
  obtain i where i: "cpu_proc s = Some i" using cpu by blast
  have acq: "acquiresleep (inode_lock ip) s = Done () ?s1"
    using acquiresleep_free [of "inode_lock ip" s i] x(1,5) i by (simp add: inode_lock_def locked_by_def)
  have s1: "fs_tx ?s1 ds v k m" by (rule fs_tx_upd_inode [OF s])
  have tx1: "tx ?s1 v k m (txrest ?s1)" using s1 by (simp add: fs_tx_def)
  have x1: "inodes ?s1 ip = x\<lparr>i_lock := locked_by s\<rparr>" using x(1) by simp
  have ref: "\<not> i_ref (inodes s ip) < 1" "\<not> i_valid (inodes ?s1 ip)" using x x1 by simp_all
  define C :: "nat \<Rightarrow> ('z kfs_scheme, unit) prog" where "C = (\<lambda>bp. kbind (buf_data bp) (\<lambda>d.
        kthen (kmodify (upd_inode ip (load_dinode (get_dinode d (dinode_off (i_inum x))))))
        (kthen (brelse bp) (kthen (kmodify (upd_inode ip (\<lambda>x. x\<lparr>i_valid := True\<rparr>)))
        (kbind (kget (\<lambda>s. i_type (inodes s ip))) (\<lambda>ty. kwhen (ty = 0) (panic ''ilock: no type'')))))))"
  let ?rest = "kbind (bread ROOTDEV ?B) C"
  have run: "ilock (Some ip) s = ?rest ?s1"
    using acq ref x(2,6) by (simp add: ilock_def kthen_Done kwhen_def C_def x(1) [symmetric])
  have "wp ?rest Q ?s1"
    unfolding wp_seq
  proof (rule tl.rd_rule [OF tx1 _ Bk k])
    fix bp t assume t: "tx t v (insert ?B k) m (txrest ?s1)" "held t bp ?B"
    let ?u = "upd_inode ip (load_dinode ?d) t"
    have u: "tx ?u v (insert ?B k) m (txrest (upd_inode ip (load_dinode ?d) ?s1))" "held ?u bp ?B"
      using tx_upd_inode [OF t(1)] t(2) by simp_all
    have "wp (brelse bp) (\<lambda>_ w. (if i_type (inodes (upd_inode ip (\<lambda>x. x\<lparr>i_valid := True\<rparr>) w) ip) = 0
        then wp (panic ''ilock: no type'') Q (upd_inode ip (\<lambda>x. x\<lparr>i_valid := True\<rparr>) w)
        else Q () (upd_inode ip (\<lambda>x. x\<lparr>i_valid := True\<rparr>) w))) ?u"
    proof (rule tl.rel_rule [OF u])
      fix w assume w: "tx w v (insert ?B k - {?B}) m (txrest (upd_inode ip (load_dinode ?d) ?s1))"
      have w1: "tx w v k m (txrest (upd_inode ip (load_dinode ?d) ?s1))" using w Bk by simp
      have "fs_tx (upd_inode ip (load_dinode ?d) ?s1) ds v k m" by (rule fs_tx_upd_inode [OF s1])
      from fs_tx_step(1) [OF this w1] have "fs_tx w ds v k m" using s by (simp add: fs_tx_def)
      then have f: "fs_tx (upd_inode ip (\<lambda>x. x\<lparr>i_valid := True\<rparr>) w) ds v k m" by (rule fs_tx_upd_inode)
      have iw: "inodes w = (inodes s)(ip := load_dinode ?d (x\<lparr>i_lock := locked_by s\<rparr>))"
        using tx_fs(2) [OF w1] x(1) by simp
      have "Q () (upd_inode ip (\<lambda>x. x\<lparr>i_valid := True\<rparr>) w)"
        by (rule Q [OF f]) (simp_all add: iw load_dinode_def)
      then show "(if i_type (inodes (upd_inode ip (\<lambda>x. x\<lparr>i_valid := True\<rparr>) w) ip) = 0
        then wp (panic ''ilock: no type'') Q (upd_inode ip (\<lambda>x. x\<lparr>i_valid := True\<rparr>) w)
        else Q () (upd_inode ip (\<lambda>x. x\<lparr>i_valid := True\<rparr>) w))" using ty by (simp add: iw load_dinode_def)
    qed
    then show "wp (C bp) Q t"
      unfolding C_def wp_seq by (intro tl.dat_rule [OF t]) (simp add: disk_inode_def wp_base)
  qed (use B in simp)
  then show ?thesis unfolding wp_def run .
qed

definition same_contents :: "inode \<Rightarrow> inode \<Rightarrow> bool" where
  "same_contents x y \<longleftrightarrow> i_type x = i_type y \<and> i_major x = i_major y \<and> i_minor x = i_minor y \<and> i_nlink x = i_nlink y \<and>
     i_size x = i_size y \<and> i_addrs x = i_addrs y"

text \<open>
  C10: An inode written by iupdate() is what ilock() reads. Whatever happens to the in-memory
  copy in between (it is evicted, and its entry refilled for the same inode number by iget()),
  type, device numbers, link count, size and block addresses come back as they were, and no
  other inode on the disk has changed.
\<close>

theorem inode_roundtrip:
  assumes s: "fs_tx s ds v k (Suc m)" and k: "card k \<le> m" and x: "x = inodes s ip" "i_dev x = ROOTDEV"
      "inum_ok (the_sb s) (i_inum x)" "i_type x \<noteq> 0" "\<forall>n>NDIRECT. i_addrs x n = 0"
    and y: "i_dev y = ROOTDEV" "i_inum y = i_inum x" "1 \<le> i_ref y" "\<not> sl_locked (i_lock y)" "\<not> i_valid y"
    and cpu: "cpu_proc s \<noteq> None"
  shows "wp (kthen (iupdate ip) (kthen (kmodify (upd_inode ip (\<lambda>_. y))) (ilock (Some ip))))
    (\<lambda>_ t. same_contents (inodes t ip) x \<and> i_valid (inodes t ip) \<and>
      (\<forall>j. inum_ok (the_sb s) j \<and> j \<noteq> i_inum x \<longrightarrow>
        disk_inode (the_sb s) (cview t) j = disk_inode (the_sb s) v j)) s"
  unfolding wp_kthen
proof (rule wp_iupdate [OF s _ x(1-3)])
  show "card k \<le> Suc m" using k by simp
  fix t assume t: "fs_tx t ds (iupdate_view (the_sb s) x v) k m" "txrest t = txrest s"
  have lay: "layout_ok (the_sb s) ds (disksize s) (the_log s)" and tx: "tx s v k (Suc m) (txrest s)"
    using s by (auto simp: fs_tx_def)
  have d: "disk_inode (the_sb s) (iupdate_view (the_sb s) x v) j = (if j = i_inum x then to_dinode x else disk_inode (the_sb s) v j)"
    if "inum_ok (the_sb s) j" for j
    unfolding iupdate_view_def using x(5) tl.size_law [OF tx]
    by (intro disk_inode_upd [OF lay x(3) that]) (simp_all add: to_dinode_def)
  let ?u = "upd_inode ip (\<lambda>_. y) t"
  have sb: "the_sb ?u = the_sb s" "cpu_proc ?u = cpu_proc s" using txrest_fs(1,5) [OF t(2)] by simp_all
  have u: "fs_tx ?u ds (iupdate_view (the_sb s) x v) k m" by (rule fs_tx_upd_inode [OF t(1)])
  have "wp (ilock (Some ip)) (\<lambda>_ t. same_contents (inodes t ip) x \<and> i_valid (inodes t ip) \<and>
      (\<forall>j. inum_ok (the_sb s) j \<and> j \<noteq> i_inum x \<longrightarrow>
        disk_inode (the_sb s) (cview t) j = disk_inode (the_sb s) v j)) ?u"
  proof (rule wp_ilock_load [OF u k, of y])
    show "d_type (disk_inode (the_sb ?u) (iupdate_view (the_sb s) x v) (i_inum y)) \<noteq> 0"
      using d [OF x(3)] x(4) y(2) sb by (simp add: to_dinode_def)
    fix w assume w: "fs_tx w ds (iupdate_view (the_sb s) x v) k m"
      "inodes w ip = (load_dinode (disk_inode (the_sb ?u) (iupdate_view (the_sb s) x v) (i_inum y)) y)\<lparr>i_lock := locked_by ?u, i_valid := True\<rparr>"
    have "cview w = iupdate_view (the_sb s) x v" using w(1) by (simp add: fs_tx_def tx_def)
    then show "same_contents (inodes w ip) x \<and> i_valid (inodes w ip) \<and>
      (\<forall>j. inum_ok (the_sb s) j \<and> j \<noteq> i_inum x \<longrightarrow> disk_inode (the_sb s) (cview w) j = disk_inode (the_sb s) v j)"
      using w(2) d x(3) y(2) sb by (simp add: same_contents_def to_dinode_def load_dinode_def)
  qed (use y x(3) sb cpu in simp_all)
  then show "wp (kmodify (upd_inode ip (\<lambda>_. y))) (\<lambda>_. wp (ilock (Some ip)) (\<lambda>_ t. same_contents (inodes t ip) x \<and> i_valid (inodes t ip) \<and>
      (\<forall>j. inum_ok (the_sb s) j \<and> j \<noteq> i_inum x \<longrightarrow>
        disk_inode (the_sb s) (cview t) j = disk_inode (the_sb s) v j))) t" by simp
qed

theorem inode_roundtrip_witness:
  "wp (kthen (iupdate 3) (kthen (kmodify (upd_inode 3 (\<lambda>_. (inodes fs_demo 3)\<lparr>i_valid := False, i_size := 77\<rparr>))) (ilock (Some 3))))
    (\<lambda>_ t. same_contents (inodes t 3) (inodes fs_demo 3)) fs_demo"
proof -
  have "fs_tx fs_demo 59 (disk fs_demo) {} (Suc 28)" using fs_demo_tx by simp
  from inode_roundtrip [OF this, of "inodes fs_demo 3" 3 "(inodes fs_demo 3)\<lparr>i_valid := False, i_size := 77\<rparr>"]
  show ?thesis
    by (auto simp: inum_ok_def demo_sb_def T_FILE_def initsleeplock_def fs_demo_def elim!: wp_mono)
qed

section \<open>The inode cache\<close>

text \<open>
  At most one entry of icache is in use for an inode, so all holders of a reference share one
  struct inode and one lock.
\<close>

definition names_inode :: "(nat \<Rightarrow> inode) \<Rightarrow> uint \<Rightarrow> uint \<Rightarrow> nat \<Rightarrow> bool" where
  "names_inode c dev inum i \<longleftrightarrow> i < NINODE \<and> 0 < i_ref (c i) \<and> i_dev (c i) = dev \<and> i_inum (c i) = inum"

definition icache_ok :: "(nat \<Rightarrow> inode) \<Rightarrow> bool" where
  "icache_ok c \<longleftrightarrow> (\<forall>i<NINODE. 0 \<le> i_ref (c i)) \<and>
     (\<forall>dev inum i j. names_inode c dev inum i \<longrightarrow> names_inode c dev inum j \<longrightarrow> i = j)"

lemma iget_hit_Some: "iget_hit dev inum c = Some i \<Longrightarrow> names_inode c dev inum i"
  unfolding iget_hit_def names_inode_def by (drule find_Some_sat) auto

lemma iget_hit_None: "iget_hit dev inum c = None \<longleftrightarrow> (\<forall>i. \<not> names_inode c dev inum i)"
  unfolding iget_hit_def names_inode_def by (auto simp: find_None_iff)

lemma iget_empty_Some: "iget_empty c = Some i \<Longrightarrow> i < NINODE \<and> i_ref (c i) = 0"
  unfolding iget_empty_def by (drule find_Some_sat) auto

lemma icache_ok_bump:
  assumes "icache_ok c" and "names_inode c dev inum i" and "0 \<le> n"
  shows "icache_ok (c(i := (c i)\<lparr>i_ref := n\<rparr>))"
proof -
  have "names_inode (c(i := (c i)\<lparr>i_ref := n\<rparr>)) d m j \<Longrightarrow> names_inode c d m j" for d m j
    using assms(2) by (auto simp: names_inode_def split: if_splits)
  then show ?thesis using assms unfolding icache_ok_def by (metis fun_upd_other fun_upd_same inode.select_convs(3) inode.surjective inode.update_convs(3))
qed

lemma icache_ok_fill:
  assumes "icache_ok c" and "\<forall>j. \<not> names_inode c dev inum j" and "i_ref (c i) = 0"
  shows "icache_ok (c(i := (c i)\<lparr>i_dev := dev, i_inum := inum, i_ref := 1, i_valid := False\<rparr>))"
    (is "icache_ok ?c")
proof -
  have n: "names_inode ?c d m j \<longleftrightarrow> (if j = i then i < NINODE \<and> d = dev \<and> m = inum else names_inode c d m j)" for d m j
    by (auto simp: names_inode_def)
  show ?thesis using assms(1,2) unfolding icache_ok_def n by (auto split: if_splits)
qed

text \<open>
  C13: iget() keeps the cache free of duplicates. It returns the entry that is already in use
  for the inode with one more reference; if there is none and an entry is free, it returns a
  free entry, set up for the inode with one reference and no valid contents; it panics only
  when all entries are in use for other inodes. No other entry changes.
\<close>

theorem iget_unique:
  assumes "icache_ok (inodes s)"
  shows "case iget dev inum s of
      Done i t \<Rightarrow> icache_ok (inodes t) \<and> names_inode (inodes t) dev inum i \<and> (\<forall>j. j \<noteq> i \<longrightarrow> inodes t j = inodes s j) \<and>
        (if \<exists>j. names_inode (inodes s) dev inum j
         then names_inode (inodes s) dev inum i \<and> inodes t i = (inodes s i)\<lparr>i_ref := i_ref (inodes s i) + 1\<rparr>
         else i_ref (inodes s i) = 0 \<and> i_ref (inodes t i) = 1 \<and> \<not> i_valid (inodes t i))
    | Panic e \<Rightarrow> e = ''iget: no inodes'' \<and> (\<forall>j. \<not> names_inode (inodes s) dev inum j) \<and> (\<forall>j<NINODE. 0 < i_ref (inodes s j))
    | _ \<Rightarrow> False"
proof (cases "iget_hit dev inum (inodes s)")
  case (Some i)
  note n = iget_hit_Some [OF Some]
  have "icache_ok ((inodes s)(i := (inodes s i)\<lparr>i_ref := i_ref (inodes s i) + 1\<rparr>))"
    using n by (intro icache_ok_bump [OF assms n]) (simp add: names_inode_def)
  then show ?thesis using n Some by (auto simp: iget_def names_inode_def)
next
  case None
  then have n: "\<forall>j. \<not> names_inode (inodes s) dev inum j" by (simp add: iget_hit_None)
  show ?thesis
  proof (cases "iget_empty (inodes s)")
    case full: None
    then have "\<forall>j<NINODE. i_ref (inodes s j) \<noteq> 0" by (auto simp: iget_empty_def find_None_iff)
    then show ?thesis using None full n assms by (force simp: iget_def icache_ok_def)
  next
    case (Some i)
    note e = iget_empty_Some [OF Some]
    show ?thesis using icache_ok_fill [OF assms n] e None Some n by (auto simp: iget_def names_inode_def)
  qed
qed

theorem iget_unique_witness:
  "\<exists>t. iget ROOTDEV 7 (fs_demo\<lparr>inodes := (\<lambda>i. (inodes fs_demo i)\<lparr>i_ref := 0\<rparr>)\<rparr>) = Done 0 t \<and> icache_ok (inodes t)"
proof -
  let ?s = "fs_demo\<lparr>inodes := (\<lambda>i. (inodes fs_demo i)\<lparr>i_ref := 0\<rparr>)\<rparr>"
  have ok: "icache_ok (inodes ?s)" by (simp add: icache_ok_def names_inode_def)
  have "iget_hit ROOTDEV 7 (inodes ?s) = None" "iget_empty (inodes ?s) = Some 0"
    by (simp_all add: iget_hit_def find_None_iff iget_empty_def NINODE_def upt_rec)
  then obtain t where "iget ROOTDEV 7 ?s = Done 0 t" by (simp add: iget_def)
  then show ?thesis using iget_unique [OF ok, of ROOTDEV 7] by simp
qed

text \<open>bfree() of a block that the free map does not mark in use panics.\<close>

lemma bfree_free_panics:
  assumes s: "fs_tx s ds v {} (Suc m)" and b: "in_fs (the_sb s) b" "\<not> blk_used (the_sb s) v b"
  shows "bfree ROOTDEV b s = Panic ''freeing free block''"
proof -
  let ?sb = "the_sb s" let ?B = "BBLOCK b ?sb"
  have tx: "tx s v {} (Suc m) (txrest s)" and lay: "layout_ok ?sb ds (disksize s) (the_log s)"
    using s by (auto simp: fs_tx_def)
  have "wp (bread ROOTDEV ?B) (\<lambda>bp t. tx t v {?B} (Suc m) (txrest s) \<and> held t bp ?B) s"
    by (rule tl.rd_rule [OF tx]) (use unat_BBLOCK [OF lay b(1)] in simp_all)
  then obtain bp t where t: "bread ROOTDEV ?B s = Done bp t" "tx t v {?B} (Suc m) (txrest s)" "held t bp ?B"
    by (auto simp: wp_iff)
  have "wp (buf_data bp) (\<lambda>d u. d = v ?B \<and> u = t) t" by (rule tl.dat_rule [OF t(2,3)]) simp
  then have "buf_data bp t = Done (v ?B) t" by (auto simp: wp_iff)
  then show ?thesis using t(1) b(2) by (simp add: bfree_def kbind_Done blk_used_def Let_def)
qed

end
