(* ===== verification/Grep.thy ===== *)
theory Grep
  imports Prelude
begin

text \<open>
  grep.c: the regular-expression matcher with the operators ^ . * $ and the loop that prints
  the matching lines of its input. A C string is the list of its characters without the
  terminating NUL. The matcher is shown equivalent to a declarative reading of patterns; for
  the line loop the results of the read() calls are an argument.
\<close>

section \<open>The matcher\<close>

definition CARET :: byte where "CARET = 0x5E"
definition DOT :: byte where "DOT = 0x2E"
definition STAR :: byte where "STAR = 0x2A"
definition DOLLAR :: byte where "DOLLAR = 0x24"
definition NL :: byte where "NL = 0x0A"

function matchhere :: "byte list \<Rightarrow> byte list \<Rightarrow> bool"
  and matchstar :: "byte \<Rightarrow> byte list \<Rightarrow> byte list \<Rightarrow> bool" where
  "matchhere [] str = True"
| "matchhere (c # re) str =
     (if re \<noteq> [] \<and> hd re = STAR then matchstar c (tl re) str
      else if c = DOLLAR \<and> re = [] then str = []
      else case str of [] \<Rightarrow> False
        | t # ts \<Rightarrow> (if c = DOT \<or> c = t then matchhere re ts else False))"
| "matchstar c re str =
     (if matchhere re str then True
      else case str of [] \<Rightarrow> False
        | t # ts \<Rightarrow> (if t = c \<or> c = DOT then matchstar c re ts else False))"
  by pat_completeness auto
termination
  by (relation "measures [\<lambda>x. case x of Inl (re, _) \<Rightarrow> 2 * length re | Inr (_, re, _) \<Rightarrow> 2 * length re + 1,
      \<lambda>x. case x of Inl (_, str) \<Rightarrow> length str | Inr (_, _, str) \<Rightarrow> length str]")
    (auto simp: neq_Nil_conv)

declare matchhere.simps [simp del] matchstar.simps [simp del]

text \<open>The loop of match() tries the pattern at every suffix of the text, the empty one included.\<close>

primrec match_loop :: "byte list \<Rightarrow> byte list \<Rightarrow> bool" where
  "match_loop re [] = matchhere re []"
| "match_loop re (t # ts) = (if matchhere re (t # ts) then True else match_loop re ts)"

definition match :: "byte list \<Rightarrow> byte list \<Rightarrow> bool" where
  "match re str = (if re \<noteq> [] \<and> hd re = CARET then matchhere (tl re) str else match_loop re str)"

section \<open>What a pattern means\<close>

text \<open>
  A pattern is a sequence of items, each a character (a dot stands for any) that is repeated
  or not, optionally anchored at the end of the text by a final dollar.
\<close>

function items :: "byte list \<Rightarrow> (byte \<times> bool) list \<times> bool" where
  "items [] = ([], False)"
| "items (c # re) =
     (if re \<noteq> [] \<and> hd re = STAR then apfst ((#) (c, True)) (items (tl re))
      else if c = DOLLAR \<and> re = [] then ([], True)
      else apfst ((#) (c, False)) (items re))"
  by pat_completeness auto
termination
  by (relation "measure length") (auto simp: neq_Nil_conv)

declare items.simps(2) [simp del]

definition stands_for :: "byte \<Rightarrow> byte \<Rightarrow> bool" where
  "stands_for c t \<longleftrightarrow> c = DOT \<or> c = t"

inductive reads_as :: "(byte \<times> bool) list \<Rightarrow> byte list \<Rightarrow> bool" where
  none: "reads_as [] []"
| one: "stands_for c t \<Longrightarrow> reads_as ps u \<Longrightarrow> reads_as ((c, False) # ps) (t # u)"
| many: "\<forall>t\<in>set w. stands_for c t \<Longrightarrow> reads_as ps u \<Longrightarrow> reads_as ((c, True) # ps) (w @ u)"

inductive_cases reads_as_NilE: "reads_as [] u"
inductive_cases reads_as_oneE: "reads_as ((c, False) # ps) u"
inductive_cases reads_as_manyE: "reads_as ((c, True) # ps) u"

definition occurs_at :: "byte list \<Rightarrow> byte list \<Rightarrow> bool" where
  "occurs_at re str \<longleftrightarrow> (\<exists>u v. str = u @ v \<and> reads_as (fst (items re)) u \<and> (snd (items re) \<longrightarrow> v = []))"

lemma occurs_at_Nil [simp]: "occurs_at [] str"
  by (auto simp: occurs_at_def intro: reads_as.none)

lemma occurs_at_end: "occurs_at [DOLLAR] str \<longleftrightarrow> str = []"
  by (auto simp: occurs_at_def items.simps elim: reads_as_NilE intro: reads_as.none)

lemma occurs_at_one:
  assumes "\<not> (re \<noteq> [] \<and> hd re = STAR)" "\<not> (c = DOLLAR \<and> re = [])"
  shows "occurs_at (c # re) str \<longleftrightarrow> (\<exists>t ts. str = t # ts \<and> stands_for c t \<and> occurs_at re ts)"
proof
  assume "occurs_at (c # re) str"
  then obtain u v where u: "str = u @ v" "reads_as ((c, False) # fst (items re)) u" "snd (items re) \<longrightarrow> v = []"
    unfolding occurs_at_def items.simps(2) using assms by auto
  from u(2) obtain t u' where t: "u = t # u'" "stands_for c t" "reads_as (fst (items re)) u'" by (rule reads_as_oneE)
  then have "occurs_at re (u' @ v)" using u(3) by (auto simp: occurs_at_def)
  then show "\<exists>t ts. str = t # ts \<and> stands_for c t \<and> occurs_at re ts" using u(1) t by simp
next
  assume "\<exists>t ts. str = t # ts \<and> stands_for c t \<and> occurs_at re ts"
  then obtain t u v where "str = t # u @ v" "stands_for c t" "reads_as (fst (items re)) u" "snd (items re) \<longrightarrow> v = []"
    by (auto simp: occurs_at_def)
  moreover from this have "reads_as ((c, False) # fst (items re)) (t # u)" by (blast intro: reads_as.one)
  moreover have "items (c # re) = apfst ((#) (c, False)) (items re)" using assms by (auto simp: items.simps(2))
  ultimately show "occurs_at (c # re) str"
    unfolding occurs_at_def by (metis append_Cons apfst_conv fst_apfst snd_apfst)
qed

lemma occurs_at_star:
  "occurs_at (c # STAR # re) str \<longleftrightarrow> (\<exists>w r. str = w @ r \<and> (\<forall>t\<in>set w. stands_for c t) \<and> occurs_at re r)"
proof
  assume "occurs_at (c # STAR # re) str"
  then obtain u v where u: "str = u @ v" "reads_as ((c, True) # fst (items re)) u" "snd (items re) \<longrightarrow> v = []"
    unfolding occurs_at_def items.simps(2) by auto
  from u(2) obtain w u' where w: "u = w @ u'" "\<forall>t\<in>set w. stands_for c t" "reads_as (fst (items re)) u'" by (rule reads_as_manyE)
  then have "occurs_at re (u' @ v)" using u(3) by (auto simp: occurs_at_def)
  then show "\<exists>w r. str = w @ r \<and> (\<forall>t\<in>set w. stands_for c t) \<and> occurs_at re r" using u(1) w by auto
next
  assume "\<exists>w r. str = w @ r \<and> (\<forall>t\<in>set w. stands_for c t) \<and> occurs_at re r"
  then obtain w u v where w: "str = w @ u @ v" "\<forall>t\<in>set w. stands_for c t" "reads_as (fst (items re)) u"
    "snd (items re) \<longrightarrow> v = []" by (auto simp: occurs_at_def)
  then have "reads_as ((c, True) # fst (items re)) (w @ u)" by (blast intro: reads_as.many)
  moreover have "items (c # STAR # re) = apfst ((#) (c, True)) (items re)" by (simp add: items.simps(2))
  ultimately show "occurs_at (c # STAR # re) str"
    unfolding occurs_at_def using w by (metis append_assoc fst_apfst snd_apfst)
qed

lemma star_split:
  "(\<exists>w r. str = w @ r \<and> (\<forall>t\<in>set w. stands_for c t) \<and> P r) \<longleftrightarrow> P str \<or>
    (\<exists>t ts. str = t # ts \<and> stands_for c t \<and> (\<exists>w r. ts = w @ r \<and> (\<forall>t\<in>set w. stands_for c t) \<and> P r))"
  (is "?l = (_ \<or> ?r)")
proof
  assume ?l
  then obtain w r where w: "str = w @ r" "\<forall>t\<in>set w. stands_for c t" "P r" by blast
  show "P str \<or> ?r"
  proof (cases w)
    case (Cons t w')
    then have ?r using w by auto
    then show ?thesis ..
  qed (use w in simp)
next
  assume "P str \<or> ?r"
  then show ?l
  proof
    assume ?r
    then obtain t w r where "str = (t # w) @ r" "\<forall>t\<in>set (t # w). stands_for c t" "P r" by auto
    then show ?l by blast
  qed (auto intro: exI [of _ "[]"])
qed

lemma matcher_spec:
  "matchhere re str \<longleftrightarrow> occurs_at re str"
  "matchstar c re str \<longleftrightarrow> (\<exists>w r. str = w @ r \<and> (\<forall>t\<in>set w. stands_for c t) \<and> occurs_at re r)"
proof (induction re str and c re str rule: matchhere_matchstar.induct)
  case (1 str)
  show ?case by (simp add: matchhere.simps)
next
  case (2 c re str)
  show ?case
  proof (cases "re \<noteq> [] \<and> hd re = STAR")
    case True
    then have re: "re = STAR # tl re" by (cases re) auto
    then have "matchhere (c # re) str = matchstar c (tl re) str" using True by (simp add: matchhere.simps)
    with 2(1) [OF True] show ?thesis using occurs_at_star [of c "tl re" str] re by simp
  next
    case False
    note F = this
    show ?thesis
    proof (cases "c = DOLLAR \<and> re = []")
      case True
      then show ?thesis by (simp add: matchhere.simps occurs_at_end)
    next
      case False
      then show ?thesis using 2(2) [OF F False] occurs_at_one [OF F False, of str] F
        by (auto simp: matchhere.simps(2) stands_for_def split: list.split)
    qed
  qed
next
  case (3 c re str)
  show ?case
  proof (cases str)
    case Nil
    then show ?thesis using 3(1) by (simp add: matchstar.simps)
  next
    case (Cons t ts)
    have "matchstar c re str \<longleftrightarrow> occurs_at re str \<or> (stands_for c t \<and> matchstar c re ts)"
      using 3(1) Cons by (auto simp: matchstar.simps [of c re "t # ts"] stands_for_def)
    moreover have "occurs_at re str \<or> (stands_for c t \<and> matchstar c re ts) \<longleftrightarrow> occurs_at re str \<or>
      (stands_for c t \<and> (\<exists>w r. ts = w @ r \<and> (\<forall>t\<in>set w. stands_for c t) \<and> occurs_at re r))"
      using 3(2) [OF _ Cons] 3(1) by (auto simp only: stands_for_def)
    ultimately show ?thesis using star_split [of str c "occurs_at re"] Cons by simp
  qed
qed

lemma match_loop_spec: "match_loop re str \<longleftrightarrow> (\<exists>p r. str = p @ r \<and> occurs_at re r)"
proof (induction str)
  case (Cons t ts)
  have "(\<exists>p r. t # ts = p @ r \<and> occurs_at re r) \<longleftrightarrow> occurs_at re (t # ts) \<or> (\<exists>p r. ts = p @ r \<and> occurs_at re r)"
    by (metis append_Cons append_Nil list.distinct(1) list.inject neq_Nil_conv)
  with Cons show ?case by (simp add: matcher_spec)
qed (simp add: matcher_spec)

text \<open>
  C28: The matcher of grep decides what patterns mean. match() accepts a text exactly when some
  part of it reads as the items of the pattern, the part starting where the text starts if the
  pattern begins with ^ and ending where the text ends if it ends with $.
\<close>

theorem match_correct:
  "match re str \<longleftrightarrow>
    (let anchored = (re \<noteq> [] \<and> hd re = CARET); ps = items (if anchored then tl re else re) in
     \<exists>pre u post. str = pre @ u @ post \<and> reads_as (fst ps) u \<and> (if anchored then pre = [] else True) \<and>
       (if snd ps then post = [] else True))"
  by (auto simp: match_def matcher_spec match_loop_spec occurs_at_def Let_def)

section \<open>The line loop\<close>

text \<open>
  \<open>grep_lines\<close> is the inner loop over the text \<open>p\<close> in the buffer: it returns what is written
  and the str after the last line. strchr() looks for the newline up to the first NUL.
\<close>

function grep_lines :: "byte list \<Rightarrow> byte list \<Rightarrow> byte list list \<times> byte list" where
  "grep_lines pattern p =
     (let l = takeWhile (\<lambda>c. c \<noteq> NL \<and> c \<noteq> 0) p; q = drop (length l) p in
      if q \<noteq> [] \<and> hd q = NL
      then apfst ((@) (if match pattern l then [l @ [NL]] else [])) (grep_lines pattern (tl q))
      else ([], p))"
  by pat_completeness auto
termination
proof (relation "measure (length \<circ> snd)")
  fix pattern p l and q :: "byte list" assume "q = drop (length l) p" "q \<noteq> [] \<and> hd q = NL"
  then have "length (tl q) < length p" by (cases q) auto
  then show "((pattern, tl q), pattern, p) \<in> measure (length \<circ> snd)" by simp
qed simp

declare grep_lines.simps [simp del]

text \<open>
  grep(): \<open>reads\<close> are the results of the successive calls of read(), each appended to the
  unfinished line kept in the buffer; the result is the sequence of lines written.
\<close>

primrec grep :: "byte list \<Rightarrow> byte list list \<Rightarrow> byte list \<Rightarrow> byte list list" where
  "grep pattern [] kept = []"
| "grep pattern (r # rs) kept = (if r = [] then [] else
     let b = kept @ r; (out, p) = grep_lines pattern b in
     out @ grep pattern rs (if length p = length b then [] else p))"

text \<open>The complete lines of an input.\<close>

function full_lines :: "byte list \<Rightarrow> byte list list" where
  "full_lines x = (if NL \<in> set x
     then takeWhile (\<lambda>c. c \<noteq> NL) x # full_lines (tl (dropWhile (\<lambda>c. c \<noteq> NL) x)) else [])"
  by pat_completeness auto
termination
proof (relation "measure length")
  fix x :: "byte list" assume "NL \<in> set x"
  then have "dropWhile (\<lambda>c. c \<noteq> NL) x \<noteq> []" by (auto simp: dropWhile_eq_Nil_conv)
  then show "(tl (dropWhile (\<lambda>c. c \<noteq> NL) x), x) \<in> measure length"
    using length_dropWhile_le [of "\<lambda>c. c \<noteq> NL" x] by (cases "dropWhile (\<lambda>c. c \<noteq> NL) x") auto
qed simp

declare full_lines.simps [simp del]

lemma split_line:
  assumes "NL \<in> set x"
  obtains l r where "x = l @ NL # r" and "NL \<notin> set l"
  using assms by (auto dest: split_list_first)

lemma line_parts:
  "NL \<notin> set l \<Longrightarrow> takeWhile (\<lambda>c. c \<noteq> NL) (l @ NL # r) = l"
  "NL \<notin> set l \<Longrightarrow> dropWhile (\<lambda>c. c \<noteq> NL) (l @ NL # r) = NL # r"
  "NL \<notin> set l \<Longrightarrow> 0 \<notin> set l \<Longrightarrow> takeWhile (\<lambda>c. c \<noteq> NL \<and> c \<noteq> 0) (l @ NL # r) = l"
  by (induction l) auto

lemma full_lines_line: "NL \<notin> set l \<Longrightarrow> full_lines (l @ NL # r) = l # full_lines r"
  by (subst full_lines.simps) (simp add: line_parts)

lemma full_lines_none: "NL \<notin> set x \<Longrightarrow> full_lines x = []"
  by (subst full_lines.simps) simp

definition after_last :: "byte list \<Rightarrow> byte list" where
  "after_last x = rev (takeWhile (\<lambda>c. c \<noteq> NL) (rev x))"

lemma after_last_line: "after_last (l @ NL # r) = after_last r"
  by (simp add: after_last_def takeWhile_tail)

lemma after_last_none: "NL \<notin> set x \<Longrightarrow> after_last x = x"
proof -
  assume "NL \<notin> set x"
  then have "takeWhile (\<lambda>c. c \<noteq> NL) (rev x) = rev x" by (auto simp: takeWhile_eq_all_conv)
  then show ?thesis unfolding after_last_def by (simp only: rev_rev_ident)
qed

lemma grep_lines_line:
  assumes "NL \<notin> set l" and "0 \<notin> set l"
  shows "grep_lines pat (l @ NL # r) = apfst ((@) (if match pat l then [l @ [NL]] else [])) (grep_lines pat r)"
  using assms by (subst grep_lines.simps) (simp add: line_parts)

lemma grep_lines_none: "NL \<notin> set x \<Longrightarrow> grep_lines pat x = ([], x)"
proof -
  assume n: "NL \<notin> set x"
  have "hd (drop k x) \<noteq> NL" if "drop k x \<noteq> []" for k
    using n that by (metis hd_in_set in_set_dropD)
  then show ?thesis by (subst grep_lines.simps) (auto simp: Let_def)
qed

lemma grep_lines_spec:
  assumes "0 \<notin> set x"
  shows "grep_lines pat x = (map (\<lambda>l. l @ [NL]) (filter (match pat) (full_lines x)), after_last x)"
  using assms
proof (induction x rule: full_lines.induct)
  case (1 x)
  show ?case
  proof (cases "NL \<in> set x")
    case True
    then obtain l r where x: "x = l @ NL # r" "NL \<notin> set l" by (rule split_line)
    have "tl (dropWhile (\<lambda>c. c \<noteq> NL) x) = r" using x by (simp add: line_parts)
    then have "grep_lines pat r = (map (\<lambda>l. l @ [NL]) (filter (match pat) (full_lines r)), after_last r)"
      using 1 True x by simp
    then show ?thesis using x 1(2) by (simp add: grep_lines_line full_lines_line after_last_line)
  qed (simp add: grep_lines_none full_lines_none after_last_none)
qed

lemma after_last_append: "after_last (a @ b) = (if NL \<in> set b then after_last b else after_last a @ b)"
  unfolding after_last_def by (auto simp: takeWhile_append)

lemma after_last_clean: "NL \<notin> set (after_last x)"
  unfolding after_last_def by (auto dest: set_takeWhileD)

lemma after_last_short: "NL \<in> set x \<Longrightarrow> length (after_last x) < length x"
proof -
  assume "NL \<in> set x"
  then obtain l r where "x = l @ NL # r" by (auto dest: split_list)
  then have "after_last x = after_last r" by (simp add: after_last_line)
  moreover have "length (after_last r) \<le> length r"
    using length_takeWhile_le [of "\<lambda>c. c \<noteq> NL" "rev r"] by (simp add: after_last_def)
  ultimately show ?thesis using \<open>x = l @ NL # r\<close> by simp
qed

lemma full_lines_append: "full_lines (a @ b) = full_lines a @ full_lines (after_last a @ b)"
proof (induction a rule: full_lines.induct)
  case (1 x)
  show ?case
  proof (cases "NL \<in> set x")
    case True
    then obtain l r where x: "x = l @ NL # r" "NL \<notin> set l" by (rule split_line)
    have "tl (dropWhile (\<lambda>c. c \<noteq> NL) x) = r" using x by (simp add: line_parts)
    then show ?thesis using 1 True x by (simp add: full_lines_line after_last_line)
  qed (simp add: full_lines_none after_last_none)
qed

lemma grep_spec:
  assumes "\<forall>r\<in>set reads. NL \<in> set r \<and> 0 \<notin> set r" and "NL \<notin> set kept" "0 \<notin> set kept"
  shows "grep pat reads kept = map (\<lambda>l. l @ [NL]) (filter (match pat) (full_lines (kept @ concat reads)))"
  using assms
proof (induction reads arbitrary: kept)
  case Nil
  then show ?case by (simp add: full_lines_none)
next
  case (Cons r rs)
  let ?b = "kept @ r"
  have r: "NL \<in> set r" "0 \<notin> set ?b" "r \<noteq> []" using Cons.prems by auto
  have "0 \<notin> set (after_last ?b)" using r(2) unfolding after_last_def by (auto dest: set_takeWhileD)
  then have ih: "grep pat rs (after_last ?b) = map (\<lambda>l. l @ [NL]) (filter (match pat) (full_lines (after_last ?b @ concat rs)))"
    using Cons.prems by (intro Cons.IH) (auto simp: after_last_clean)
  have "length (after_last ?b) \<noteq> length ?b"
    using after_last_short [of ?b] r(1) by simp
  then show ?case using ih full_lines_append [of ?b "concat rs"] r by (simp add: grep_lines_spec Let_def)
qed

text \<open>
  C29: grep prints the matching lines. When every read() returns some complete line (and no NUL
  byte), the lines written are exactly the complete lines of the input that match, in order,
  also where a line arrives in two pieces.
\<close>

theorem grep_prints_matches:
  assumes "\<forall>r\<in>set reads. NL \<in> set r \<and> 0 \<notin> set r"
  shows "grep pattern reads [] = map (\<lambda>l. l @ [NL]) (filter (match pattern) (full_lines (concat reads)))"
  using grep_spec [OF assms, of "[]"] by simp

theorem grep_prints_matches_witness:
  "grep [0x61, STAR, 0x62] [[0x61, NL, 0x61], [0x62, NL]] [] = [[0x61, 0x62, NL]]"
  using grep_prints_matches [of "[[0x61, NL, 0x61], [0x62, NL]]" "[0x61, STAR, 0x62]"]
  by (simp add: NL_def full_lines.simps match_def CARET_def STAR_def DOT_def DOLLAR_def
      matchhere.simps matchstar.simps)

text \<open>
  C34: A line that arrives in pieces is cut when a piece holds no newline. Whatever grep has kept
  of a line and whatever the next read \<open>a\<close> brings, if there is no newline in them they are
  dropped: when the read after it brings the rest \<open>b\<close> of the line, grep decides by \<open>b\<close> alone and prints
  \<open>b\<close> alone, although the line of the input is \<open>kept @ a @ b\<close>.
\<close>

theorem grep_drops_split_line:
  assumes "a \<noteq> []" "NL \<notin> set (kept @ a @ b)" "0 \<notin> set b"
  shows "grep pat (a # (b @ [NL]) # rs) kept = (if match pat b then [b @ [NL]] else []) @ grep pat rs [] \<and>
    full_lines (kept @ a @ b @ [NL]) = [kept @ a @ b]"
proof
  have "grep_lines pat (kept @ a) = ([], kept @ a)" using assms(2) by (intro grep_lines_none) simp
  moreover have "grep_lines pat (b @ [NL]) = (if match pat b then [b @ [NL]] else [], [])"
    using grep_lines_line [of b pat "[]"] grep_lines_none [of "[]" pat] assms(2,3) by simp
  ultimately show "grep pat (a # (b @ [NL]) # rs) kept = (if match pat b then [b @ [NL]] else []) @ grep pat rs []"
    using assms(1) by simp
  show "full_lines (kept @ a @ b @ [NL]) = [kept @ a @ b]"
    using full_lines_line [of "kept @ a @ b" "[]"] full_lines_none [of "[]"] assms(2) by simp
qed

text \<open>The pattern \<open>a\<close> and the line \<open>ab\<close>, which matches and is not printed.\<close>

theorem grep_drops_split_line_witness:
  "full_lines [0x61, 0x62, NL] = [[0x61, 0x62]] \<and> match [0x61] [0x61, 0x62] \<and> grep [0x61] [[0x61], [0x62, NL]] [] = []"
proof -
  have "match [0x61] [0x61, 0x62]" "\<not> match [0x61] [0x62]"
    by (simp_all add: match_def CARET_def STAR_def DOT_def DOLLAR_def matchhere.simps matchstar.simps)
  then show ?thesis using grep_drops_split_line [of "[0x61]" "[]" "[0x62]" "[0x61]" "[]"] by (simp add: NL_def)
qed

end
