(* ===== verification/Mmu.thy ===== *)
theory Mmu
  imports CStrings
begin

text \<open>
  mmu.h and memlayout.h: pages, the parts of a virtual address, page-table entries and the
  address-space layout; and 32-bit words in byte memory.
\<close>

section \<open>Constants\<close>

definition PGSIZE :: uint where "PGSIZE = 4096"
definition KERNBASE :: addr where "KERNBASE = 0x80000000"
definition EXTMEM :: addr where "EXTMEM = 0x100000"
definition PHYSTOP :: addr where "PHYSTOP = 0xE000000"
definition DEVSPACE :: addr where "DEVSPACE = 0xFE000000"
definition KERNLINK :: addr where "KERNLINK = KERNBASE + EXTMEM"

definition V2P :: "addr \<Rightarrow> addr" where "V2P a = a - KERNBASE"
definition P2V :: "addr \<Rightarrow> addr" where "P2V a = a + KERNBASE"

definition FL_IF :: uint where "FL_IF = 0x200"
definition SEG_UCODE :: ushort where "SEG_UCODE = 3"
definition SEG_UDATA :: ushort where "SEG_UDATA = 4"
definition DPL_USER :: ushort where "DPL_USER = 3"

definition PDX :: "addr \<Rightarrow> uint" where "PDX va = drop_bit 22 va AND 0x3FF"
definition PTX :: "addr \<Rightarrow> uint" where "PTX va = drop_bit 12 va AND 0x3FF"
definition PGADDR :: "uint \<Rightarrow> uint \<Rightarrow> uint \<Rightarrow> addr" where "PGADDR d t p = push_bit 22 d OR push_bit 12 t OR p"

definition NPDENTRIES :: nat where "NPDENTRIES = 1024"

definition PGROUNDUP :: "addr \<Rightarrow> addr" where "PGROUNDUP sz = (sz + PGSIZE - 1) AND NOT (PGSIZE - 1)"
definition PGROUNDDOWN :: "addr \<Rightarrow> addr" where "PGROUNDDOWN a = a AND NOT (PGSIZE - 1)"

definition PTE_P :: uint where "PTE_P = 1"
definition PTE_W :: uint where "PTE_W = 2"
definition PTE_U :: uint where "PTE_U = 4"
definition PTE_ADDR :: "uint \<Rightarrow> addr" where "PTE_ADDR pte = pte AND NOT 0xFFF"
definition PTE_FLAGS :: "uint \<Rightarrow> uint" where "PTE_FLAGS pte = pte AND 0xFFF"

section \<open>Words in memory\<close>

definition rd32 :: "mem \<Rightarrow> addr \<Rightarrow> uint" where
  "rd32 m a = ucast (m a) OR push_bit 8 (ucast (m (a + 1))) OR push_bit 16 (ucast (m (a + 2)))
     OR push_bit 24 (ucast (m (a + 3)))"

definition wr32 :: "mem \<Rightarrow> addr \<Rightarrow> uint \<Rightarrow> mem" where
  "wr32 m a v = m(a := ucast v, a + 1 := ucast (drop_bit 8 v), a + 2 := ucast (drop_bit 16 v),
     a + 3 := ucast (drop_bit 24 v))"

lemma rd32_wr32_same [simp]: "rd32 (wr32 m a v) a = v"
proof (rule bit_word_eqI)
  fix n assume "n < LENGTH(32)"
  moreover have "n < 8 \<or> (8 \<le> n \<and> n < 16) \<or> (16 \<le> n \<and> n < 24) \<or> 24 \<le> n" by arith
  ultimately show "bit (rd32 (wr32 m a v) a) n \<longleftrightarrow> bit v n"
    by (auto simp: rd32_def wr32_def bit_simps)
qed

lemma rd32_cong: "(\<And>i. i < 4 \<Longrightarrow> m (a + of_nat i) = m' (a + of_nat i)) \<Longrightarrow> rd32 m a = rd32 m' a"
proof -
  assume e: "\<And>i. i < 4 \<Longrightarrow> m (a + of_nat i) = m' (a + of_nat i)"
  show ?thesis using e [of 0] e [of 1] e [of 2] e [of 3] by (simp add: rd32_def)
qed

section \<open>Pages\<close>

lemma unat_page_step: "\<not> p + PGSIZE < p \<Longrightarrow> unat (p + PGSIZE) = unat p + 4096"
  by (simp add: word_less_nat_alt unat_plus_if' PGSIZE_def split: if_splits)

lemma page_mask: "NOT (PGSIZE - 1) = NOT (mask 12)" "(NOT 0xFFF :: uint) = NOT (mask 12)" "(0xFFF :: uint) = mask 12"
  by (simp_all add: PGSIZE_def mask_eq_exp_minus_1)

lemma mask_shift: "(a :: uint) AND NOT (mask 12) = push_bit 12 (drop_bit 12 a)"
  by (rule bit_word_eqI) (auto simp: bit_simps)

lemma PGROUNDDOWN_nat: "unat (PGROUNDDOWN a) = 4096 * (unat a div 4096)"
proof -
  have t: "take_bit 32 (unat a) = unat a" using unat_bound [of a] by (simp only: take_bit_nat_eq_self_iff)
  have "unat (PGROUNDDOWN a) = take_bit 32 (push_bit 12 (drop_bit 12 (unat a)))"
    unfolding PGROUNDDOWN_def page_mask mask_shift by (simp add: unsigned_push_bit_eq unsigned_drop_bit_eq t)
  also have "\<dots> = 4096 * (unat a div 4096)"
    using unat_bound [of a] by (simp add: push_bit_eq_mult drop_bit_eq_div take_bit_nat_eq_self_iff mult.commute)
  finally show ?thesis .
qed

lemma aligned_iff: "v mod PGSIZE = 0 \<longleftrightarrow> unat v mod 4096 = 0"
proof -
  have "v mod PGSIZE = 0 \<longleftrightarrow> unat (v mod PGSIZE) = 0" by (simp only: unat_eq_zero)
  then show ?thesis by (simp add: unat_mod_distrib PGSIZE_def)
qed

lemma page_span:
  assumes "p mod PGSIZE = 0"
  shows "a \<in> span p 4096 \<longleftrightarrow> PGROUNDDOWN a = p"
proof -
  have p: "unat p mod 4096 = 0" using assms by (simp add: aligned_iff)
  then obtain k where k: "unat p = 4096 * k" by auto
  then have "k < 1048576" using unat_bound [of p] by simp
  then have big: "unat p + i < 2 ^ 32" if "i < 4096" for i using k that by simp
  show ?thesis
  proof
    assume "a \<in> span p 4096"
    then obtain i where i: "i < 4096" "a = p + of_nat i" using span_memb by blast
    have "unat a = unat p + i" using i big [OF i(1)] unat_of_nat_small [of i] by (simp add: unat_plus_if')
    then have "unat (PGROUNDDOWN a) = unat p" using k i(1) by (simp add: PGROUNDDOWN_nat)
    then show "PGROUNDDOWN a = p" by (simp add: word_unat_eq_iff)
  next
    assume "PGROUNDDOWN a = p"
    then have u: "unat a = unat p + unat a mod 4096" using PGROUNDDOWN_nat [of a] by simp
    have "a = p + of_nat (unat a mod 4096)"
      using u big [of "unat a mod 4096"] unat_of_nat_small [of "unat a mod 4096"]
      by (simp add: word_unat_eq_iff unat_plus_if')
    then show "a \<in> span p 4096" unfolding span_def by (intro image_eqI [of _ _ "unat a mod 4096"]) auto
  qed
qed

lemma page_disjoint: "p mod PGSIZE = 0 \<Longrightarrow> q mod PGSIZE = 0 \<Longrightarrow> p \<noteq> q \<Longrightarrow> a \<in> span p 4096 \<Longrightarrow> a \<notin> span q 4096"
  by (simp add: page_span)

lemma in_span: "i < n \<Longrightarrow> a + of_nat i \<in> span a n"
  by (auto simp: span_def)

lemma wr32_other: "x \<notin> span a 4 \<Longrightarrow> wr32 m a v x = m x"
  using in_span [of 0 4 a] in_span [of 1 4 a] in_span [of 2 4 a] in_span [of 3 4 a] by (auto simp: wr32_def)

lemma span_mono: "m \<le> n \<Longrightarrow> span a m \<subseteq> span a n"
  by (auto simp: span_def)

section \<open>Aligned words\<close>

lemma word_step:
  assumes "unat (a :: addr) mod 4 = 0" and "i < 4"
  shows "unat (a + of_nat i) = unat a + i"
proof -
  obtain k where k: "unat a = 4 * k" using assms(1) by auto
  then have "k < 1073741824" using unat_bound [of a] by simp
  then show ?thesis using k assms(2) unat_of_nat_small [of i] by (simp add: unat_plus_if')
qed

lemma word_span_disjoint:
  fixes a b :: addr
  assumes "unat a mod 4 = 0" "unat b mod 4 = 0" "a \<noteq> b" "i < 4"
  shows "b + of_nat i \<notin> span a 4"
proof
  assume "b + of_nat i \<in> span a 4"
  then obtain j where j: "j < 4" "b + of_nat i = a + of_nat j" using span_memb by blast
  then have e: "unat b + i = unat a + j" using word_step [OF assms(1) j(1)] word_step [OF assms(2,4)] by simp
  obtain k where k: "unat a = 4 * k" using assms(1) by auto
  obtain l where l: "unat b = 4 * l" using assms(2) by auto
  have "k = l" using e k l j(1) assms(4) by presburger
  then show False using k l assms(3) by (simp add: word_unat_eq_iff)
qed

lemma rd32_wr32_other:
  assumes "unat a mod 4 = 0" "unat b mod 4 = 0" "a \<noteq> b"
  shows "rd32 (wr32 m a v) b = rd32 m b"
  by (rule rd32_cong) (intro wr32_other word_span_disjoint assms)

lemma PDX_bound: "unat (PDX va) < 1024" and PTX_bound: "unat (PTX va) < 1024"
proof -
  have m: "(0x3FF :: uint) = mask 10" by (simp add: mask_eq_exp_minus_1)
  have "unat (x AND 0x3FF) < 1024" for x :: uint
    unfolding m take_bit_eq_mask [symmetric] by (simp add: take_bit_eq_mod unat_mod_distrib)
  then show "unat (PDX va) < 1024" "unat (PTX va) < 1024" by (simp_all add: PDX_def PTX_def)
qed

text \<open>The word at index \<open>i\<close> of the table in page \<open>p\<close>.\<close>

lemma entry_nat:
  assumes "p mod PGSIZE = 0" and "unat i < 1024"
  shows "unat (p + 4 * i) = unat p + 4 * unat i"
proof -
  obtain k where k: "unat p = 4096 * k" using assms(1) by (auto simp: aligned_iff)
  then have kb: "k < 1048576" using unat_bound [of p] by simp
  have "unat (4 * i) = 4 * unat i" using assms(2) by (simp add: unat_mult_lem [THEN iffD1])
  then show ?thesis using k kb assms(2) by (simp add: unat_plus_if')
qed

lemma entry_aligned: "p mod PGSIZE = 0 \<Longrightarrow> unat i < 1024 \<Longrightarrow> unat (p + 4 * i) mod 4 = 0"
proof -
  assume a: "p mod PGSIZE = 0" "unat i < 1024"
  obtain k where k: "unat p = 4096 * k" using a(1) by (auto simp: aligned_iff)
  have "4096 * k + 4 * unat i = 4 * (1024 * k + unat i)" by simp
  then show ?thesis unfolding entry_nat [OF a] k by (simp only: mod_mult_self1_is_0)
qed

lemma entry_in_page:
  assumes "p mod PGSIZE = 0" and "unat i < 1024"
  shows "span (p + 4 * i) 4 \<subseteq> span p 4096"
proof
  fix x assume "x \<in> span (p + 4 * i) 4"
  then obtain j where j: "j < 4" "x = p + 4 * i + of_nat j" using span_memb by blast
  have "x = p + of_nat (4 * unat i + j)" using j(2) by simp
  then show "x \<in> span p 4096" using in_span [of "4 * unat i + j" 4096 p] j(1) assms(2) by simp
qed

lemma entry_inj:
  assumes "p mod PGSIZE = 0" "q mod PGSIZE = 0" "unat i < 1024" "unat j < 1024" "p + 4 * i = q + 4 * j"
  shows "p = q" "i = j"
proof -
  obtain k where k: "unat p = 4096 * k" using assms(1) by (auto simp: aligned_iff)
  obtain l where l: "unat q = 4096 * l" using assms(2) by (auto simp: aligned_iff)
  have "4096 * k + 4 * unat i = 4096 * l + 4 * unat j"
    using entry_nat [OF assms(1,3)] entry_nat [OF assms(2,4)] assms(5) k l by simp
  then have e: "unat i + 1024 * k = unat j + 1024 * l" by simp
  have "(unat i + 1024 * k) div 1024 = k" "(unat j + 1024 * l) div 1024 = l" using assms(3,4) by simp_all
  then have "k = l" using e by simp
  then have "unat i = unat j" using e by simp
  note \<open>k = l\<close> this
  then show "p = q" "i = j" using k l by (simp_all add: word_unat_eq_iff)
qed

section \<open>Page-table entries\<close>

lemma PTE_ADDR_aligned: "PTE_ADDR e mod PGSIZE = 0"
proof -
  have "PTE_ADDR e = PGROUNDDOWN e" by (simp add: PTE_ADDR_def PGROUNDDOWN_def PGSIZE_def)
  then show ?thesis using PGROUNDDOWN_nat [of e] by (simp add: aligned_iff)
qed

lemma P2V_aligned: "a mod PGSIZE = 0 \<Longrightarrow> P2V a mod PGSIZE = 0"
proof -
  assume "a mod PGSIZE = 0"
  then obtain k where k: "unat a = 4096 * k" by (auto simp: aligned_iff)
  show ?thesis unfolding aligned_iff P2V_def KERNBASE_def using k unat_bound [of a]
    by (simp add: unat_plus_if')
qed

lemma V2P_P2V [simp]: "V2P (P2V a) = a" "P2V (V2P a) = a"
  by (simp_all add: V2P_def P2V_def)

lemma V2P_aligned: "a mod PGSIZE = 0 \<Longrightarrow> V2P a mod PGSIZE = 0"
proof -
  assume a: "a mod PGSIZE = 0"
  have "KERNBASE + KERNBASE = 0" by (simp add: KERNBASE_def)
  then have "a = a + KERNBASE + KERNBASE" by (simp only: add.assoc add_0_right)
  then have "V2P a = P2V a" unfolding V2P_def P2V_def by (simp only: diff_eq_eq)
  then show ?thesis using P2V_aligned [OF a] by simp
qed

lemma mk_pte:
  assumes "a mod PGSIZE = 0" "f AND NOT 0xFFF = 0"
  shows "PTE_ADDR (a OR f) = a" "PTE_FLAGS (a OR f) = f"
proof -
  have "PGROUNDDOWN a = a" using assms(1) page_span [of a a] in_span [of 0 4096 a] by simp
  then have a: "a AND NOT 0xFFF = a" by (simp add: PGROUNDDOWN_def PGSIZE_def)
  show "PTE_ADDR (a OR f) = a" using a assms(2) by (simp add: PTE_ADDR_def bit.conj_disj_distrib2)
  have "a AND 0xFFF = 0" using a by (metis bit.conj_cancel_left bit.conj_zero_right and.assoc)
  moreover have "f AND 0xFFF = f" using assms(2) by (metis bit.conj_disj_distrib bit.disj_cancel_right bit.conj_one_right or.right_neutral)
  ultimately show "PTE_FLAGS (a OR f) = f" by (simp add: PTE_FLAGS_def bit.conj_disj_distrib2)
qed

text \<open>Two addresses use the same entry exactly when they are in the same page.\<close>

lemma PDX_nat: "unat (PDX va) = unat va div 4194304" and PTX_nat: "unat (PTX va) = unat va div 4096 mod 1024"
proof -
  have m: "(0x3FF :: uint) = mask 10" by (simp add: mask_eq_exp_minus_1)
  have "unat (PTX va) = unat va div 4096 mod 1024" "unat (PDX va) = unat va div 4194304 mod 1024"
    unfolding PDX_def PTX_def m take_bit_eq_mask [symmetric]
    by (simp_all add: take_bit_eq_mod unat_mod_distrib drop_bit_eq_div unat_div_distrib)
  moreover have "unat va div 4194304 < 1024" using unat_bound [of va] by simp
  ultimately show "unat (PDX va) = unat va div 4194304" "unat (PTX va) = unat va div 4096 mod 1024" by simp_all
qed

lemma same_entry: "PDX va = PDX vb \<and> PTX va = PTX vb \<longleftrightarrow> PGROUNDDOWN va = PGROUNDDOWN vb"
proof -
  have d: "x div 4096 div 1024 = x div 4194304" for x :: nat by (simp add: div_mult2_eq [symmetric])
  have "PDX va = PDX vb \<and> PTX va = PTX vb \<longleftrightarrow> unat va div 4096 div 1024 = unat vb div 4096 div 1024 \<and>
      unat va div 4096 mod 1024 = unat vb div 4096 mod 1024"
    by (simp only: word_unat_eq_iff PDX_nat PTX_nat d)
  also have "\<dots> \<longleftrightarrow> unat va div 4096 = unat vb div 4096" by (metis div_mult_mod_eq)
  also have "\<dots> \<longleftrightarrow> PGROUNDDOWN va = PGROUNDDOWN vb" by (simp add: word_unat_eq_iff PGROUNDDOWN_nat)
  finally show ?thesis .
qed

lemma PGROUNDDOWN_aligned: "a mod PGSIZE = 0 \<Longrightarrow> PGROUNDDOWN a = a"
  using page_span [of a a] in_span [of 0 4096 a] by simp

end
