(* ===== verification/Spinlock.thy ===== *)
theory Spinlock
  imports Mmu
begin

text \<open>
  spinlock.c: spin-locks, and the nested disabling of interrupts that goes with them. The state
  has every CPU: its entry in cpus[], found through its local APIC id as mycpu() does, and its
  interrupt flag. acquire() and release() are cut at the points where another CPU can see their
  effects, and the CPUs run them in any interleaving.
\<close>

section \<open>State\<close>

definition NCPU :: nat where "NCPU = 8"

record cpu =
  c_apicid :: byte
  c_ncli :: int
  c_intena :: bool

record spinlock =
  lock_locked :: uint
  lock_cpu :: "nat option"
  lock_pcs :: "uint list"

text \<open>\<open>here\<close> is the local APIC id of the executing CPU, \<open>iflag\<close> the FL\_IF bit of each CPU's eflags.\<close>

record smp =
  cpus :: "nat \<Rightarrow> cpu"
  ncpu :: nat
  here :: byte
  iflag :: "byte \<Rightarrow> bool"
  spins :: "nat \<Rightarrow> spinlock"

definition set_if :: "bool \<Rightarrow> ('z smp_scheme, unit) prog" where
  "set_if b = kmodify (\<lambda>s. s\<lparr>iflag := (iflag s)(here s := b)\<rparr>)"

definition cli :: "('z smp_scheme, unit) prog" where "cli = set_if False"
definition sti :: "('z smp_scheme, unit) prog" where "sti = set_if True"

definition readeflags_if :: "('z smp_scheme, bool) prog" where
  "readeflags_if = kget (\<lambda>s. iflag s (here s))"

definition upd_cpu :: "nat \<Rightarrow> (cpu \<Rightarrow> cpu) \<Rightarrow> 'z smp_scheme \<Rightarrow> 'z smp_scheme" where
  "upd_cpu c f s = s\<lparr>cpus := (cpus s)(c := f (cpus s c))\<rparr>"

definition upd_spin :: "nat \<Rightarrow> (spinlock \<Rightarrow> spinlock) \<Rightarrow> 'z smp_scheme \<Rightarrow> 'z smp_scheme" where
  "upd_spin l f s = s\<lparr>spins := (spins s)(l := f (spins s l))\<rparr>"

section \<open>The operations\<close>

definition mycpu :: "('z smp_scheme, nat) prog" where
  "mycpu = kbind readeflags_if (\<lambda>e. if e then panic ''mycpu called with interrupts enabled''
     else kbind (kget (\<lambda>s. find (\<lambda>i. c_apicid (cpus s i) = here s) [0..<ncpu s])) (\<lambda>r. case r of
       None \<Rightarrow> panic ''unknown apicid'' | Some i \<Rightarrow> kreturn i))"

definition pushcli :: "('z smp_scheme, unit) prog" where
  "pushcli = kbind readeflags_if (\<lambda>eflags. kthen cli (kbind mycpu (\<lambda>c.
     kthen (kbind (kget (\<lambda>s. c_ncli (cpus s c))) (\<lambda>n. kwhen (n = 0) (kmodify (upd_cpu c (\<lambda>x. x\<lparr>c_intena := eflags\<rparr>)))))
     (kmodify (upd_cpu c (\<lambda>x. x\<lparr>c_ncli := c_ncli x + 1\<rparr>))))))"

definition popcli :: "('z smp_scheme, unit) prog" where
  "popcli = kbind readeflags_if (\<lambda>e. if e then panic ''popcli - interruptible'' else kbind mycpu (\<lambda>c.
     kthen (kmodify (upd_cpu c (\<lambda>x. x\<lparr>c_ncli := c_ncli x - 1\<rparr>)))
     (kbind (kget (\<lambda>s. cpus s c)) (\<lambda>x.
     if c_ncli x < 0 then panic ''popcli'' else kwhen (c_ncli x = 0 \<and> c_intena x) sti))))"

definition holding :: "nat \<Rightarrow> ('z smp_scheme, bool) prog" where
  "holding l = kthen pushcli (kbind mycpu (\<lambda>c. kbind (kget (\<lambda>s. spins s l)) (\<lambda>x.
     kthen popcli (kreturn (lock_locked x \<noteq> 0 \<and> lock_cpu x = Some c)))))"

definition initlock :: spinlock where
  "initlock = \<lparr>lock_locked = 0, lock_cpu = None, lock_pcs = replicate 10 0\<rparr>"

definition xchg :: "nat \<Rightarrow> uint \<Rightarrow> ('z smp_scheme, uint) prog" where
  "xchg l newval = kbind (kget (\<lambda>s. lock_locked (spins s l))) (\<lambda>old.
     kthen (kmodify (upd_spin l (\<lambda>x. x\<lparr>lock_locked := newval\<rparr>))) (kreturn old))"

text \<open>acquire() up to its spinning loop, and after it; \<open>pcs\<close> is the call stack it records.\<close>

definition acquire_enter :: "nat \<Rightarrow> ('z smp_scheme, unit) prog" where
  "acquire_enter l = kthen pushcli (kbind (holding l) (\<lambda>h. kwhen h (panic ''acquire'')))"

definition acquire_done :: "nat \<Rightarrow> uint list \<Rightarrow> ('z smp_scheme, unit) prog" where
  "acquire_done l pcs = kbind mycpu (\<lambda>c. kmodify (upd_spin l (\<lambda>x. x\<lparr>lock_cpu := Some c, lock_pcs := pcs\<rparr>)))"

text \<open>release() up to and including the point where the lock names no owner, and the rest.\<close>

definition release_clear :: "nat \<Rightarrow> ('z smp_scheme, unit) prog" where
  "release_clear l = kbind (holding l) (\<lambda>h. if \<not> h then panic ''release''
     else kmodify (upd_spin l (\<lambda>x. x\<lparr>lock_pcs := (lock_pcs x)[0 := 0], lock_cpu := None\<rparr>)))"

definition release_free :: "nat \<Rightarrow> ('z smp_scheme, unit) prog" where
  "release_free l = kthen (kmodify (upd_spin l (\<lambda>x. x\<lparr>lock_locked := 0\<rparr>))) popcli"

text \<open>
  getcallerpcs(): follows the chain of saved frame pointers through memory, read with \<open>rd\<close>.
\<close>

primrec pcs_from :: "(addr \<Rightarrow> uint) \<Rightarrow> nat \<Rightarrow> addr \<Rightarrow> uint list" where
  "pcs_from rd 0 ebp = []"
| "pcs_from rd (Suc n) ebp = (if ebp = 0 \<or> ebp < KERNBASE \<or> ebp = 0xffffffff then replicate (Suc n) 0
     else rd (ebp + 4) # pcs_from rd n (rd ebp))"

definition getcallerpcs :: "(addr \<Rightarrow> uint) \<Rightarrow> addr \<Rightarrow> uint list" where
  "getcallerpcs rd v = pcs_from rd 10 (v - 8)"

section \<open>CPUs running acquire and release\<close>

text \<open>
  Where a CPU is: outside the two functions, spinning on the xchg of a lock, past it but not
  yet recorded as owner, or in release() with the owner cleared. \<open>owned\<close> are the locks between
  the return of acquire() and the call of release().
\<close>

datatype phase = Idle | Spin nat | Got nat | Rel nat

record smpsys = smp +
  phase :: "nat \<Rightarrow> phase"
  owned :: "nat \<Rightarrow> nat set"

definition on_cpu :: "nat \<Rightarrow> smpsys \<Rightarrow> smpsys" where
  "on_cpu c s = s\<lparr>here := c_apicid (cpus s c)\<rparr>"

inductive spin_step :: "smpsys \<Rightarrow> smpsys \<Rightarrow> bool" where
  enter: "c < ncpu s \<Longrightarrow> phase s c = Idle \<Longrightarrow> acquire_enter l (on_cpu c s) = Done () t \<Longrightarrow>
    spin_step s (t\<lparr>phase := (phase t)(c := Spin l)\<rparr>)"
| busy: "c < ncpu s \<Longrightarrow> phase s c = Spin l \<Longrightarrow> xchg l 1 (on_cpu c s) = Done old t \<Longrightarrow> old \<noteq> 0 \<Longrightarrow>
    spin_step s t"
| got: "c < ncpu s \<Longrightarrow> phase s c = Spin l \<Longrightarrow> xchg l 1 (on_cpu c s) = Done 0 t \<Longrightarrow>
    spin_step s (t\<lparr>phase := (phase t)(c := Got l)\<rparr>)"
| record_owner: "c < ncpu s \<Longrightarrow> phase s c = Got l \<Longrightarrow> acquire_done l pcs (on_cpu c s) = Done () t \<Longrightarrow>
    spin_step s (t\<lparr>phase := (phase t)(c := Idle), owned := (owned t)(c := insert l (owned t c))\<rparr>)"
| clear: "c < ncpu s \<Longrightarrow> phase s c = Idle \<Longrightarrow> l \<in> owned s c \<Longrightarrow> release_clear l (on_cpu c s) = Done () t \<Longrightarrow>
    spin_step s (t\<lparr>phase := (phase t)(c := Rel l), owned := (owned t)(c := owned t c - {l})\<rparr>)"
| free: "c < ncpu s \<Longrightarrow> phase s c = Rel l \<Longrightarrow> release_free l (on_cpu c s) = Done () t \<Longrightarrow>
    spin_step s (t\<lparr>phase := (phase t)(c := Idle)\<rparr>)"

definition spin_initial :: "smpsys \<Rightarrow> bool" where
  "spin_initial s \<longleftrightarrow> ncpu s \<le> NCPU \<and> inj_on (\<lambda>c. c_apicid (cpus s c)) {..<ncpu s} \<and>
     (\<forall>c<ncpu s. c_ncli (cpus s c) = 0 \<and> phase s c = Idle \<and> owned s c = {}) \<and> (\<forall>l. spins s l = initlock)"

section \<open>Running the operations\<close>

text \<open>CPU \<open>c\<close> executes and its entry is the one with its APIC id.\<close>

definition runs_on :: "'z smp_scheme \<Rightarrow> nat \<Rightarrow> bool" where
  "runs_on s c \<longleftrightarrow> c < ncpu s \<and> c_apicid (cpus s c) = here s \<and> inj_on (\<lambda>c. c_apicid (cpus s c)) {..<ncpu s}"

lemma runs_on_find: "runs_on s c \<Longrightarrow> find (\<lambda>i. c_apicid (cpus s i) = here s) [0..<ncpu s] = Some c"
proof -
  assume r: "runs_on s c"
  obtain i where i: "find (\<lambda>i. c_apicid (cpus s i) = here s) [0..<ncpu s] = Some i"
    using r by (cases "find (\<lambda>i. c_apicid (cpus s i) = here s) [0..<ncpu s]") (auto simp: find_None_iff runs_on_def)
  have "c_apicid (cpus s i) = here s" "i < ncpu s" using find_Some_sat [OF i] by auto
  then have "i = c" using r by (simp add: runs_on_def inj_on_def)
  with i show ?thesis by simp
qed

lemma mycpu_eq: "runs_on s c \<Longrightarrow> \<not> iflag s (here s) \<Longrightarrow> mycpu s = Done c s"
  by (simp add: mycpu_def readeflags_if_def runs_on_find)

lemma smp_obs [simp]:
  "here (upd_cpu c f s) = here s" "iflag (upd_cpu c f s) = iflag s" "ncpu (upd_cpu c f s) = ncpu s"
  "spins (upd_cpu c f s) = spins s" "cpus (upd_cpu c f s) = (cpus s)(c := f (cpus s c))"
  "here (upd_spin l g s) = here s" "iflag (upd_spin l g s) = iflag s" "ncpu (upd_spin l g s) = ncpu s"
  "cpus (upd_spin l g s) = cpus s" "spins (upd_spin l g s) = (spins s)(l := g (spins s l))"
  by (simp_all add: upd_cpu_def upd_spin_def)

lemma smpsys_obs [simp]:
  "phase (upd_cpu c f t) = phase t" "owned (upd_cpu c f t) = owned t"
  "phase (upd_spin l g t) = phase t" "owned (upd_spin l g t) = owned t"
  by (simp_all add: upd_cpu_def upd_spin_def)

lemma runs_on_kept [simp]:
  "runs_on (s\<lparr>iflag := f\<rparr>) c = runs_on s c" "runs_on (upd_spin l g s) c = runs_on s c"
  by (simp_all add: runs_on_def)

lemma runs_on_upd_cpu:
  "(\<And>x. c_apicid (f x) = c_apicid x) \<Longrightarrow> runs_on (upd_cpu d f s) c = runs_on s c"
proof -
  assume "\<And>x. c_apicid (f x) = c_apicid x"
  then have "c_apicid (cpus (upd_cpu d f s) x) = c_apicid (cpus s x)" for x by simp
  then show ?thesis by (simp only: runs_on_def smp_obs)
qed

definition pushed :: "bool \<Rightarrow> cpu \<Rightarrow> cpu" where
  "pushed e x = x\<lparr>c_intena := (if c_ncli x = 0 then e else c_intena x), c_ncli := c_ncli x + 1\<rparr>"

lemma pushcli_eq:
  assumes "runs_on s c"
  shows "pushcli s = Done () (upd_cpu c (pushed (iflag s (here s))) (s\<lparr>iflag := (iflag s)(here s := False)\<rparr>))"
proof -
  let ?s = "s\<lparr>iflag := (iflag s)(here s := False)\<rparr>"
  have "mycpu ?s = Done c ?s" using assms by (intro mycpu_eq) simp_all
  then show ?thesis
    by (auto simp: pushcli_def readeflags_if_def cli_def set_if_def kbind_Done kwhen_def upd_cpu_def pushed_def)
qed

lemma popcli_eq:
  assumes "runs_on s c" and "\<not> iflag s (here s)" and "0 < c_ncli (cpus s c)"
  shows "popcli s = Done () (upd_cpu c (\<lambda>x. x\<lparr>c_ncli := c_ncli x - 1\<rparr>)
    (s\<lparr>iflag := (iflag s)(here s := (c_ncli (cpus s c) = 1 \<and> c_intena (cpus s c)))\<rparr>))"
proof -
  have "(iflag s)(here s := False) = iflag s" using assms(2) by (simp add: fun_upd_idem)
  then show ?thesis using assms(2,3)
    by (auto simp: popcli_def readeflags_if_def kbind_Done [of mycpu, OF mycpu_eq [OF assms(1,2)]] kwhen_def sti_def set_if_def upd_cpu_def)
qed

lemma holding_eq:
  assumes s: "runs_on s c" "\<not> iflag s (here s)" "0 < c_ncli (cpus s c)"
  shows "holding l s = Done (lock_locked (spins s l) \<noteq> 0 \<and> lock_cpu (spins s l) = Some c) s"
proof -
  have i: "(iflag s)(here s := False) = iflag s" using s(2) by (simp add: fun_upd_idem)
  let ?u = "upd_cpu c (pushed False) s"
  have p: "pushcli s = Done () ?u" using pushcli_eq [OF s(1)] s(2) i by simp
  have u: "runs_on ?u c" using s(1) by (subst runs_on_upd_cpu) (simp_all add: pushed_def)
  have m: "mycpu ?u = Done c ?u" using u s(2) by (intro mycpu_eq) simp_all
  have "upd_cpu c (\<lambda>x. x\<lparr>c_ncli := c_ncli x - 1\<rparr>) (?u\<lparr>iflag := iflag s\<rparr>) = s" using s(3) by (simp add: upd_cpu_def pushed_def)
  then have "popcli ?u = Done () s" using popcli_eq [OF u] s(2,3) i by (simp add: pushed_def)
  then show ?thesis by (simp add: holding_def kthen_Done [of pushcli, OF p] kbind_Done [of mycpu, OF m] kthen_Done)
qed

lemma holding_value:
  assumes s: "runs_on s c" "0 \<le> c_ncli (cpus s c)"
  shows "\<exists>t. holding l s = Done (lock_locked (spins s l) \<noteq> 0 \<and> lock_cpu (spins s l) = Some c) t"
proof -
  let ?u = "upd_cpu c (pushed (iflag s (here s))) (s\<lparr>iflag := (iflag s)(here s := False)\<rparr>)"
  have u: "runs_on ?u c" using s(1) by (subst runs_on_upd_cpu) (simp_all add: pushed_def)
  have m: "mycpu ?u = Done c ?u" using u by (intro mycpu_eq) simp_all
  obtain t where "popcli ?u = Done () t" using popcli_eq [OF u] s(2) by (auto simp: pushed_def)
  then show ?thesis
    by (simp add: holding_def kthen_Done [of pushcli, OF pushcli_eq [OF s(1)]] kbind_Done [of mycpu, OF m] kthen_Done)
qed

lemma acquire_enter_eq:
  assumes s: "runs_on s c" and n: "0 \<le> c_ncli (cpus s c)"
  shows "acquire_enter l s = (if lock_locked (spins s l) \<noteq> 0 \<and> lock_cpu (spins s l) = Some c then Panic ''acquire''
    else Done () (upd_cpu c (pushed (iflag s (here s))) (s\<lparr>iflag := (iflag s)(here s := False)\<rparr>)))"
proof -
  let ?u = "upd_cpu c (pushed (iflag s (here s))) (s\<lparr>iflag := (iflag s)(here s := False)\<rparr>)"
  have "runs_on ?u c" using s by (subst runs_on_upd_cpu) (simp_all add: pushed_def)
  then have "holding l ?u = Done (lock_locked (spins s l) \<noteq> 0 \<and> lock_cpu (spins s l) = Some c) ?u"
    using holding_eq [of ?u c l] n by (simp add: pushed_def)
  then show ?thesis by (simp add: acquire_enter_def kthen_Done [of pushcli, OF pushcli_eq [OF s]] kbind_Done kwhen_def)
qed

section \<open>Mutual exclusion\<close>

definition owns :: "smpsys \<Rightarrow> nat \<Rightarrow> nat \<Rightarrow> bool" where
  "owns s c l \<longleftrightarrow> l \<in> owned s c \<or> phase s c = Got l \<or> phase s c = Rel l"

text \<open>
  \<open>cpu_ok\<close>: the nesting depth counts the locks the CPU owns plus the one it is acquiring or
  releasing; interrupts are off while it is positive, and as they were (\<open>e\<close>) when it is 0.
  \<open>lock_ok\<close>: at most one owner; the word is set iff there is one; the owner is recorded from
  the end of acquire() to the start of release().
\<close>

definition cpu_ok :: "bool \<Rightarrow> smpsys \<Rightarrow> nat \<Rightarrow> bool" where
  "cpu_ok e s c \<longleftrightarrow> finite (owned s c) \<and>
     c_ncli (cpus s c) = int (card (owned s c)) + (if phase s c = Idle then 0 else 1) \<and>
     (if c_ncli (cpus s c) = 0 then iflag s (c_apicid (cpus s c)) = e
      else \<not> iflag s (c_apicid (cpus s c)) \<and> c_intena (cpus s c) = e) \<and>
     (\<forall>l. phase s c \<in> {Spin l, Got l, Rel l} \<longrightarrow> l \<notin> owned s c)"

definition lock_ok :: "smpsys \<Rightarrow> nat \<Rightarrow> bool" where
  "lock_ok s l \<longleftrightarrow> (\<forall>c<ncpu s. \<forall>d<ncpu s. owns s c l \<longrightarrow> owns s d l \<longrightarrow> c = d) \<and>
     (lock_locked (spins s l) \<noteq> 0 \<longleftrightarrow> (\<exists>c<ncpu s. owns s c l)) \<and>
     (\<forall>c<ncpu s. lock_cpu (spins s l) = Some c \<longleftrightarrow> l \<in> owned s c)"

definition spin_inv :: "(nat \<Rightarrow> bool) \<Rightarrow> smpsys \<Rightarrow> bool" where
  "spin_inv e s \<longleftrightarrow> ncpu s \<le> NCPU \<and> inj_on (\<lambda>c. c_apicid (cpus s c)) {..<ncpu s} \<and>
     (\<forall>c<ncpu s. cpu_ok (e c) s c) \<and> (\<forall>l. lock_ok s l)"

definition spin_starts :: "(nat \<Rightarrow> bool) \<Rightarrow> smpsys \<Rightarrow> bool" where
  "spin_starts e s \<longleftrightarrow> spin_initial s \<and> (\<forall>c<ncpu s. iflag s (c_apicid (cpus s c)) = e c)"

lemma on_cpu_obs [simp]:
  "cpus (on_cpu c s) = cpus s" "ncpu (on_cpu c s) = ncpu s" "iflag (on_cpu c s) = iflag s" "spins (on_cpu c s) = spins s"
  "phase (on_cpu c s) = phase s" "owned (on_cpu c s) = owned s" "here (on_cpu c s) = c_apicid (cpus s c)"
  by (simp_all add: on_cpu_def)

lemma on_cpu_runs: "spin_inv e s \<Longrightarrow> c < ncpu s \<Longrightarrow> runs_on (on_cpu c s) c"
  by (simp add: spin_inv_def runs_on_def)

text \<open>A step of CPU \<open>c\<close> on lock \<open>l\<close> leaves the other CPUs and locks alone.\<close>

definition only_at :: "nat \<Rightarrow> nat \<Rightarrow> smpsys \<Rightarrow> smpsys \<Rightarrow> bool" where
  "only_at c l s t \<longleftrightarrow> ncpu t = ncpu s \<and> (\<forall>d. c_apicid (cpus t d) = c_apicid (cpus s d)) \<and>
     (\<forall>d. d \<noteq> c \<longrightarrow> cpus t d = cpus s d \<and> phase t d = phase s d \<and> owned t d = owned s d) \<and>
     (\<forall>a. a \<noteq> c_apicid (cpus s c) \<longrightarrow> iflag t a = iflag s a) \<and>
     (\<forall>k. k \<noteq> l \<longrightarrow> spins t k = spins s k \<and> (owns t c k \<longleftrightarrow> owns s c k) \<and> (k \<in> owned t c \<longleftrightarrow> k \<in> owned s c))"

lemma inv_only_at:
  assumes "spin_inv e s" and "only_at c l s t" and "c < ncpu s" and "cpu_ok (e c) t c" and "lock_ok t l"
  shows "spin_inv e t"
proof -
  have inj: "inj_on (\<lambda>c. c_apicid (cpus s c)) {..<ncpu s}" using assms(1) by (simp add: spin_inv_def)
  have cpu: "cpu_ok (e d) t d" if "d < ncpu s" "d \<noteq> c" for d
  proof -
    have "c_apicid (cpus s d) \<noteq> c_apicid (cpus s c)" using inj that assms(3) by (auto simp: inj_on_def)
    then show ?thesis using assms(1,2) that unfolding spin_inv_def only_at_def cpu_ok_def by simp
  qed
  have own: "owns t d k = owns s d k" "(k \<in> owned t d) = (k \<in> owned s d)" if "k \<noteq> l" for d k
    using assms(2) that by (cases "d = c"; simp add: only_at_def owns_def)+
  have "lock_ok t k" if "k \<noteq> l" for k
    using assms(1,2) that own [OF that] unfolding spin_inv_def only_at_def lock_ok_def by simp
  then show ?thesis using assms cpu unfolding spin_inv_def only_at_def by (metis (no_types, lifting) inj_on_cong)
qed

lemma lock_ok_owner:
  assumes "\<forall>d<ncpu t. owns t d l \<longleftrightarrow> d = c" and "c < ncpu t" and "lock_locked (spins t l) \<noteq> 0"
    and "\<forall>d<ncpu t. lock_cpu (spins t l) = Some d \<longleftrightarrow> l \<in> owned t d"
  shows "lock_ok t l"
  using assms by (auto simp: lock_ok_def)

lemma lock_ok_free:
  assumes "\<forall>d<ncpu t. \<not> owns t d l" and "lock_locked (spins t l) = 0"
    and "\<forall>d<ncpu t. lock_cpu (spins t l) = Some d \<longleftrightarrow> l \<in> owned t d"
  shows "lock_ok t l"
  using assms by (auto simp: lock_ok_def)

lemma lock_ok_same:
  assumes "lock_ok s l" and "ncpu t = ncpu s" and "\<forall>d. owns t d l = owns s d l" and "\<forall>d. (l \<in> owned t d) = (l \<in> owned s d)"
    and "(lock_locked (spins t l) = 0) = (lock_locked (spins s l) = 0)" and "lock_cpu (spins t l) = lock_cpu (spins s l)"
  shows "lock_ok t l"
  using assms by (simp add: lock_ok_def)

lemma lock_ok_cpu: "lock_ok s l \<Longrightarrow> d < ncpu s \<Longrightarrow> lock_cpu (spins s l) = Some d \<longleftrightarrow> l \<in> owned s d"
  by (simp add: lock_ok_def)

lemma inv_enter:
  assumes inv: "spin_inv e s" and c: "c < ncpu s" "phase s c = Idle" and run: "acquire_enter l (on_cpu c s) = Done () u"
  shows "spin_inv e (u\<lparr>phase := (phase u)(c := Spin l)\<rparr>)"
proof -
  have ok: "cpu_ok (e c) s c" "lock_ok s l" using inv c by (auto simp: spin_inv_def)
  have "0 \<le> c_ncli (cpus (on_cpu c s) c)" using ok(1) by (simp add: cpu_ok_def)
  note eq = acquire_enter_eq [OF on_cpu_runs [OF inv c(1)] this, of l]
  have nh: "\<not> (lock_locked (spins s l) \<noteq> 0 \<and> lock_cpu (spins s l) = Some c)" and
    u: "u = upd_cpu c (pushed (iflag s (c_apicid (cpus s c)))) ((on_cpu c s)\<lparr>iflag := (iflag s)(c_apicid (cpus s c) := False)\<rparr>)"
    using eq run by (auto split: if_splits)
  have nl: "l \<notin> owned s c" using nh ok(2) c(1) unfolding lock_ok_def owns_def by blast
  show ?thesis
  proof (rule inv_only_at [OF inv _ c(1)])
    show "only_at c l s (u\<lparr>phase := (phase u)(c := Spin l)\<rparr>)" using c by (auto simp: only_at_def u pushed_def owns_def)
    show "cpu_ok (e c) (u\<lparr>phase := (phase u)(c := Spin l)\<rparr>) c" using ok(1) nl c by (auto simp: cpu_ok_def u pushed_def)
    show "lock_ok (u\<lparr>phase := (phase u)(c := Spin l)\<rparr>) l"
      by (rule lock_ok_same [OF ok(2)]) (use c in \<open>simp_all add: u owns_def\<close>)
  qed
qed

lemma inv_busy:
  assumes inv: "spin_inv e s" and c: "c < ncpu s" "phase s c = Spin l" and run: "xchg l 1 (on_cpu c s) = Done old u" and old: "old \<noteq> 0"
  shows "spin_inv e u"
proof -
  have ok: "cpu_ok (e c) s c" "lock_ok s l" using inv c by (auto simp: spin_inv_def)
  have u: "u = upd_spin l (\<lambda>x. x\<lparr>lock_locked := 1\<rparr>) (on_cpu c s)" "old = lock_locked (spins s l)" using run by (auto simp: xchg_def)
  show ?thesis
  proof (rule inv_only_at [OF inv _ c(1)])
    show "only_at c l s u" using c by (auto simp: only_at_def u owns_def)
    show "cpu_ok (e c) u c" using ok(1) c by (auto simp: cpu_ok_def u)
    show "lock_ok u l" by (rule lock_ok_same [OF ok(2)]) (use old u(2) in \<open>simp_all add: u(1) owns_def\<close>)
  qed
qed

lemma inv_got:
  assumes inv: "spin_inv e s" and c: "c < ncpu s" "phase s c = Spin l" and run: "xchg l 1 (on_cpu c s) = Done 0 u"
  shows "spin_inv e (u\<lparr>phase := (phase u)(c := Got l)\<rparr>)"
proof -
  have ok: "cpu_ok (e c) s c" "lock_ok s l" using inv c by (auto simp: spin_inv_def)
  have u: "u = upd_spin l (\<lambda>x. x\<lparr>lock_locked := 1\<rparr>) (on_cpu c s)" "lock_locked (spins s l) = 0" using run by (auto simp: xchg_def)
  then have no: "\<not> owns s d l" if "d < ncpu s" for d using ok(2) that unfolding lock_ok_def by blast
  show ?thesis
  proof (rule inv_only_at [OF inv _ c(1)])
    show "only_at c l s (u\<lparr>phase := (phase u)(c := Got l)\<rparr>)" using c by (auto simp: only_at_def u owns_def)
    show "cpu_ok (e c) (u\<lparr>phase := (phase u)(c := Got l)\<rparr>) c" using ok(1) c by (auto simp: cpu_ok_def u)
    show "lock_ok (u\<lparr>phase := (phase u)(c := Got l)\<rparr>) l"
      by (rule lock_ok_owner [where c = c]) (use no c lock_ok_cpu [OF ok(2)] in \<open>simp_all add: u(1) owns_def\<close>)
  qed
qed

lemma busy_off: "spin_inv e s \<Longrightarrow> c < ncpu s \<Longrightarrow> phase s c \<noteq> Idle \<or> owned s c \<noteq> {} \<Longrightarrow>
    \<not> iflag s (c_apicid (cpus s c)) \<and> 0 < c_ncli (cpus s c) \<and> c_intena (cpus s c) = e c"
  by (auto simp: spin_inv_def cpu_ok_def card_gt_0_iff split: if_splits)

lemma inv_record_owner:
  assumes inv: "spin_inv e s" and c: "c < ncpu s" "phase s c = Got l" and run: "acquire_done l pcs (on_cpu c s) = Done () u"
  shows "spin_inv e (u\<lparr>phase := (phase u)(c := Idle), owned := (owned u)(c := insert l (owned u c))\<rparr>)"
    (is "spin_inv e ?t")
proof -
  have ok: "cpu_ok (e c) s c" "lock_ok s l" using inv c by (auto simp: spin_inv_def)
  have "mycpu (on_cpu c s) = Done c (on_cpu c s)"
    using busy_off [OF inv c(1)] c(2) by (intro mycpu_eq [OF on_cpu_runs [OF inv c(1)]]) simp
  then have u: "u = upd_spin l (\<lambda>x. x\<lparr>lock_cpu := Some c, lock_pcs := pcs\<rparr>) (on_cpu c s)"
    using run by (simp add: acquire_done_def kbind_Done)
  have no: "\<not> owns s d l" if "d < ncpu s" "d \<noteq> c" for d using ok(2) c that unfolding lock_ok_def owns_def by blast
  have lk: "lock_locked (spins s l) \<noteq> 0" using ok(2) c unfolding lock_ok_def owns_def by blast
  have nl: "l \<notin> owned s c" using ok(1) c(2) by (simp add: cpu_ok_def)
  show ?thesis
  proof (rule inv_only_at [OF inv _ c(1)])
    show "only_at c l s ?t" using c by (auto simp: only_at_def u owns_def)
    show "cpu_ok (e c) ?t c" using ok(1) c nl by (auto simp: cpu_ok_def u)
    show "lock_ok ?t l"
      by (rule lock_ok_owner [where c = c]) (use no c lk in \<open>auto simp: u owns_def\<close>)
  qed
qed

lemma inv_clear:
  assumes inv: "spin_inv e s" and c: "c < ncpu s" "phase s c = Idle" "l \<in> owned s c" and run: "release_clear l (on_cpu c s) = Done () u"
  shows "spin_inv e (u\<lparr>phase := (phase u)(c := Rel l), owned := (owned u)(c := owned u c - {l})\<rparr>)"
    (is "spin_inv e ?t")
proof -
  have ok: "cpu_ok (e c) s c" "lock_ok s l" using inv c by (auto simp: spin_inv_def)
  have off: "\<not> iflag s (c_apicid (cpus s c))" "0 < c_ncli (cpus s c)" using busy_off [OF inv c(1)] c(3) by auto
  have "u = upd_spin l (\<lambda>x. x\<lparr>lock_pcs := (lock_pcs x)[0 := 0], lock_cpu := None\<rparr>) (on_cpu c s)"
    using run holding_eq [OF on_cpu_runs [OF inv c(1)], of l] off by (simp add: release_clear_def kbind_Done split: if_splits)
  note u = this
  have no: "\<not> owns s d l" if "d < ncpu s" "d \<noteq> c" for d using ok(2) c that unfolding lock_ok_def owns_def by blast
  have lk: "lock_locked (spins s l) \<noteq> 0" using ok(2) c unfolding lock_ok_def owns_def by blast
  show ?thesis
  proof (rule inv_only_at [OF inv _ c(1)])
    show "only_at c l s ?t" using c by (auto simp: only_at_def u owns_def)
    show "cpu_ok (e c) ?t c" using ok(1) c by (auto simp: cpu_ok_def u card_Diff_singleton of_nat_diff card_gt_0_iff Suc_leI)
    show "lock_ok ?t l"
      by (rule lock_ok_owner [where c = c]) (use no c lk in \<open>auto simp: u owns_def\<close>)
  qed
qed

lemma inv_free:
  assumes inv: "spin_inv e s" and c: "c < ncpu s" "phase s c = Rel l" and run: "release_free l (on_cpu c s) = Done () u"
  shows "spin_inv e (u\<lparr>phase := (phase u)(c := Idle)\<rparr>)" (is "spin_inv e ?t")
proof -
  let ?s = "upd_spin l (\<lambda>x. x\<lparr>lock_locked := 0\<rparr>) (on_cpu c s)"
  have ok: "cpu_ok (e c) s c" "lock_ok s l" using inv c by (auto simp: spin_inv_def)
  have off: "\<not> iflag s (c_apicid (cpus s c))" "0 < c_ncli (cpus s c)" "c_intena (cpus s c) = e c" using busy_off [OF inv c(1)] c(2) by auto
  have "u = upd_cpu c (\<lambda>x. x\<lparr>c_ncli := c_ncli x - 1\<rparr>)
     (?s\<lparr>iflag := (iflag s)(c_apicid (cpus s c) := (c_ncli (cpus s c) = 1 \<and> c_intena (cpus s c)))\<rparr>)"
    using run popcli_eq [of ?s c] on_cpu_runs [OF inv c(1)] off by (simp add: release_free_def)
  note u = this
  have no: "\<not> owns s d l" if "d < ncpu s" "d \<noteq> c" for d using ok(2) c that unfolding lock_ok_def owns_def by blast
  have lk: "lock_locked (spins s l) \<noteq> 0" using ok(2) c unfolding lock_ok_def owns_def by blast
  have nl: "l \<notin> owned s c" using ok(1) c(2) by (simp add: cpu_ok_def)
  show ?thesis
  proof (rule inv_only_at [OF inv _ c(1)])
    show "only_at c l s ?t" using c by (auto simp: only_at_def u owns_def)
    show "cpu_ok (e c) ?t c" using ok(1) c off by (auto simp: cpu_ok_def u)
    show "lock_ok ?t l"
      by (rule lock_ok_free) (use no nl c lock_ok_cpu [OF ok(2)] in \<open>simp_all add: u owns_def\<close>)
  qed
qed

lemma spin_inv_step:
  assumes "spin_inv e s" and "spin_step s t"
  shows "spin_inv e t"
  using assms(2)
  by (cases rule: spin_step.cases)
    (auto intro: inv_enter inv_busy inv_got inv_record_owner inv_clear inv_free assms(1))

lemma spin_inv_start: "spin_starts e s \<Longrightarrow> spin_inv e s"
  by (auto simp: spin_starts_def spin_initial_def spin_inv_def cpu_ok_def lock_ok_def owns_def initlock_def)

interpretation sp: safe_system "spin_starts e" spin_step "spin_inv e" for e
  by unfold_locales (rule spin_inv_start, assumption, rule spin_inv_step)

text \<open>
  C25: Spin-locks exclude, with interrupts off. However the CPUs interleave acquire() and
  release() of any number of locks: no lock ever has two owners; a CPU that owns, awaits or
  gives up a lock has interrupts disabled, and one that does not has them as they were at the
  start; release() by the owner does not panic, and acquire() panics exactly when the CPU
  already owns the lock.
\<close>

theorem spinlock_exclusion:
  assumes r: "reachable (spin_starts e) spin_step s" and c: "c < ncpu s"
  shows "(\<forall>d<ncpu s. owns s c l \<and> owns s d l \<longrightarrow> d = c) \<and>
    iflag s (c_apicid (cpus s c)) = (phase s c = Idle \<and> owned s c = {} \<and> e c) \<and>
    (acquire_enter l (on_cpu c s) = Panic ''acquire'') = (l \<in> owned s c) \<and>
    (release_clear l (on_cpu c s) = Panic ''release'') = (l \<notin> owned s c)"
proof -
  have inv: "spin_inv e s" using sp.reachable_inv [OF r] .
  then have ok: "cpu_ok (e c) s c" "lock_ok s l" using c by (auto simp: spin_inv_def)
  have off: "iflag s (c_apicid (cpus s c)) = (phase s c = Idle \<and> owned s c = {} \<and> e c)"
    using ok(1) by (auto simp: cpu_ok_def split: if_splits)
  note on = on_cpu_runs [OF inv c]
  have own: "lock_locked (spins s l) \<noteq> 0 \<and> lock_cpu (spins s l) = Some c \<longleftrightarrow> l \<in> owned s c"
    using ok(2) c unfolding lock_ok_def owns_def by blast
  have "acquire_enter l (on_cpu c s) = Panic ''acquire'' \<longleftrightarrow> l \<in> owned s c"
    using acquire_enter_eq [OF on, of l] own ok(1) by (simp add: cpu_ok_def)
  moreover obtain t where "holding l (on_cpu c s) = Done (l \<in> owned s c) t"
    using holding_value [OF on, of l] own ok(1) by (auto simp: cpu_ok_def)
  then have "release_clear l (on_cpu c s) = Panic ''release'' \<longleftrightarrow> l \<notin> owned s c"
    by (simp add: release_clear_def kbind_Done)
  ultimately show ?thesis using ok(2) c off unfolding lock_ok_def by blast
qed

definition smp_demo :: smpsys where
  "smp_demo = \<lparr>cpus = (\<lambda>i. \<lparr>c_apicid = of_nat i, c_ncli = 0, c_intena = False\<rparr>), ncpu = 2, here = 0,
     iflag = (\<lambda>_. True), spins = (\<lambda>_. initlock), phase = (\<lambda>_. Idle), owned = (\<lambda>_. {})\<rparr>"

lemma smp_demo_starts: "spin_starts (\<lambda>_. True) smp_demo"
  by (auto simp: spin_starts_def spin_initial_def smp_demo_def NCPU_def inj_on_def less_2_cases_iff)

lemma smp_demo_enter: "\<exists>t. reachable (spin_starts (\<lambda>_. True)) spin_step t \<and> ncpu t = 2 \<and> phase t 1 = Spin 3"
proof -
  have inv: "spin_inv (\<lambda>_. True) smp_demo" by (rule spin_inv_start [OF smp_demo_starts])
  have "runs_on (on_cpu 1 smp_demo) 1" by (rule on_cpu_runs [OF inv]) (simp add: smp_demo_def)
  then obtain t where t: "acquire_enter 3 (on_cpu 1 smp_demo) = Done () t" "ncpu t = 2"
    by (simp add: acquire_enter_eq smp_demo_def initlock_def)
  have "spin_step smp_demo (t\<lparr>phase := (phase t)(1 := Spin 3)\<rparr>)"
    by (rule spin_step.enter [OF _ _ t(1)]) (simp_all add: smp_demo_def)
  then show ?thesis using reachable.step [OF reachable.start [of "spin_starts (\<lambda>_. True)", OF smp_demo_starts]] t(2)
    by (intro exI [of _ "t\<lparr>phase := (phase t)(1 := Spin 3)\<rparr>"]) simp
qed

theorem spinlock_exclusion_witness:
  "\<exists>t. reachable (spin_starts (\<lambda>_. True)) spin_step t \<and> phase t 1 = Spin 3 \<and> \<not> iflag t (c_apicid (cpus t 1))"
proof -
  obtain t where t: "reachable (spin_starts (\<lambda>_. True)) spin_step t" "ncpu t = 2" "phase t 1 = Spin 3"
    using smp_demo_enter by blast
  from spinlock_exclusion [OF t(1), of 1] t(2,3) have "\<not> iflag t (c_apicid (cpus t 1))" by simp
  with t show ?thesis by blast
qed

text \<open>
  A frame pointer that getcallerpcs() follows; the \<open>i\<close>-th frame of the chain that starts below the
  argument \<open>v\<close> is found by reading \<open>i\<close> saved frame pointers.
\<close>

definition kernel_frame :: "addr \<Rightarrow> bool" where
  "kernel_frame ebp \<longleftrightarrow> KERNBASE \<le> ebp \<and> ebp \<noteq> 0xffffffff"

definition frame :: "(addr \<Rightarrow> uint) \<Rightarrow> addr \<Rightarrow> nat \<Rightarrow> addr" where
  "frame rd v i = (rd ^^ i) (v - 8)"

lemma pcs_from_stop: "ebp = 0 \<or> ebp < KERNBASE \<or> ebp = 0xffffffff \<longleftrightarrow> \<not> kernel_frame ebp"
  by (auto simp: kernel_frame_def KERNBASE_def not_less)

lemma pcs_from_length: "length (pcs_from rd n ebp) = n"
  by (induction n arbitrary: ebp) simp_all

lemma pcs_from_nth:
  "i < n \<Longrightarrow> pcs_from rd n ebp ! i = (if \<forall>j\<le>i. kernel_frame ((rd ^^ j) ebp) then rd ((rd ^^ i) ebp + 4) else 0)"
proof (induction n arbitrary: ebp i)
  case (Suc n)
  show ?case
  proof (cases "kernel_frame ebp")
    case False
    then have "\<not> (\<forall>j\<le>i. kernel_frame ((rd ^^ j) ebp))" by (auto intro!: exI [of _ 0])
    moreover have "pcs_from rd (Suc n) ebp ! i = 0" using False Suc.prems by (simp add: pcs_from_stop del: replicate.simps)
    ultimately show ?thesis by (simp only: if_False)
  next
    case True
    then have p: "pcs_from rd (Suc n) ebp = rd (ebp + 4) # pcs_from rd n (rd ebp)" by (simp add: pcs_from_stop)
    show ?thesis
    proof (cases i)
      case 0
      then show ?thesis using p True by simp
    next
      case (Suc k)
      have "(\<forall>j\<le>Suc k. kernel_frame ((rd ^^ j) ebp)) \<longleftrightarrow> (\<forall>j\<le>k. kernel_frame ((rd ^^ j) (rd ebp)))"
        using True All_less_Suc2 [of "Suc k" "\<lambda>j. kernel_frame ((rd ^^ j) ebp)"] by (simp add: less_Suc_eq_le funpow_swap1)
      then show ?thesis unfolding p using Suc Suc.IH [of k "rd ebp"] Suc.prems by (simp add: funpow_swap1 split del: if_split cong: if_cong)
    qed
  qed
qed simp

text \<open>
  C32: getcallerpcs() records the call stack. Each of the ten entries holds the return address
  of its frame (the word above the saved frame pointer) as long as that frame and all before
  it lie in the kernel's half of the address space and are not the end mark 0xffffffff; from the first frame
  pointer that is not, all entries are 0.
\<close>

theorem getcallerpcs_correct:
  assumes "i < 10"
  shows "length (getcallerpcs rd v) = 10 \<and>
    getcallerpcs rd v ! i = (if \<forall>j\<le>i. kernel_frame (frame rd v j) then rd (frame rd v i + 4) else 0)"
  unfolding getcallerpcs_def frame_def pcs_from_nth [OF assms] pcs_from_length by (simp only: simp_thms)

text \<open>A chain of two frames that ends with 0xffffffff.\<close>

definition demo_stack :: "addr \<Rightarrow> uint" where
  "demo_stack a = (if a = 0x80001000 then 0x80002000 else if a = 0x80001004 then 7 else if a = 0x80002004 then 8 else 0xffffffff)"

theorem getcallerpcs_correct_witness:
  "getcallerpcs demo_stack 0x80001008 ! 1 = 8 \<and> getcallerpcs demo_stack 0x80001008 ! 2 = 0"
proof -
  have f: "frame demo_stack 0x80001008 0 = 0x80001000" "frame demo_stack 0x80001008 1 = 0x80002000" "frame demo_stack 0x80001008 2 = 0xffffffff"
    by code_simp+
  then have k: "kernel_frame (frame demo_stack 0x80001008 0)" "kernel_frame (frame demo_stack 0x80001008 1)" "\<not> kernel_frame (frame demo_stack 0x80001008 2)"
    by (simp_all add: kernel_frame_def KERNBASE_def)
  have "\<forall>j\<le>1. kernel_frame (frame demo_stack 0x80001008 j)"
  proof (intro allI impI)
    fix j :: nat assume "j \<le> 1"
    then have "j = 0 \<or> j = 1" by auto
    then show "kernel_frame (frame demo_stack 0x80001008 j)" using k by auto
  qed
  then have "getcallerpcs demo_stack 0x80001008 ! 1 = demo_stack (frame demo_stack 0x80001008 1 + 4)"
    using conjunct2 [OF getcallerpcs_correct [of 1 demo_stack "0x80001008"]] by (simp only: if_True) simp
  moreover have "\<not> (\<forall>j\<le>2. kernel_frame (frame demo_stack 0x80001008 j))" using k(3) by blast
  then have "getcallerpcs demo_stack 0x80001008 ! 2 = 0"
    using conjunct2 [OF getcallerpcs_correct [of 2 demo_stack "0x80001008"]] by (simp only: if_False)
  ultimately show ?thesis using f by (simp add: demo_stack_def)
qed

end
