(* ===== verification/Kalloc.thy ===== *)
theory Kalloc
  imports Fs Mmu
begin

text \<open>
  kalloc.c. Kernel memory is a map
  from virtual addresses to bytes; the free list is threaded through the first word of each
  free page, as in the source. \<open>k_end\<close>, \<open>k_data\<close>, \<open>k_trapret\<close> and
  \<open>k_forkret\<close> are the addresses the linker gives the symbols end, data, trapret and forkret.
\<close>

record kmm = kfs +
  mem :: mem
  kmem_freelist :: addr
  kmem_use_lock :: bool
  kpgdir :: addr
  cr3 :: addr
  ts_esp0 :: addr
  k_end :: addr
  k_data :: addr
  k_trapret :: addr
  k_forkret :: addr

section \<open>The allocator\<close>

definition kfree :: "addr \<Rightarrow> ('z kmm_scheme, unit) prog" where
  "kfree v = kbind (kget k_end) (\<lambda>e.
     if v mod PGSIZE \<noteq> 0 \<or> v < e \<or> V2P v \<ge> PHYSTOP then panic ''kfree''
     else kthen (kmodify (\<lambda>s. s\<lparr>mem := memset (mem s) v 1 PGSIZE\<rparr>))
       (kmodify (\<lambda>s. s\<lparr>mem := wr32 (mem s) v (kmem_freelist s), kmem_freelist := v\<rparr>)))"

definition kalloc :: "('z kmm_scheme, addr) prog" where
  "kalloc = kbind (kget kmem_freelist) (\<lambda>r.
     kthen (kwhen (r \<noteq> 0) (kmodify (\<lambda>s. s\<lparr>kmem_freelist := rd32 (mem s) r\<rparr>))) (kreturn r))"

text \<open>
  The loop of freerange(). When p + PGSIZE wraps around, p is the last page of the address
  space, for which kfree() panics, so there is no next iteration.
\<close>

function freerange_loop :: "addr \<Rightarrow> addr \<Rightarrow> ('z kmm_scheme, unit) prog" where
  "freerange_loop p vend = (if p + PGSIZE \<le> vend
     then if p + PGSIZE < p then kfree p else kthen (kfree p) (freerange_loop (p + PGSIZE) vend)
     else kreturn ())"
  by pat_completeness auto
termination
proof (relation "measure (\<lambda>(p, _). 2 ^ 32 - unat p)")
  fix p vend :: addr assume "\<not> p + PGSIZE < p"
  then have "unat p < unat (p + PGSIZE)" by (simp add: unat_page_step)
  then show "((p + PGSIZE, vend), p, vend) \<in> measure (\<lambda>(p, _). 2 ^ 32 - unat p)"
    using unat_bound [of "p + PGSIZE"] by simp
qed simp

declare freerange_loop.simps [simp del]

definition freerange :: "addr \<Rightarrow> addr \<Rightarrow> ('z kmm_scheme, unit) prog" where
  "freerange vstart vend = freerange_loop (PGROUNDUP vstart) vend"

definition kinit1 :: "addr \<Rightarrow> addr \<Rightarrow> ('z kmm_scheme, unit) prog" where
  "kinit1 vstart vend = kthen (kmodify (\<lambda>s. s\<lparr>kmem_use_lock := False\<rparr>)) (freerange vstart vend)"

definition kinit2 :: "addr \<Rightarrow> addr \<Rightarrow> ('z kmm_scheme, unit) prog" where
  "kinit2 vstart vend = kthen (freerange vstart vend) (kmodify (\<lambda>s. s\<lparr>kmem_use_lock := True\<rparr>))"

section \<open>The free list\<close>

definition good_page :: "addr \<Rightarrow> addr \<Rightarrow> bool" where
  "good_page e p \<longleftrightarrow> p mod PGSIZE = 0 \<and> e \<le> p \<and> V2P p < PHYSTOP \<and> p \<noteq> 0"

text \<open>\<open>chain m a ps\<close>: from \<open>a\<close> the next pointers in memory visit the pages \<open>ps\<close> and end in null.\<close>

primrec chain :: "mem \<Rightarrow> addr \<Rightarrow> addr list \<Rightarrow> bool" where
  "chain m a [] \<longleftrightarrow> a = 0"
| "chain m a (p # ps) \<longleftrightarrow> a = p \<and> chain m (rd32 m p) ps"

definition free_list :: "'z kmm_scheme \<Rightarrow> addr list \<Rightarrow> bool" where
  "free_list s ps \<longleftrightarrow> chain (mem s) (kmem_freelist s) ps \<and> distinct ps \<and> (\<forall>p\<in>set ps. good_page (k_end s) p)"

lemma chain_cong: "(\<And>p. p \<in> set ps \<Longrightarrow> rd32 m p = rd32 m' p) \<Longrightarrow> chain m a ps = chain m' a ps"
  by (induction ps arbitrary: a) auto

lemma rd32_page: "(\<And>x. x \<in> span p 4096 \<Longrightarrow> m x = m' x) \<Longrightarrow> rd32 m p = rd32 m' p"
  by (rule rd32_cong) (use in_span [of _ 4096 p] in auto)

lemma free_list_frame:
  assumes "free_list s ps" and "\<And>p x. p \<in> set ps \<Longrightarrow> x \<in> span p 4096 \<Longrightarrow> mem t x = mem s x"
    and "kmem_freelist t = kmem_freelist s" "k_end t = k_end s"
  shows "free_list t ps"
proof -
  have "chain (mem t) (kmem_freelist s) ps = chain (mem s) (kmem_freelist s) ps"
    by (intro chain_cong rd32_page assms(2))
  then show ?thesis using assms by (simp add: free_list_def)
qed

lemma kalloc_empty: "free_list s [] \<Longrightarrow> kalloc s = Done 0 s"
  by (simp add: kalloc_def free_list_def kwhen_def)

lemma kalloc_page:
  assumes "free_list s (p # ps)"
  shows "kalloc s = Done p (s\<lparr>kmem_freelist := rd32 (mem s) p\<rparr>)" "free_list (s\<lparr>kmem_freelist := rd32 (mem s) p\<rparr>) ps"
  using assms by (auto simp: kalloc_def free_list_def kwhen_def good_page_def)

definition freed_page :: "addr \<Rightarrow> 'z kmm_scheme \<Rightarrow> 'z kmm_scheme" where
  "freed_page p s = s\<lparr>mem := wr32 (memset (mem s) p 1 PGSIZE) p (kmem_freelist s), kmem_freelist := p\<rparr>"

lemma kfree_eq: "good_page (k_end s) p \<Longrightarrow> kfree p s = Done () (freed_page p s)"
  by (simp add: kfree_def good_page_def freed_page_def not_less not_le)

lemma freed_page_mem: "x \<notin> span p 4096 \<Longrightarrow> mem (freed_page p s) x = mem s x"
proof -
  assume x: "x \<notin> span p 4096"
  then have "x \<notin> span p 4" using span_mono [of 4 4096 p] by auto
  then show ?thesis using x by (simp add: freed_page_def wr32_other memset_spec PGSIZE_def)
qed

lemma freed_page_list:
  assumes "free_list s ps" and "good_page (k_end s) p" and "p \<notin> set ps"
  shows "free_list (freed_page p s) (p # ps)"
proof -
  have "chain (mem (freed_page p s)) (kmem_freelist s) ps = chain (mem s) (kmem_freelist s) ps"
  proof (intro chain_cong rd32_page freed_page_mem)
    fix q x assume "q \<in> set ps" "x \<in> span q 4096"
    then show "x \<notin> span p 4096" using assms page_disjoint [of q p x] by (auto simp: free_list_def good_page_def)
  qed
  then show ?thesis using assms by (simp add: free_list_def) (simp add: freed_page_def)
qed

lemma kfree_panics: "\<not> good_page (k_end s) p \<Longrightarrow> 0 < k_end s \<Longrightarrow> kfree p s = Panic ''kfree''"
  by (auto simp: kfree_def good_page_def not_less not_le)

section \<open>Who owns a page\<close>

text \<open>
  Any sequence of calls of kalloc() and of kfree() on allocated pages; \<open>owned\<close> are the pages
  handed out and not yet freed. Between the calls the owners write to their pages.
\<close>

record kallocsys = kmm +
  in_use :: "addr set"

inductive kalloc_step :: "kallocsys \<Rightarrow> kallocsys \<Rightarrow> bool" where
  alloc: "kalloc s = Done p t \<Longrightarrow> kalloc_step s (t\<lparr>in_use := (if p = 0 then in_use t else insert p (in_use t))\<rparr>)"
| free: "p \<in> in_use s \<Longrightarrow> kfree p s = Done () t \<Longrightarrow> kalloc_step s (t\<lparr>in_use := in_use t - {p}\<rparr>)"
| store: "p \<in> in_use s \<Longrightarrow> a \<in> span p 4096 \<Longrightarrow> kalloc_step s (s\<lparr>mem := (mem s)(a := x)\<rparr>)"

text \<open>The free and the used pages make up the pool \<open>pool\<close>, without overlap.\<close>

definition kalloc_inv :: "addr set \<Rightarrow> kallocsys \<Rightarrow> bool" where
  "kalloc_inv pool s \<longleftrightarrow> (\<exists>ps. free_list s ps \<and> set ps \<inter> in_use s = {} \<and> set ps \<union> in_use s = pool) \<and>
     (\<forall>p\<in>in_use s. good_page (k_end s) p)"

definition kalloc_initial :: "addr set \<Rightarrow> kallocsys \<Rightarrow> bool" where
  "kalloc_initial pool s \<longleftrightarrow> in_use s = {} \<and> (\<exists>ps. free_list s ps \<and> set ps = pool)"

lemma free_list_more [simp]: "free_list (s\<lparr>in_use := u\<rparr>) ps = free_list s ps"
  by (simp add: free_list_def)

lemma kalloc_frames: "kalloc s = Done p t \<Longrightarrow> in_use t = in_use s \<and> k_end t = k_end s"
  by (auto simp: kalloc_def kthen_eq_Done kwhen_def split: if_splits)

lemma kalloc_cases:
  assumes "free_list s ps" and "kalloc s = Done p t"
  shows "if p = 0 then ps = [] \<and> t = s else \<exists>qs. ps = p # qs \<and> free_list t qs"
proof (cases ps)
  case Nil
  then show ?thesis using assms kalloc_empty [of s] by simp
next
  case (Cons q qs)
  then have "q \<noteq> 0" using assms(1) by (simp add: free_list_def good_page_def)
  then show ?thesis using kalloc_page [of s q qs] assms Cons by auto
qed

lemma kalloc_inv_step:
  assumes "kalloc_inv pool s" and "kalloc_step s t"
  shows "kalloc_inv pool t"
  using assms(2)
proof (cases rule: kalloc_step.cases)
  case (alloc p u)
  obtain ps where ps: "free_list s ps" "set ps \<inter> in_use s = {}" "set ps \<union> in_use s = pool" "\<forall>p\<in>in_use s. good_page (k_end s) p"
    using assms(1) by (auto simp: kalloc_inv_def)
  note u = kalloc_frames [OF alloc(2)] and c = kalloc_cases [OF ps(1) alloc(2)]
  show ?thesis
  proof (cases "p = 0")
    case True
    then show ?thesis using c alloc(1) assms(1) by simp
  next
    case False
    then obtain qs where q: "ps = p # qs" "free_list u qs" using c by auto
    have "good_page (k_end s) p" "p \<notin> set qs" using ps(1) q(1) by (auto simp: free_list_def)
    then show ?thesis unfolding kalloc_inv_def alloc(1) using False q ps u by (auto intro!: exI [of _ qs])
  qed
next
  case (free p u)
  obtain ps where ps: "free_list s ps" "set ps \<inter> in_use s = {}" "set ps \<union> in_use s = pool" "\<forall>p\<in>in_use s. good_page (k_end s) p"
    using assms(1) by (auto simp: kalloc_inv_def)
  have g: "good_page (k_end s) p" "p \<notin> set ps" using ps free(2) by auto
  have u: "u = freed_page p s" using free(3) kfree_eq [OF g(1)] by simp
  have f: "k_end u = k_end s" "in_use u = in_use s" by (simp_all add: u freed_page_def)
  have "free_list u (p # ps)" using freed_page_list [OF ps(1) g] u by simp
  then show ?thesis unfolding kalloc_inv_def free(1) using ps f free(2) g(2)
    by (auto intro!: exI [of _ "p # ps"])
next
  case (store p a x)
  obtain ps where ps: "free_list s ps" "set ps \<inter> in_use s = {}" "set ps \<union> in_use s = pool" "\<forall>p\<in>in_use s. good_page (k_end s) p"
    using assms(1) by (auto simp: kalloc_inv_def)
  have "free_list t ps"
  proof (rule free_list_frame [OF ps(1)])
    fix q y assume q: "q \<in> set ps" "y \<in> span q 4096"
    then have "q mod PGSIZE = 0" "p mod PGSIZE = 0" "q \<noteq> p" using ps store(2) by (auto simp: free_list_def good_page_def)
    then have "y \<noteq> a" using page_disjoint [of q p y] q(2) store(3) by auto
    then show "mem t y = mem s y" by (simp add: store(1))
  qed (simp_all add: store(1))
  then show ?thesis using ps unfolding kalloc_inv_def by (auto simp: store(1))
qed

interpretation ka: safe_system "kalloc_initial pool" kalloc_step "kalloc_inv pool" for pool
  by unfold_locales (force simp: kalloc_initial_def kalloc_inv_def, rule kalloc_inv_step)

text \<open>
  C26: The page allocator hands out each page to one owner. However kalloc(), kfree() and
  stores to allocated pages follow one another, kalloc() returns a page that is in nobody's
  hands, or null when all pages of the pool are in use, and kfree() of a page in use succeeds.
\<close>

theorem kalloc_exclusive:
  assumes r: "reachable (kalloc_initial pool) kalloc_step s"
  shows "(\<exists>p t. kalloc s = Done p t \<and> mem t = mem s \<and>
      (if p = 0 then in_use s = pool else p \<in> pool \<and> p \<notin> in_use s \<and> p mod PGSIZE = 0)) \<and>
    (\<forall>p\<in>in_use s. \<exists>t. kfree p s = Done () t)"
proof -
  have inv: "kalloc_inv pool s" by (rule ka.reachable_inv [OF r])
  then obtain ps where ps: "free_list s ps" "set ps \<inter> in_use s = {}" "set ps \<union> in_use s = pool" by (auto simp: kalloc_inv_def)
  have "\<exists>p t. kalloc s = Done p t \<and> mem t = mem s \<and>
      (if p = 0 then in_use s = pool else p \<in> pool \<and> p \<notin> in_use s \<and> p mod PGSIZE = 0)"
  proof (cases ps)
    case Nil
    then show ?thesis using ps kalloc_empty by fastforce
  next
    case (Cons q qs)
    then have "good_page (k_end s) q" using ps(1) by (simp add: free_list_def)
    then show ?thesis using ps kalloc_page(1) [of s q qs] Cons by (auto simp: good_page_def)
  qed
  moreover have "\<exists>t. kfree p s = Done () t" if "p \<in> in_use s" for p
    using inv that kfree_eq [of s p] by (auto simp: kalloc_inv_def)
  ultimately show ?thesis by blast
qed

definition kmm_demo :: kmm where
  "kmm_demo = \<lparr>ptable = (\<lambda>_. proc_zero), nextpid = 1, initproc = None, cpu_proc = None, disk = (\<lambda>_. []), disksize = 0,
     dtrace = [], bufs = undefined, the_log = undefined, the_sb = undefined, inodes = undefined,
     mem = (\<lambda>_. 0), kmem_freelist = 0, kmem_use_lock = False, kpgdir = 0, cr3 = 0, ts_esp0 = 0,
     k_end = 0x80115000, k_data = 0x80108000, k_trapret = 0x80105000, k_forkret = 0x80103800\<rparr>"

definition kalloc_demo :: kallocsys where
  "kalloc_demo = kmm.extend (kmm_demo\<lparr>kmem_freelist := 0x80400000\<rparr>) \<lparr>in_use = {}\<rparr>"

lemma kmm_demo_sel [simp]:
  "mem kmm_demo = (\<lambda>_. 0)" "kmem_freelist kmm_demo = 0" "k_end kmm_demo = 0x80115000" "k_data kmm_demo = 0x80108000"
  by (simp_all add: kmm_demo_def)

lemma rd32_zero [simp]: "rd32 (\<lambda>_. 0) a = 0"
  by (simp add: rd32_def)

theorem kalloc_exclusive_witness:
  "\<exists>p t. kalloc kalloc_demo = Done p t \<and> p = 0x80400000"
proof -
  have "mem kalloc_demo = (\<lambda>_. 0)" "kmem_freelist kalloc_demo = 0x80400000" "k_end kalloc_demo = 0x80115000" "in_use kalloc_demo = {}"
    by (simp_all add: kalloc_demo_def kmm.extend_def kmm_demo_def)
  note s = this
  have "free_list kalloc_demo [0x80400000]"
    by (simp add: free_list_def s good_page_def PGSIZE_def V2P_def KERNBASE_def PHYSTOP_def)
  then have "kalloc_initial {0x80400000} kalloc_demo" using s(4) by (auto simp: kalloc_initial_def intro!: exI [of _ "[0x80400000]"])
  from kalloc_exclusive [OF reachable.start [of "kalloc_initial {0x80400000}", OF this]] s(4)
  show ?thesis by (auto split: if_splits)
qed

section \<open>Filling the allocator at boot\<close>

definition pages_in :: "addr \<Rightarrow> addr \<Rightarrow> addr set" where
  "pages_in a b = {q. q mod PGSIZE = 0 \<and> a \<le> q \<and> unat q + 4096 \<le> unat b}"

lemma pages_in_step:
  assumes p: "p mod PGSIZE = 0" and le: "p + PGSIZE \<le> vend" and n: "\<not> p + PGSIZE < p"
  shows "pages_in p vend = insert p (pages_in (p + PGSIZE) vend)" "p \<notin> pages_in (p + PGSIZE) vend"
    "(p + PGSIZE) mod PGSIZE = 0"
proof -
  note u = unat_page_step [OF n]
  show "(p + PGSIZE) mod PGSIZE = 0" using p u by (simp add: aligned_iff)
  have "p \<le> q \<longleftrightarrow> q = p \<or> p + PGSIZE \<le> q" if q: "q mod PGSIZE = 0" for q
  proof -
    obtain i where "unat p = 4096 * i" using p by (auto simp: aligned_iff)
    moreover obtain j where "unat q = 4096 * j" using q by (auto simp: aligned_iff)
    ultimately show ?thesis using u by (auto simp: word_le_nat_alt word_unat_eq_iff)
  qed
  moreover have "unat p + 4096 \<le> unat vend" using le u by (simp add: word_le_nat_alt)
  ultimately show "pages_in p vend = insert p (pages_in (p + PGSIZE) vend)"
    using p unfolding pages_in_def by (intro set_eqI) (simp only: mem_Collect_eq insert_iff, metis)
  show "p \<notin> pages_in (p + PGSIZE) vend" using u by (auto simp: pages_in_def word_le_nat_alt)
qed

lemma freerange_loop_spec:
  fixes s :: "'z kmm_scheme"
  assumes "free_list s ps" "p mod PGSIZE = 0" "KERNBASE \<le> k_end s" "k_end s \<le> p" "vend \<le> P2V PHYSTOP" "p \<le> P2V PHYSTOP"
    "pages_in p vend \<inter> set ps = {}"
  shows "wp (freerange_loop p vend) (\<lambda>_ t. k_end t = k_end s \<and> (\<exists>qs. free_list t qs \<and> set qs = set ps \<union> pages_in p vend)) s"
  using assms
proof (induction p vend arbitrary: s ps rule: freerange_loop.induct)
  case (1 p vend)
  have b: "unat vend \<le> 0x8E000000" "0x80000000 \<le> unat (k_end s)" "unat (k_end s) \<le> unat p" "unat p \<le> 0x8E000000"
    using "1.prems"(3-6) by (auto simp: word_le_nat_alt P2V_def PHYSTOP_def KERNBASE_def)
  then have u: "unat (p + PGSIZE) = unat p + 4096" by (simp add: unat_plus_if' PGSIZE_def)
  then have n: "\<not> p + PGSIZE < p" by (simp add: word_less_nat_alt)
  show ?case
  proof (cases "p + PGSIZE \<le> vend")
    case False
    then have "pages_in p vend = {}" using u by (auto simp: pages_in_def word_le_nat_alt)
    then show ?thesis using False "1.prems"(1) by (subst freerange_loop.simps) auto
  next
    case True
    note st = pages_in_step [OF "1.prems"(2) True n]
    have v2p: "V2P p < PHYSTOP"
      using b True u by (simp add: V2P_def KERNBASE_def PHYSTOP_def word_less_nat_alt word_le_nat_alt unat_sub_if')
    then have g: "good_page (k_end s) p" using "1.prems" b by (auto simp: good_page_def)
    let ?s = "freed_page p s"
    have "free_list ?s (p # ps)" using g "1.prems"(1,7) st(1) by (intro freed_page_list) auto
    moreover have "k_end ?s = k_end s" by (simp add: freed_page_def)
    ultimately have "wp (freerange_loop (p + PGSIZE) vend) (\<lambda>_ t. k_end t = k_end ?s \<and>
        (\<exists>qs. free_list t qs \<and> set qs = set (p # ps) \<union> pages_in (p + PGSIZE) vend)) ?s"
      using "1.prems" b u st True
      by (intro "1.IH" [OF True n]) (auto simp: word_le_nat_alt)
    then show ?thesis using True n st(1) kfree_eq [OF g]
      by (subst freerange_loop.simps) (auto simp: wp_def kthen_Done freed_page_def split: outcome.splits)
  qed
qed

text \<open>
  C27: freerange() puts every whole page of the given range on the free list, once each, and
  keeps the pages that were there.
\<close>

theorem freerange_frees:
  assumes "free_list s ps" and "KERNBASE \<le> k_end s" "k_end s \<le> vstart" "vstart \<le> vend" "vend \<le> P2V PHYSTOP"
    and "pages_in (PGROUNDUP vstart) vend \<inter> set ps = {}"
  shows "wp (freerange vstart vend)
    (\<lambda>_ t. \<exists>qs. free_list t qs \<and> set qs = set ps \<union> pages_in (PGROUNDUP vstart) vend) s"
proof -
  have "unat vstart \<le> 0x8E000000" using assms(4,5) by (auto simp: word_le_nat_alt P2V_def PHYSTOP_def KERNBASE_def)
  then have "unat (vstart + PGSIZE - 1) = unat vstart + 4095"
    by (simp add: PGSIZE_def unat_plus_if' add_diff_eq [symmetric] del: add_diff_eq)
  then have u: "unat (PGROUNDUP vstart) = 4096 * ((unat vstart + 4095) div 4096)"
    using PGROUNDDOWN_nat [of "vstart + PGSIZE - 1"] by (simp add: PGROUNDUP_def PGROUNDDOWN_def)
  have "unat (PGROUNDUP vstart) \<le> 0x8E000000" "unat vstart \<le> unat (PGROUNDUP vstart)" using u \<open>unat vstart \<le> 0x8E000000\<close> by simp_all
  then have "wp (freerange_loop (PGROUNDUP vstart) vend)
    (\<lambda>_ t. k_end t = k_end s \<and> (\<exists>qs. free_list t qs \<and> set qs = set ps \<union> pages_in (PGROUNDUP vstart) vend)) s"
    using assms u by (intro freerange_loop_spec) (auto simp: aligned_iff word_le_nat_alt P2V_def PHYSTOP_def KERNBASE_def)
  then show ?thesis unfolding freerange_def by (rule wp_mono) simp
qed

theorem freerange_frees_witness:
  "wp (freerange 0x80115000 0x80400000)
    (\<lambda>_ t. \<exists>qs. free_list t qs \<and> set qs = pages_in (PGROUNDUP 0x80115000) 0x80400000) kmm_demo"
  using freerange_frees [of kmm_demo "[]" "0x80115000" "0x80400000"]
  by (simp add: free_list_def KERNBASE_def P2V_def PHYSTOP_def)

end
