(* ===== verification/Vm.thy ===== *)
theory Vm
  imports Kalloc
begin

text \<open>
  vm.c: page tables. A page directory and its page tables are words in kernel memory, reached
  as the source reaches them; a null pointer to an entry is address 0. A loop over the pages of
  a range is a recursion over the list of their addresses, which cannot wrap around because the
  range ends below KERNBASE.
\<close>

section \<open>The operations\<close>

definition store32 :: "addr \<Rightarrow> uint \<Rightarrow> ('z kmm_scheme, unit) prog" where
  "store32 a v = kmodify (\<lambda>s. s\<lparr>mem := wr32 (mem s) a v\<rparr>)"

definition load32 :: "addr \<Rightarrow> ('z kmm_scheme, uint) prog" where
  "load32 a = kget (\<lambda>s. rd32 (mem s) a)"

definition zero_page :: "addr \<Rightarrow> ('z kmm_scheme, unit) prog" where
  "zero_page p = kmodify (\<lambda>s. s\<lparr>mem := memset (mem s) p 0 PGSIZE\<rparr>)"

definition walkpgdir :: "addr \<Rightarrow> addr \<Rightarrow> bool \<Rightarrow> ('z kmm_scheme, addr) prog" where
  "walkpgdir pgdir va alloc = (let pde = pgdir + 4 * PDX va in kbind (load32 pde) (\<lambda>e.
     if e AND PTE_P \<noteq> 0 then kreturn (P2V (PTE_ADDR e) + 4 * PTX va)
     else if \<not> alloc then kreturn 0
     else kbind kalloc (\<lambda>pgtab. if pgtab = 0 then kreturn 0
       else kthen (zero_page pgtab)
         (kthen (store32 pde (V2P pgtab OR PTE_P OR PTE_W OR PTE_U))
         (kreturn (pgtab + 4 * PTX va))))))"

text \<open>
  mappages(): the loop ends when a reaches last. Both are page-aligned and a advances by
  PGSIZE modulo \<open>2 ^ 32\<close>, so the number of further pages is (last - a) / PGSIZE.
\<close>

primrec mappages_loop :: "nat \<Rightarrow> addr \<Rightarrow> addr \<Rightarrow> addr \<Rightarrow> uint \<Rightarrow> ('z kmm_scheme, int) prog" where
  "mappages_loop 0 pgdir a pa perm = kreturn 0"
| "mappages_loop (Suc n) pgdir a pa perm = kbind (walkpgdir pgdir a True) (\<lambda>pte.
     if pte = 0 then kreturn (-1) else kbind (load32 pte) (\<lambda>e.
     if e AND PTE_P \<noteq> 0 then panic ''remap''
     else kthen (store32 pte (pa OR perm OR PTE_P))
       (mappages_loop n pgdir (a + PGSIZE) (pa + PGSIZE) perm)))"

definition mappages :: "addr \<Rightarrow> addr \<Rightarrow> uint \<Rightarrow> addr \<Rightarrow> uint \<Rightarrow> ('z kmm_scheme, int) prog" where
  "mappages pgdir va sz pa perm =
     (let a = PGROUNDDOWN va; end_page = PGROUNDDOWN (va + sz - 1) in
      mappages_loop (Suc (unat ((end_page - a) div PGSIZE))) pgdir a pa perm)"

text \<open>
  One iteration of deallocuvm(): frees the page at \<open>a\<close> and returns the next value of \<open>a\<close>,
  the start of the next directory entry where there is no page table.
\<close>

definition dealloc_page :: "addr \<Rightarrow> addr \<Rightarrow> ('z kmm_scheme, addr) prog" where
  "dealloc_page pgdir a = kbind (walkpgdir pgdir a False) (\<lambda>pte.
     if pte = 0 then kreturn (PGADDR (PDX a + 1) 0 0 - PGSIZE + PGSIZE)
     else kbind (load32 pte) (\<lambda>e.
       if e AND PTE_P \<noteq> 0
       then if PTE_ADDR e = 0 then panic ''kfree''
         else kthen (kfree (P2V (PTE_ADDR e))) (kthen (store32 pte 0) (kreturn (a + PGSIZE)))
       else kreturn (a + PGSIZE)))"

text \<open>
  If \<open>a\<close> wraps around it starts over at 0 and the loop never ends; that needs an oldsz in the
  last page of the address space and is a fault here.
\<close>

function deallocuvm_loop :: "addr \<Rightarrow> addr \<Rightarrow> addr \<Rightarrow> ('z kmm_scheme, unit) prog" where
  "deallocuvm_loop pgdir a oldsz = (if a < oldsz
     then kbind (dealloc_page pgdir a) (\<lambda>nxt.
       if nxt \<le> a then kfault ''deallocuvm'' else deallocuvm_loop pgdir nxt oldsz)
     else kreturn ())"
  by pat_completeness auto
termination
proof (relation "measure (\<lambda>(_, a, oldsz). unat oldsz - unat a)")
  fix pgdir a oldsz nxt :: addr assume "a < oldsz" "\<not> nxt \<le> a"
  then show "((pgdir, nxt, oldsz), pgdir, a, oldsz) \<in> measure (\<lambda>(_, a, oldsz). unat oldsz - unat a)"
    by (auto simp: word_less_nat_alt word_le_nat_alt)
qed simp

declare deallocuvm_loop.simps [simp del]

definition deallocuvm :: "addr \<Rightarrow> uint \<Rightarrow> uint \<Rightarrow> ('z kmm_scheme, uint) prog" where
  "deallocuvm pgdir oldsz newsz = (if newsz \<ge> oldsz then kreturn oldsz
     else kthen (deallocuvm_loop pgdir (PGROUNDUP newsz) oldsz) (kreturn newsz))"

definition freevm :: "addr \<Rightarrow> ('z kmm_scheme, unit) prog" where
  "freevm pgdir = (if pgdir = 0 then panic ''freevm: no pgdir''
     else kthen (kbind (deallocuvm pgdir KERNBASE 0) (\<lambda>_. kreturn ()))
       (kthen (kfor [0..<NPDENTRIES] (\<lambda>i. kbind (load32 (pgdir + 4 * of_nat i)) (\<lambda>e.
          kwhen (e AND PTE_P \<noteq> 0) (kfree (P2V (PTE_ADDR e))))))
       (kfree pgdir)))"

definition kmap :: "addr \<Rightarrow> (addr \<times> addr \<times> addr \<times> uint) list" where
  "kmap data = [(KERNBASE, 0, EXTMEM, PTE_W), (KERNLINK, V2P KERNLINK, V2P data, 0),
     (data, V2P data, PHYSTOP, PTE_W), (DEVSPACE, DEVSPACE, 0, PTE_W)]"

primrec setupkvm_loop :: "addr \<Rightarrow> (addr \<times> addr \<times> addr \<times> uint) list \<Rightarrow> ('z kmm_scheme, addr) prog" where
  "setupkvm_loop pgdir [] = kreturn pgdir"
| "setupkvm_loop pgdir (k # ks) = (case k of (virt, phys_start, phys_end, perm) \<Rightarrow>
     kbind (mappages pgdir virt (phys_end - phys_start) phys_start perm) (\<lambda>r.
     if r < 0 then kthen (freevm pgdir) (kreturn 0) else setupkvm_loop pgdir ks))"

definition setupkvm :: "('z kmm_scheme, addr) prog" where
  "setupkvm = kbind kalloc (\<lambda>pgdir. if pgdir = 0 then kreturn 0
     else kthen (zero_page pgdir)
       (if P2V PHYSTOP > DEVSPACE then panic ''PHYSTOP too high''
        else kbind (kget k_data) (\<lambda>data. setupkvm_loop pgdir (kmap data))))"

definition switchkvm :: "('z kmm_scheme, unit) prog" where
  "switchkvm = kmodify (\<lambda>s. s\<lparr>cr3 := V2P (kpgdir s)\<rparr>)"

definition kvmalloc :: "('z kmm_scheme, unit) prog" where
  "kvmalloc = kbind setupkvm (\<lambda>d. kthen (kmodify (\<lambda>s. s\<lparr>kpgdir := d\<rparr>)) switchkvm)"

definition KSTACKSIZE :: uint where "KSTACKSIZE = 4096"

definition switchuvm :: "nat option \<Rightarrow> ('z kmm_scheme, unit) prog" where
  "switchuvm p = (case p of None \<Rightarrow> panic ''switchuvm: no process''
     | Some i \<Rightarrow> kbind (kget (\<lambda>s. ptable s i)) (\<lambda>q.
       if p_kstack q = 0 then panic ''switchuvm: no kstack''
       else if p_pgdir q = 0 then panic ''switchuvm: no pgdir''
       else kmodify (\<lambda>s. s\<lparr>ts_esp0 := p_kstack q + KSTACKSIZE, cr3 := V2P (p_pgdir q)\<rparr>)))"

text \<open>Bytes copied to memory from outside the modelled memory.\<close>

definition store_bytes :: "addr \<Rightarrow> byte list \<Rightarrow> ('z kmm_scheme, unit) prog" where
  "store_bytes a bs = kmodify (\<lambda>s. s\<lparr>mem := (\<lambda>x. if unat (x - a) < length bs then bs ! unat (x - a) else mem s x)\<rparr>)"

definition inituvm :: "addr \<Rightarrow> byte list \<Rightarrow> ('z kmm_scheme, unit) prog" where
  "inituvm pgdir init = (if length init \<ge> unat PGSIZE then panic ''inituvm: more than a page''
     else kbind kalloc (\<lambda>m. if m = 0 then kfault ''inituvm''
       else kthen (zero_page m) (kbind (mappages pgdir 0 PGSIZE (V2P m) (PTE_W OR PTE_U)) (\<lambda>_.
         store_bytes m init))))"

text \<open>The addresses a, a + PGSIZE, ... below \<open>b\<close>.\<close>

definition page_addrs :: "addr \<Rightarrow> addr \<Rightarrow> addr list" where
  "page_addrs a b = map (\<lambda>i. a + of_nat (4096 * i)) [0..<(unat b - unat a + 4095) div 4096]"

primrec loaduvm_loop :: "addr \<Rightarrow> addr \<Rightarrow> (uint \<Rightarrow> uint \<Rightarrow> ('z kmm_scheme, int \<times> byte list) prog) \<Rightarrow> uint \<Rightarrow> uint \<Rightarrow>
    addr list \<Rightarrow> ('z kmm_scheme, int) prog" where
  "loaduvm_loop pgdir addr rd offset sz [] = kreturn 0"
| "loaduvm_loop pgdir addr rd offset sz (i # is) = kbind (walkpgdir pgdir (addr + i) False) (\<lambda>pte.
     if pte = 0 then panic ''loaduvm: address should exist''
     else kbind (load32 pte) (\<lambda>e. let n = (if sz - i < PGSIZE then sz - i else PGSIZE) in
       kbind (rd (offset + i) n) (\<lambda>(r, bs). kthen (store_bytes (P2V (PTE_ADDR e)) bs)
         (if r \<noteq> sint n then kreturn (-1) else loaduvm_loop pgdir addr rd offset sz is))))"

definition loaduvm :: "(nat \<Rightarrow> (nat \<Rightarrow> uint \<Rightarrow> ('z kmm_scheme, int \<times> byte list) prog) option) \<Rightarrow>
    addr \<Rightarrow> addr \<Rightarrow> nat \<Rightarrow> uint \<Rightarrow> uint \<Rightarrow> ('z kmm_scheme, int) prog" where
  "loaduvm devsw pgdir addr ip offset sz = (if addr mod PGSIZE \<noteq> 0 then panic ''loaduvm: addr must be page aligned''
     else loaduvm_loop pgdir addr (readi devsw ip) offset sz (page_addrs 0 sz))"

primrec allocuvm_loop :: "addr \<Rightarrow> uint \<Rightarrow> uint \<Rightarrow> addr list \<Rightarrow> ('z kmm_scheme, uint) prog" where
  "allocuvm_loop pgdir oldsz newsz [] = kreturn newsz"
| "allocuvm_loop pgdir oldsz newsz (a # as) = kbind kalloc (\<lambda>m.
     if m = 0 then kbind (deallocuvm pgdir newsz oldsz) (\<lambda>_. kreturn 0)
     else kthen (zero_page m) (kbind (mappages pgdir a PGSIZE (V2P m) (PTE_W OR PTE_U)) (\<lambda>r.
       if r < 0 then kbind (deallocuvm pgdir newsz oldsz) (\<lambda>_. kthen (kfree m) (kreturn 0))
       else allocuvm_loop pgdir oldsz newsz as)))"

definition allocuvm :: "addr \<Rightarrow> uint \<Rightarrow> uint \<Rightarrow> ('z kmm_scheme, uint) prog" where
  "allocuvm pgdir oldsz newsz = (if newsz \<ge> KERNBASE then kreturn 0 else if newsz < oldsz then kreturn oldsz
     else allocuvm_loop pgdir oldsz newsz (page_addrs (PGROUNDUP oldsz) newsz))"

definition clearpteu :: "addr \<Rightarrow> addr \<Rightarrow> ('z kmm_scheme, unit) prog" where
  "clearpteu pgdir uva = kbind (walkpgdir pgdir uva False) (\<lambda>pte. if pte = 0 then panic ''clearpteu''
     else kbind (load32 pte) (\<lambda>e. store32 pte (e AND NOT PTE_U)))"

definition copy_page :: "addr \<Rightarrow> addr \<Rightarrow> ('z kmm_scheme, unit) prog" where
  "copy_page dst src = kmodify (\<lambda>s. s\<lparr>mem := memmove (mem s) dst src PGSIZE\<rparr>)"

primrec copyuvm_loop :: "addr \<Rightarrow> addr \<Rightarrow> addr list \<Rightarrow> ('z kmm_scheme, addr) prog" where
  "copyuvm_loop pgdir d [] = kreturn d"
| "copyuvm_loop pgdir d (i # is) = kbind (walkpgdir pgdir i False) (\<lambda>pte.
     if pte = 0 then panic ''copyuvm: pte should exist'' else kbind (load32 pte) (\<lambda>e.
     if e AND PTE_P = 0 then panic ''copyuvm: page not present'' else kbind kalloc (\<lambda>m.
     if m = 0 then kthen (freevm d) (kreturn 0)
     else kthen (copy_page m (P2V (PTE_ADDR e))) (kbind (mappages d i PGSIZE (V2P m) (PTE_FLAGS e)) (\<lambda>r.
       if r < 0 then kthen (kfree m) (kthen (freevm d) (kreturn 0))
       else copyuvm_loop pgdir d is)))))"

definition copyuvm :: "addr \<Rightarrow> uint \<Rightarrow> ('z kmm_scheme, addr) prog" where
  "copyuvm pgdir sz = kbind setupkvm (\<lambda>d. if d = 0 then kreturn 0 else copyuvm_loop pgdir d (page_addrs 0 sz))"

definition uva2ka :: "addr \<Rightarrow> addr \<Rightarrow> ('z kmm_scheme, addr) prog" where
  "uva2ka pgdir uva = kbind (walkpgdir pgdir uva False) (\<lambda>pte. if pte = 0 then kfault ''uva2ka''
     else kbind (load32 pte) (\<lambda>e. if e AND PTE_P = 0 \<or> e AND PTE_U = 0 then kreturn 0
       else kreturn (P2V (PTE_ADDR e))))"

text \<open>copyout() of the bytes \<open>buf\<close>; \<open>n\<close> is the number of bytes that go to the first page.\<close>

lemma page_rest_pos: "0 < unat (PGSIZE - (va - PGROUNDDOWN va))"
proof -
  have "unat (PGROUNDDOWN va) \<le> unat va" using PGROUNDDOWN_nat [of va] by simp
  then have "unat (va - PGROUNDDOWN va) = unat va mod 4096"
    using PGROUNDDOWN_nat [of va] by (simp add: unat_sub word_le_nat_alt minus_mult_div_eq_mod)
  then have "va - PGROUNDDOWN va < PGSIZE" by (simp add: word_less_nat_alt PGSIZE_def)
  then show ?thesis by (simp add: unat_gt_0)
qed

function copyout :: "addr \<Rightarrow> addr \<Rightarrow> byte list \<Rightarrow> ('z kmm_scheme, int) prog" where
  "copyout pgdir va buf = (if buf = [] then kreturn 0
     else let va0 = PGROUNDDOWN va; n = min (unat (PGSIZE - (va - va0))) (length buf) in
       kbind (uva2ka pgdir va0) (\<lambda>pa0. if pa0 = 0 then kreturn (-1)
       else kthen (store_bytes (pa0 + (va - va0)) (take n buf))
         (copyout pgdir (va0 + PGSIZE) (drop n buf))))"
  by pat_completeness auto
termination
  by (relation "measure (\<lambda>(_, _, buf). length buf)") (use page_rest_pos in auto)

declare copyout.simps [simp del]

end
