(* ===== verification/VmSpec.thy ===== *)
theory VmSpec
  imports Vm
begin

text \<open>
  What the page-table code of vm.c does to the address space it builds: \<open>vm_entry m pgdir va\<close>
  is the page-table entry that the hardware finds for \<open>va\<close>. Well-formed page tables consist
  of pages of their own; walkpgdir() and mappages() change exactly the entries they should.
\<close>

section \<open>Page tables in memory\<close>

definition pde :: "mem \<Rightarrow> addr \<Rightarrow> uint \<Rightarrow> uint" where
  "pde m pgdir i = rd32 m (pgdir + 4 * i)"

definition present :: "uint \<Rightarrow> bool" where
  "present e \<longleftrightarrow> e AND PTE_P \<noteq> 0"

definition table :: "uint \<Rightarrow> addr" where
  "table e = P2V (PTE_ADDR e)"

definition vm_entry :: "mem \<Rightarrow> addr \<Rightarrow> addr \<Rightarrow> uint" where
  "vm_entry m pgdir va = (if present (pde m pgdir (PDX va))
     then rd32 m (table (pde m pgdir (PDX va)) + 4 * PTX va) else 0)"

text \<open>The directory and its tables are distinct good pages that are not on the free list.\<close>

definition vm_ok :: "'z kmm_scheme \<Rightarrow> addr \<Rightarrow> addr list \<Rightarrow> bool" where
  "vm_ok s pgdir ps \<longleftrightarrow> free_list s ps \<and> good_page (k_end s) pgdir \<and> pgdir \<notin> set ps \<and>
     (\<forall>i. unat i < 1024 \<longrightarrow> present (pde (mem s) pgdir i) \<longrightarrow>
       good_page (k_end s) (table (pde (mem s) pgdir i)) \<and> table (pde (mem s) pgdir i) \<notin> set ps \<and>
       table (pde (mem s) pgdir i) \<noteq> pgdir) \<and>
     (\<forall>i j. unat i < 1024 \<longrightarrow> unat j < 1024 \<longrightarrow> present (pde (mem s) pgdir i) \<longrightarrow> present (pde (mem s) pgdir j) \<longrightarrow>
       table (pde (mem s) pgdir i) = table (pde (mem s) pgdir j) \<longrightarrow> i = j)"

lemma vm_okD:
  assumes "vm_ok s pgdir ps"
  shows "free_list s ps" "good_page (k_end s) pgdir" "pgdir \<notin> set ps" "pgdir mod PGSIZE = 0"
    "unat i < 1024 \<Longrightarrow> present (pde (mem s) pgdir i) \<Longrightarrow> good_page (k_end s) (table (pde (mem s) pgdir i))"
    "unat i < 1024 \<Longrightarrow> present (pde (mem s) pgdir i) \<Longrightarrow> table (pde (mem s) pgdir i) \<notin> set ps"
    "unat i < 1024 \<Longrightarrow> present (pde (mem s) pgdir i) \<Longrightarrow> table (pde (mem s) pgdir i) \<noteq> pgdir"
    "unat i < 1024 \<Longrightarrow> unat j < 1024 \<Longrightarrow> present (pde (mem s) pgdir i) \<Longrightarrow> present (pde (mem s) pgdir j) \<Longrightarrow>
       table (pde (mem s) pgdir i) = table (pde (mem s) pgdir j) \<Longrightarrow> i = j"
  using assms by (auto simp: vm_ok_def good_page_def)

lemma table_aligned: "table e mod PGSIZE = 0"
  unfolding table_def by (rule P2V_aligned [OF PTE_ADDR_aligned])

lemma good_aligned: "good_page e p \<Longrightarrow> p mod PGSIZE = 0"
  by (simp add: good_page_def)

text \<open>A word of another page.\<close>

lemma entry_frame:
  assumes "p mod PGSIZE = 0" "unat i < 1024" "\<And>x. x \<in> span p 4096 \<Longrightarrow> m' x = m x"
  shows "rd32 m' (p + 4 * i) = rd32 m (p + 4 * i)"
  by (rule rd32_cong) (use entry_in_page [OF assms(1,2)] in_span [of _ 4 "p + 4 * i"] assms(3) in blast)

lemma wr32_page:
  assumes "p mod PGSIZE = 0" "unat i < 1024" "q mod PGSIZE = 0" "q \<noteq> p" "x \<in> span q 4096"
  shows "wr32 m (p + 4 * i) v x = m x"
  using entry_in_page [OF assms(1,2)] page_disjoint [OF assms(3,1,4,5)] by (intro wr32_other) blast

lemma memset_page: "p mod PGSIZE = 0 \<Longrightarrow> q mod PGSIZE = 0 \<Longrightarrow> q \<noteq> p \<Longrightarrow> x \<in> span q 4096 \<Longrightarrow> memset m p c PGSIZE x = m x"
  using page_disjoint [of q p x] by (simp add: memset_spec PGSIZE_def)

lemma memset_entry: "p mod PGSIZE = 0 \<Longrightarrow> unat i < 1024 \<Longrightarrow> rd32 (memset m p 0 PGSIZE) (p + 4 * i) = 0"
proof -
  assume a: "p mod PGSIZE = 0" "unat i < 1024"
  have "rd32 (memset m p 0 PGSIZE) (p + 4 * i) = rd32 (\<lambda>_. 0) (p + 4 * i)"
  proof (rule rd32_cong)
    fix j :: nat assume "j < 4"
    then have "p + 4 * i + of_nat j \<in> span p 4096" using entry_in_page [OF a] in_span by blast
    then show "memset m p 0 PGSIZE (p + 4 * i + of_nat j) = 0" by (simp add: memset_spec PGSIZE_def)
  qed
  then show ?thesis by simp
qed

section \<open>Changing one entry\<close>

text \<open>Storing into the entry of a table changes only what is found for the addresses of that page.\<close>

lemma store_entry:
  fixes s :: "'z kmm_scheme" and v :: uint
  assumes ok: "vm_ok s pgdir ps" and pr: "present (pde (mem s) pgdir (PDX va))"
  defines "t \<equiv> s\<lparr>mem := wr32 (mem s) (table (pde (mem s) pgdir (PDX va)) + 4 * PTX va) v\<rparr>"
  shows "vm_ok t pgdir ps"
    "vm_entry (mem t) pgdir va' = (if PDX va' = PDX va \<and> PTX va' = PTX va then v else vm_entry (mem s) pgdir va')"
    "\<And>x. x \<notin> span (table (pde (mem s) pgdir (PDX va))) 4096 \<Longrightarrow> mem t x = mem s x"
proof -
  let ?T = "table (pde (mem s) pgdir (PDX va))"
  note d = vm_okD [OF ok]
  have g: "good_page (k_end s) ?T" "?T \<notin> set ps" "?T \<noteq> pgdir" using d(5-7) [OF PDX_bound pr] by auto
  have m: "mem t = wr32 (mem s) (?T + 4 * PTX va) v" by (simp add: t_def)
  show fr: "mem t x = mem s x" if "x \<notin> span ?T 4096" for x
    unfolding m using entry_in_page [OF table_aligned PTX_bound] that by (intro wr32_other) blast
  have pd: "pde (mem t) pgdir i = pde (mem s) pgdir i" if i: "unat i < 1024" for i
  proof -
    have "?T + 4 * PTX va \<noteq> pgdir + 4 * i" using entry_inj(1) [OF table_aligned d(4) PTX_bound i] g(3) by blast
    then show ?thesis unfolding m pde_def [of "wr32 _ _ _"] pde_def [of _ _ i]
      by (intro rd32_wr32_other entry_aligned table_aligned PTX_bound d(4) i)
  qed
  have "free_list t ps"
  proof (rule free_list_frame [OF d(1)])
    fix p x assume p: "p \<in> set ps" "x \<in> span p 4096"
    then have q: "p mod PGSIZE = 0" "p \<noteq> ?T" using d(1) g(2) by (auto simp: free_list_def good_page_def)
    have "x \<notin> span ?T 4096" by (rule page_disjoint [OF q(1) table_aligned q(2) p(2)])
    then show "mem t x = mem s x" by (rule fr)
  qed (simp_all add: t_def)
  then show "vm_ok t pgdir ps" using ok pd unfolding vm_ok_def by (simp add: t_def)
  show "vm_entry (mem t) pgdir va' = (if PDX va' = PDX va \<and> PTX va' = PTX va then v else vm_entry (mem s) pgdir va')"
  proof (cases "present (pde (mem s) pgdir (PDX va'))")
    case False
    then show ?thesis using pr pd [OF PDX_bound] by (auto simp: vm_entry_def)
  next
    case True
    let ?T' = "table (pde (mem s) pgdir (PDX va'))"
    have "rd32 (mem t) (?T' + 4 * PTX va') = (if PDX va' = PDX va \<and> PTX va' = PTX va then v else rd32 (mem s) (?T' + 4 * PTX va'))"
    proof (cases "?T' + 4 * PTX va' = ?T + 4 * PTX va")
      case eq: True
      have "?T' = ?T" "PTX va' = PTX va" using entry_inj [OF table_aligned table_aligned PTX_bound PTX_bound eq] by auto
      moreover have "PDX va' = PDX va" using d(8) [OF PDX_bound PDX_bound True pr \<open>?T' = ?T\<close>] .
      ultimately show ?thesis by (simp add: m)
    next
      case False
      then have "rd32 (mem t) (?T' + 4 * PTX va') = rd32 (mem s) (?T' + 4 * PTX va')"
        unfolding m by (intro rd32_wr32_other entry_aligned table_aligned PTX_bound) auto
      then show ?thesis using False by auto
    qed
    then show ?thesis using True pd [OF PDX_bound] by (simp add: vm_entry_def)
  qed
qed

section \<open>walkpgdir\<close>

lemma walk_present:
  "present (pde (mem s) pgdir (PDX va)) \<Longrightarrow>
   walkpgdir pgdir va alloc s = Done (table (pde (mem s) pgdir (PDX va)) + 4 * PTX va) s"
  by (simp add: walkpgdir_def Let_def load32_def pde_def present_def table_def)

lemma walk_absent: "\<not> present (pde (mem s) pgdir (PDX va)) \<Longrightarrow> walkpgdir pgdir va False s = Done 0 s"
  by (simp add: walkpgdir_def Let_def load32_def pde_def present_def)

lemma walk_full: "\<not> present (pde (mem s) pgdir (PDX va)) \<Longrightarrow> vm_ok s pgdir [] \<Longrightarrow> walkpgdir pgdir va True s = Done 0 s"
  using kalloc_empty [of s] by (simp add: walkpgdir_def Let_def load32_def pde_def present_def kbind_Done vm_ok_def)

definition new_table :: "addr \<Rightarrow> addr \<Rightarrow> addr \<Rightarrow> 'z kmm_scheme \<Rightarrow> 'z kmm_scheme" where
  "new_table pgdir va p s = s\<lparr>kmem_freelist := rd32 (mem s) p,
     mem := wr32 (memset (mem s) p 0 PGSIZE) (pgdir + 4 * PDX va) (V2P p OR PTE_P OR PTE_W OR PTE_U)\<rparr>"

lemma walk_alloc:
  assumes "\<not> present (pde (mem s) pgdir (PDX va))" and "vm_ok s pgdir (p # qs)"
  shows "walkpgdir pgdir va True s = Done (p + 4 * PTX va) (new_table pgdir va p s)"
proof -
  have f: "free_list s (p # qs)" using assms(2) by (simp add: vm_ok_def)
  then have "p \<noteq> 0" by (simp add: free_list_def good_page_def)
  then show ?thesis using assms(1) kalloc_page(1) [OF f]
    by (simp add: walkpgdir_def Let_def load32_def pde_def present_def kbind_Done zero_page_def store32_def new_table_def)
qed

lemma new_pde:
  assumes "p mod PGSIZE = 0"
  shows "present (V2P p OR PTE_P OR PTE_W OR PTE_U)" "table (V2P p OR PTE_P OR PTE_W OR PTE_U) = p"
proof -
  have v: "V2P p mod PGSIZE = 0" by (rule V2P_aligned [OF assms])
  have "V2P p OR PTE_P OR PTE_W OR PTE_U = V2P p OR 7" by (simp add: PTE_P_def PTE_W_def PTE_U_def or.assoc)
  moreover have "bit (V2P p OR 7) 0" by (simp add: bit_simps)
  ultimately show "present (V2P p OR PTE_P OR PTE_W OR PTE_U)" "table (V2P p OR PTE_P OR PTE_W OR PTE_U) = p"
    using mk_pte(1) [OF v, of 7] by (auto simp: present_def table_def PTE_P_def and_one_eq odd_iff_mod_2_eq_one bit_0)
qed

lemma new_table_pde:
  assumes ok: "vm_ok s pgdir (p # qs)" and i: "unat i < 1024" and ne: "i \<noteq> PDX va"
  shows "pde (mem (new_table pgdir va p s)) pgdir i = pde (mem s) pgdir i"
proof -
  note d = vm_okD [OF ok]
  have p: "p mod PGSIZE = 0" "pgdir \<noteq> p" using d(1,3) by (auto simp: free_list_def good_page_def)
  have "pgdir + 4 * PDX va \<noteq> pgdir + 4 * i" using entry_inj(2) [OF d(4) d(4) PDX_bound i] ne by blast
  from rd32_wr32_other [OF entry_aligned [OF d(4) PDX_bound] entry_aligned [OF d(4) i] this]
  have "pde (mem (new_table pgdir va p s)) pgdir i = rd32 (memset (mem s) p 0 PGSIZE) (pgdir + 4 * i)"
    by (simp add: pde_def new_table_def)
  also have "\<dots> = pde (mem s) pgdir i"
    unfolding pde_def using memset_page [OF p(1) d(4) p(2)] by (intro entry_frame [OF d(4) i])
  finally show ?thesis .
qed

lemma new_table_spec:
  fixes s :: "'z kmm_scheme"
  assumes ok: "vm_ok s pgdir (p # qs)" and ab: "\<not> present (pde (mem s) pgdir (PDX va))"
  defines "t \<equiv> new_table pgdir va p s"
  shows "vm_ok t pgdir qs" "vm_entry (mem t) pgdir va' = vm_entry (mem s) pgdir va'"
    "present (pde (mem t) pgdir (PDX va))" "table (pde (mem t) pgdir (PDX va)) = p"
    "\<And>x. x \<notin> span p 4096 \<Longrightarrow> x \<notin> span pgdir 4096 \<Longrightarrow> mem t x = mem s x" "k_end t = k_end s"
proof -
  let ?e = "V2P p OR PTE_P OR PTE_W OR PTE_U"
  note d = vm_okD [OF ok]
  have p: "good_page (k_end s) p" "p \<notin> set qs" "p \<noteq> pgdir" using d(1,3) by (auto simp: free_list_def)
  note pa = good_aligned [OF p(1)]
  have m: "mem t = wr32 (memset (mem s) p 0 PGSIZE) (pgdir + 4 * PDX va) ?e" by (simp add: t_def new_table_def)
  show ke: "k_end t = k_end s" by (simp add: t_def new_table_def)
  have pg: "mem t x = mem s x" if "q mod PGSIZE = 0" "q \<noteq> p" "q \<noteq> pgdir" "x \<in> span q 4096" for q x
    unfolding m using wr32_page [OF d(4) PDX_bound that(1,3,4)] memset_page [OF pa that(1,2,4)] by simp
  show "mem t x = mem s x" if "x \<notin> span p 4096" "x \<notin> span pgdir 4096" for x
    unfolding m using that entry_in_page [OF d(4) PDX_bound, of va]
    by (subst wr32_other) (auto simp: memset_spec PGSIZE_def)
  have pd: "pde (mem t) pgdir i = (if i = PDX va then ?e else pde (mem s) pgdir i)" if i: "unat i < 1024" for i
  proof (cases "i = PDX va")
    case False
    then show ?thesis using new_table_pde [OF ok i False] by (simp add: t_def)
  qed (simp add: m pde_def)
  show "present (pde (mem t) pgdir (PDX va))" "table (pde (mem t) pgdir (PDX va)) = p"
    using pd [OF PDX_bound] new_pde [OF pa] by simp_all
  have tb: "table (pde (mem s) pgdir i) \<noteq> p" "p \<noteq> table (pde (mem s) pgdir i)" if "unat i < 1024" "present (pde (mem s) pgdir i)" for i
    using d(6) [OF that] by auto
  have "free_list (s\<lparr>kmem_freelist := rd32 (mem s) p\<rparr>) qs" by (rule kalloc_page(2) [OF d(1)])
  then have "free_list t qs"
  proof (rule free_list_frame)
    fix q x assume q: "q \<in> set qs" "x \<in> span q 4096"
    then have "q mod PGSIZE = 0" "q \<noteq> p" "q \<noteq> pgdir" using d(1,3) by (auto simp: free_list_def good_page_def)
    then show "mem t x = mem (s\<lparr>kmem_freelist := rd32 (mem s) p\<rparr>) x" using pg q(2) by simp
  qed (simp_all add: t_def new_table_def)
  then show "vm_ok t pgdir qs"
    unfolding vm_ok_def ke using d(2,3,5-8) pd new_pde [OF pa] p tb by (auto split: if_splits)
  show "vm_entry (mem t) pgdir va' = vm_entry (mem s) pgdir va'"
  proof (cases "PDX va' = PDX va")
    case True
    have "rd32 (mem t) (p + 4 * PTX va') = rd32 (memset (mem s) p 0 PGSIZE) (p + 4 * PTX va')"
      unfolding m using entry_inj(1) [OF d(4) pa PDX_bound PTX_bound] p(3)
      by (intro rd32_wr32_other entry_aligned d(4) pa PDX_bound PTX_bound) blast
    then show ?thesis using True ab pd [OF PDX_bound] new_pde [OF pa] memset_entry [OF pa PTX_bound]
      by (simp add: vm_entry_def)
  next
    case False
    then show ?thesis using pd [OF PDX_bound, of va'] tb(1) [OF PDX_bound] d(7) [OF PDX_bound]
      by (auto simp: vm_entry_def intro!: entry_frame table_aligned PTX_bound pg)
  qed
qed

section \<open>mappages\<close>

text \<open>The pages a page table consists of.\<close>

definition vm_pages :: "mem \<Rightarrow> addr \<Rightarrow> addr set" where
  "vm_pages m pgdir = insert pgdir ((\<lambda>i. table (pde m pgdir i)) ` {i. unat i < 1024 \<and> present (pde m pgdir i)})"

lemma vm_pages_cong: "(\<And>i. unat i < 1024 \<Longrightarrow> pde m' pgdir i = pde m pgdir i) \<Longrightarrow> vm_pages m' pgdir = vm_pages m pgdir"
  unfolding vm_pages_def by (intro arg_cong [where f = "insert pgdir"] image_cong) auto

text \<open>
  What building page tables may do: take pages from the free list, and write to those and to
  the table's own pages only.
\<close>

definition vm_steps :: "addr \<Rightarrow> 'z kmm_scheme \<Rightarrow> addr list \<Rightarrow> 'z kmm_scheme \<Rightarrow> addr list \<Rightarrow> bool" where
  "vm_steps pgdir s ps t qs \<longleftrightarrow> vm_ok t pgdir qs \<and> k_end t = k_end s \<and> set qs \<subseteq> set ps \<and>
     vm_pages (mem t) pgdir \<subseteq> vm_pages (mem s) pgdir \<union> set ps \<and>
     (\<forall>q x. q mod PGSIZE = 0 \<longrightarrow> q \<notin> vm_pages (mem s) pgdir \<union> set ps \<longrightarrow> x \<in> span q 4096 \<longrightarrow> mem t x = mem s x)"

lemma vm_steps_refl: "vm_ok s pgdir ps \<Longrightarrow> vm_steps pgdir s ps s ps"
  by (simp add: vm_steps_def)

lemma vm_stepsD:
  assumes "vm_steps pgdir s ps t qs"
  shows "vm_ok t pgdir qs" "k_end t = k_end s" "set qs \<subseteq> set ps" "vm_pages (mem t) pgdir \<subseteq> vm_pages (mem s) pgdir \<union> set ps"
    "q mod PGSIZE = 0 \<Longrightarrow> q \<notin> vm_pages (mem s) pgdir \<union> set ps \<Longrightarrow> x \<in> span q 4096 \<Longrightarrow> mem t x = mem s x"
  using assms by (simp_all add: vm_steps_def)

lemma vm_steps_trans:
  assumes "vm_steps pgdir s ps t qs" and "vm_steps pgdir t qs u rs"
  shows "vm_steps pgdir s ps u rs"
proof -
  have "mem u x = mem s x" if "q mod PGSIZE = 0" "q \<notin> vm_pages (mem s) pgdir \<union> set ps" "x \<in> span q 4096" for q x
  proof -
    have "q \<notin> vm_pages (mem t) pgdir \<union> set qs" using vm_stepsD(3,4) [OF assms(1)] that(2) by blast
    then have "mem u x = mem t x" by (rule vm_stepsD(5) [OF assms(2) that(1) _ that(3)])
    then show ?thesis using vm_stepsD(5) [OF assms(1) that] by simp
  qed
  then show ?thesis
    using vm_stepsD(1-4) [OF assms(1)] vm_stepsD(1-4) [OF assms(2)] unfolding vm_steps_def
    by (intro conjI allI impI) auto
qed

lemma store_pde:
  assumes ok: "vm_ok s pgdir ps" and pr: "present (pde (mem s) pgdir (PDX va))" and i: "unat i < 1024"
  shows "pde (wr32 (mem s) (table (pde (mem s) pgdir (PDX va)) + 4 * PTX va) v) pgdir i = pde (mem s) pgdir i"
proof -
  let ?T = "table (pde (mem s) pgdir (PDX va))"
  have "pgdir \<noteq> ?T" by (rule not_sym [OF vm_okD(7) [OF ok PDX_bound pr]])
  then have "wr32 (mem s) (?T + 4 * PTX va) v x = mem s x" if "x \<in> span pgdir 4096" for x
    using that by (intro wr32_page [OF table_aligned PTX_bound vm_okD(4) [OF ok]])
  then show ?thesis unfolding pde_def by (intro entry_frame vm_okD(4) [OF ok] i)
qed

lemma store_entry_steps:
  fixes s :: "'z kmm_scheme" and v :: uint
  assumes ok: "vm_ok s pgdir ps" and pr: "present (pde (mem s) pgdir (PDX va))"
  shows "vm_steps pgdir s ps (s\<lparr>mem := wr32 (mem s) (table (pde (mem s) pgdir (PDX va)) + 4 * PTX va) v\<rparr>) ps"
    (is "vm_steps pgdir s ps ?t ps")
proof -
  let ?T = "table (pde (mem s) pgdir (PDX va))"
  note st = store_entry [where v = v, OF ok pr]
  have T: "?T \<in> vm_pages (mem s) pgdir" using pr PDX_bound by (auto simp: vm_pages_def)
  have "mem ?t x = mem s x" if "q mod PGSIZE = 0" "q \<notin> vm_pages (mem s) pgdir \<union> set ps" "x \<in> span q 4096" for q x
  proof (rule st(3))
    have "q \<noteq> ?T" using that(2) T by blast
    then show "x \<notin> span ?T 4096" by (rule page_disjoint [OF that(1) table_aligned _ that(3)])
  qed
  moreover have "pde (mem ?t) pgdir i = pde (mem s) pgdir i" if "unat i < 1024" for i
    using store_pde [OF ok pr that] by simp
  then have "vm_pages (mem ?t) pgdir = vm_pages (mem s) pgdir" by (rule vm_pages_cong)
  ultimately show ?thesis using st(1) unfolding vm_steps_def by simp
qed

lemma new_table_steps:
  assumes ok: "vm_ok s pgdir (p # qs)" and ab: "\<not> present (pde (mem s) pgdir (PDX va))"
  shows "vm_steps pgdir s (p # qs) (new_table pgdir va p s) qs"
proof -
  let ?t = "new_table pgdir va p s"
  note st = new_table_spec [OF ok ab]
  have pp: "p mod PGSIZE = 0" "pgdir mod PGSIZE = 0" using vm_okD(1,4) [OF ok] by (auto simp: free_list_def good_page_def)
  have "mem ?t x = mem s x" if "q mod PGSIZE = 0" "q \<notin> vm_pages (mem s) pgdir \<union> set (p # qs)" "x \<in> span q 4096" for q x
  proof (rule st(5))
    have "q \<noteq> p" "q \<noteq> pgdir" using that(2) by (auto simp: vm_pages_def)
    then show "x \<notin> span p 4096" "x \<notin> span pgdir 4096" using page_disjoint [OF that(1) pp(1) _ that(3)] page_disjoint [OF that(1) pp(2) _ that(3)] by auto
  qed
  moreover have "vm_pages (mem ?t) pgdir \<subseteq> vm_pages (mem s) pgdir \<union> set (p # qs)"
  proof
    fix q assume "q \<in> vm_pages (mem ?t) pgdir"
    then consider "q = pgdir" | i where "unat i < 1024" "present (pde (mem ?t) pgdir i)" "q = table (pde (mem ?t) pgdir i)"
      by (auto simp: vm_pages_def)
    then show "q \<in> vm_pages (mem s) pgdir \<union> set (p # qs)"
    proof cases
      case (2 i)
      show ?thesis
      proof (cases "i = PDX va")
        case True
        then show ?thesis using 2 st(4) by simp
      next
        case False
        then have "pde (mem ?t) pgdir i = pde (mem s) pgdir i" by (rule new_table_pde [OF ok 2(1)])
        then show ?thesis using 2 by (auto simp: vm_pages_def)
      qed
    qed (simp add: vm_pages_def)
  qed
  ultimately show ?thesis using st(1,6) unfolding vm_steps_def by auto
qed

lemma vm_entry_present: "present (pde m pgdir (PDX va)) \<Longrightarrow> rd32 m (table (pde m pgdir (PDX va)) + 4 * PTX va) = vm_entry m pgdir va"
  by (simp add: vm_entry_def)

definition map_entry :: "mem \<Rightarrow> addr \<Rightarrow> addr \<Rightarrow> uint \<Rightarrow> mem" where
  "map_entry m pgdir va v = wr32 m (table (pde m pgdir (PDX va)) + 4 * PTX va) v"

lemma table_nonzero: "vm_ok s pgdir ps \<Longrightarrow> present (pde (mem s) pgdir (PDX va)) \<Longrightarrow> table (pde (mem s) pgdir (PDX va)) + 4 * PTX va \<noteq> 0"
proof -
  assume ok: "vm_ok s pgdir ps" "present (pde (mem s) pgdir (PDX va))"
  have "table (pde (mem s) pgdir (PDX va)) \<noteq> 0" using vm_okD(5) [OF ok(1) PDX_bound ok(2)] by (simp add: good_page_def)
  then have "0 < unat (table (pde (mem s) pgdir (PDX va)) + 4 * PTX va)"
    unfolding entry_nat [OF table_aligned PTX_bound] by (simp add: unat_gt_0)
  then show ?thesis by (auto simp del: unat_gt_0)
qed

text \<open>Directory entries without a page table, and how many of them a range of pages needs filled.\<close>

definition absents :: "mem \<Rightarrow> addr \<Rightarrow> uint set" where
  "absents m pgdir = {i. unat i < 1024 \<and> \<not> present (pde m pgdir i)}"

definition va_range :: "addr \<Rightarrow> nat \<Rightarrow> addr set" where
  "va_range a n = {va. a \<le> va \<and> unat va < unat a + 4096 * n}"

definition tables_needed :: "mem \<Rightarrow> addr \<Rightarrow> addr \<Rightarrow> nat \<Rightarrow> nat" where
  "tables_needed m pgdir a n = card (PDX ` va_range a n \<inter> absents m pgdir)"

lemma finite_absents [simp]: "finite (absents m pgdir)"
  by simp

lemma tables_needed_absents: "tables_needed m pgdir a n \<le> card (absents m pgdir)"
  unfolding tables_needed_def by (rule card_mono) auto

text \<open>One iteration, with a page table in place or a free page to make one.\<close>

lemma map_one:
  fixes s :: "'z kmm_scheme"
  assumes ok: "vm_ok s pgdir ps" and np: "\<not> present (vm_entry (mem s) pgdir a)" and ps: "PDX a \<in> absents (mem s) pgdir \<Longrightarrow> ps \<noteq> []"
  shows "\<exists>t qs. (\<forall>n. mappages_loop (Suc n) pgdir a pa perm s = mappages_loop n pgdir (a + PGSIZE) (pa + PGSIZE) perm t) \<and>
    vm_steps pgdir s ps t qs \<and> length ps = length qs + (if PDX a \<in> absents (mem s) pgdir then 1 else 0) \<and>
    absents (mem t) pgdir = absents (mem s) pgdir - {PDX a} \<and>
    (\<forall>va. vm_entry (mem t) pgdir va = (if PGROUNDDOWN va = PGROUNDDOWN a then pa OR perm OR PTE_P else vm_entry (mem s) pgdir va))"
proof -
  obtain u qs where u: "walkpgdir pgdir a True s = Done (table (pde (mem u) pgdir (PDX a)) + 4 * PTX a) u"
    "present (pde (mem u) pgdir (PDX a))" "vm_steps pgdir s ps u qs" "length ps = length qs + (if PDX a \<in> absents (mem s) pgdir then 1 else 0)"
    "absents (mem u) pgdir = absents (mem s) pgdir - {PDX a}"
    "\<And>va. vm_entry (mem u) pgdir va = vm_entry (mem s) pgdir va"
  proof (cases "present (pde (mem s) pgdir (PDX a))")
    case True
    show ?thesis by (rule that [OF walk_present [OF True] True vm_steps_refl [OF ok]]) (use True in \<open>auto simp: absents_def\<close>)
  next
    case False
    then have ab: "PDX a \<in> absents (mem s) pgdir" by (simp add: absents_def PDX_bound)
    obtain p qs where ps': "ps = p # qs" using ps [OF ab] by (cases ps) auto
    note ok' = ok [unfolded ps']
    note st = new_table_spec [OF ok' False]
    have "absents (mem (new_table pgdir a p s)) pgdir = absents (mem s) pgdir - {PDX a}"
    proof (intro set_eqI)
      fix i show "i \<in> absents (mem (new_table pgdir a p s)) pgdir \<longleftrightarrow> i \<in> absents (mem s) pgdir - {PDX a}"
        using new_table_pde [OF ok', of i a] st(3) by (cases "i = PDX a") (auto simp: absents_def)
    qed
    then show ?thesis using that [OF _ st(3) _ _ _ st(2), of qs] walk_alloc [OF False ok'] st(4) new_table_steps [OF ok' False] ps' ab by simp
  qed
  let ?t = "u\<lparr>mem := wr32 (mem u) (table (pde (mem u) pgdir (PDX a)) + 4 * PTX a) (pa OR perm OR PTE_P)\<rparr>"
  note oku = vm_stepsD(1) [OF u(3)]
  have np': "rd32 (mem u) (table (pde (mem u) pgdir (PDX a)) + 4 * PTX a) AND PTE_P = 0"
    using np u(6) [of a] by (simp add: vm_entry_present [OF u(2)] present_def)
  have "mappages_loop (Suc n) pgdir a pa perm s = mappages_loop n pgdir (a + PGSIZE) (pa + PGSIZE) perm ?t" for n
    using np' table_nonzero [OF oku u(2)] by (simp add: kbind_Done [of "walkpgdir pgdir a True", OF u(1)] load32_def store32_def)
  moreover have "vm_steps pgdir s ps ?t qs" by (rule vm_steps_trans [OF u(3) store_entry_steps [OF oku u(2)]])
  moreover have "absents (mem ?t) pgdir = absents (mem s) pgdir - {PDX a}"
    using u(5) store_pde [OF oku u(2)] by (auto simp: absents_def)
  moreover have "vm_entry (mem ?t) pgdir va = (if PGROUNDDOWN va = PGROUNDDOWN a then pa OR perm OR PTE_P else vm_entry (mem s) pgdir va)" for va
    using store_entry(2) [OF oku u(2)] u(6) by (simp only: same_entry)
  ultimately show ?thesis using u(4) by blast
qed

lemma page_of_range:
  assumes "a mod PGSIZE = 0" and "unat a + 4096 * Suc n \<le> 2 ^ 32"
  shows "unat (a + PGSIZE) = (if n = 0 \<and> unat a + 4096 = 2 ^ 32 then 0 else unat a + 4096)"
    "(a + PGSIZE) mod PGSIZE = 0"
    "a \<le> va \<and> unat va < unat a + 4096 * Suc n \<longleftrightarrow> PGROUNDDOWN va = a \<or> (a + PGSIZE \<le> va \<and> unat va < unat (a + PGSIZE) + 4096 * n)"
    "PGROUNDDOWN va = a \<Longrightarrow> \<not> (a + PGSIZE \<le> va \<and> unat va < unat (a + PGSIZE) + 4096 * n)"
proof -
  obtain k where k: "unat a = 4096 * k" using assms(1) by (auto simp: aligned_iff)
  show u: "unat (a + PGSIZE) = (if n = 0 \<and> unat a + 4096 = 2 ^ 32 then 0 else unat a + 4096)"
    using assms(2) k by (auto simp: unat_plus_if' PGSIZE_def)
  show "(a + PGSIZE) mod PGSIZE = 0" unfolding aligned_iff u k by simp
  have d: "PGROUNDDOWN va = a \<longleftrightarrow> unat va div 4096 = k" using k by (auto simp: word_unat_eq_iff PGROUNDDOWN_nat)
  have e: "unat va = 4096 * (unat va div 4096) + unat va mod 4096" "unat va mod 4096 < 4096" by simp_all
  show "PGROUNDDOWN va = a \<Longrightarrow> \<not> (a + PGSIZE \<le> va \<and> unat va < unat (a + PGSIZE) + 4096 * n)"
    unfolding d word_le_nat_alt u using k e by auto
  show "a \<le> va \<and> unat va < unat a + 4096 * Suc n \<longleftrightarrow> PGROUNDDOWN va = a \<or> (a + PGSIZE \<le> va \<and> unat va < unat (a + PGSIZE) + 4096 * n)"
    unfolding d word_le_nat_alt u using k e by auto
qed

lemma tables_needed_Suc:
  assumes "a mod PGSIZE = 0" "unat a + 4096 * Suc n \<le> 2 ^ 32" "absents m' pgdir = absents m pgdir - {PDX a}"
  shows "tables_needed m' pgdir (a + PGSIZE) n + (if PDX a \<in> absents m pgdir then 1 else 0) \<le> tables_needed m pgdir a (Suc n)"
proof -
  have a: "a \<in> va_range a (Suc n)" by (simp add: va_range_def)
  have "va_range (a + PGSIZE) n \<subseteq> va_range a (Suc n)"
    unfolding va_range_def using page_of_range(3) [OF assms(1,2)] by blast
  then have s: "PDX ` va_range (a + PGSIZE) n \<inter> absents m' pgdir \<subseteq> (PDX ` va_range a (Suc n) \<inter> absents m pgdir) - {PDX a}"
    unfolding assms(3) by blast
  then have "tables_needed m' pgdir (a + PGSIZE) n \<le> card ((PDX ` va_range a (Suc n) \<inter> absents m pgdir) - {PDX a})"
    unfolding tables_needed_def by (intro card_mono) auto
  also have "\<dots> + (if PDX a \<in> absents m pgdir then 1 else 0) = tables_needed m pgdir a (Suc n)"
  proof (cases "PDX a \<in> absents m pgdir")
    case True
    then have "PDX a \<in> PDX ` va_range a (Suc n) \<inter> absents m pgdir" using a by blast
    then show ?thesis using True card_Suc_Diff1 [of "PDX ` va_range a (Suc n) \<inter> absents m pgdir" "PDX a"] by (simp add: tables_needed_def)
  qed (simp add: tables_needed_def)
  finally show ?thesis by simp
qed

lemma tables_needed_pos: "PDX a \<in> absents m pgdir \<Longrightarrow> 0 < tables_needed m pgdir a (Suc n)"
proof -
  assume "PDX a \<in> absents m pgdir"
  moreover have "a \<in> va_range a (Suc n)" by (simp add: va_range_def)
  ultimately have "PDX ` va_range a (Suc n) \<inter> absents m pgdir \<noteq> {}" by blast
  then show ?thesis by (simp add: tables_needed_def card_gt_0_iff)
qed

lemma absents_range_Suc:
  assumes "a mod PGSIZE = 0" "unat a + 4096 * Suc n \<le> 2 ^ 32"
  shows "PDX ` va_range a (Suc n) = insert (PDX a) (PDX ` va_range (a + PGSIZE) n)"
proof -
  have r: "va \<in> va_range a (Suc n) \<longleftrightarrow> PGROUNDDOWN va = a \<or> va \<in> va_range (a + PGSIZE) n" for va
    unfolding va_range_def using page_of_range(3) [OF assms, of va] by simp
  have "PDX va = PDX a" if "PGROUNDDOWN va = a" for va
    using that PGROUNDDOWN_aligned [OF assms(1)] same_entry [of va a] by auto
  moreover have "a \<in> {va. PGROUNDDOWN va = a}" using PGROUNDDOWN_aligned [OF assms(1)] by simp
  ultimately have "PDX ` {va. PGROUNDDOWN va = a} = {PDX a}" by blast
  moreover have "va_range a (Suc n) = {va. PGROUNDDOWN va = a} \<union> va_range (a + PGSIZE) n" using r by blast
  ultimately show ?thesis by (simp add: image_Un)
qed

lemma tables_needed_one:
  assumes "a mod PGSIZE = 0" "unat a + 4096 \<le> 2 ^ 32"
  shows "tables_needed m pgdir a 1 \<le> 1"
proof -
  have "va_range (a + PGSIZE) 0 = {}" by (auto simp: va_range_def word_le_nat_alt)
  then have "PDX ` va_range a (Suc 0) = {PDX a}" using absents_range_Suc [of a 0] assms by simp
  then have "tables_needed m pgdir a 1 \<le> card {PDX a}" unfolding tables_needed_def by (intro card_mono) auto
  then show ?thesis by simp
qed

lemma mappages_loop_spec:
  assumes "vm_ok s pgdir ps" and "a mod PGSIZE = 0" and "unat a + 4096 * n \<le> 2 ^ 32" and "tables_needed (mem s) pgdir a n \<le> length ps"
    and "\<And>va. va \<in> va_range a n \<Longrightarrow> \<not> present (vm_entry (mem s) pgdir va)"
  shows "\<exists>t qs. mappages_loop n pgdir a pa perm s = Done 0 t \<and> vm_steps pgdir s ps t qs \<and>
    absents (mem t) pgdir = absents (mem s) pgdir - PDX ` va_range a n \<and>
    length ps + card (absents (mem t) pgdir) = length qs + card (absents (mem s) pgdir) \<and>
    (\<forall>va. vm_entry (mem t) pgdir va = (if va \<in> va_range a n
       then (pa + (PGROUNDDOWN va - a)) OR perm OR PTE_P else vm_entry (mem s) pgdir va))"
  using assms
proof (induction n arbitrary: s a pa ps)
  case 0
  then show ?case using vm_steps_refl [of s pgdir ps] by (intro exI [of _ s] exI [of _ ps]) (auto simp: word_le_nat_alt va_range_def)
next
  case (Suc n)
  note r = page_of_range [OF Suc.prems(2,3)]
  have a: "PGROUNDDOWN a = a" by (rule PGROUNDDOWN_aligned [OF Suc.prems(2)])
  have np: "\<not> present (vm_entry (mem s) pgdir a)" by (rule Suc.prems(5)) (simp add: va_range_def)
  have "PDX a \<in> absents (mem s) pgdir \<Longrightarrow> ps \<noteq> []"
    using tables_needed_pos [of a "mem s" pgdir n] Suc.prems(4) by auto
  then obtain t qs where t: "\<And>n. mappages_loop (Suc n) pgdir a pa perm s = mappages_loop n pgdir (a + PGSIZE) (pa + PGSIZE) perm t"
    "vm_steps pgdir s ps t qs" "length ps = length qs + (if PDX a \<in> absents (mem s) pgdir then 1 else 0)"
    "absents (mem t) pgdir = absents (mem s) pgdir - {PDX a}"
    "\<And>va. vm_entry (mem t) pgdir va = (if PGROUNDDOWN va = a then pa OR perm OR PTE_P else vm_entry (mem s) pgdir va)"
    using map_one [OF Suc.prems(1) np, of pa perm] unfolding a by blast
  have "\<not> present (vm_entry (mem t) pgdir va)" if "va \<in> va_range (a + PGSIZE) n" for va
    using Suc.prems(5) [of va] r(3,4) [of va] that t(5) [of va] by (auto simp: va_range_def)
  moreover have "unat (a + PGSIZE) + 4096 * n \<le> 2 ^ 32" using Suc.prems(3) r(1) by auto
  moreover have "tables_needed (mem t) pgdir (a + PGSIZE) n \<le> length qs"
    using tables_needed_Suc [OF Suc.prems(2,3) t(4)] Suc.prems(4) t(3) by simp
  ultimately obtain u rs where u: "mappages_loop n pgdir (a + PGSIZE) (pa + PGSIZE) perm t = Done 0 u" "vm_steps pgdir t qs u rs"
    "absents (mem u) pgdir = absents (mem t) pgdir - PDX ` va_range (a + PGSIZE) n"
    "length qs + card (absents (mem u) pgdir) = length rs + card (absents (mem t) pgdir)"
    "\<And>va. vm_entry (mem u) pgdir va = (if va \<in> va_range (a + PGSIZE) n
       then (pa + PGSIZE + (PGROUNDDOWN va - (a + PGSIZE))) OR perm OR PTE_P else vm_entry (mem t) pgdir va)"
    using Suc.IH [OF vm_stepsD(1) [OF t(2)] r(2), of "pa + PGSIZE"] by blast
  have "vm_entry (mem u) pgdir va = (if va \<in> va_range a (Suc n)
       then (pa + (PGROUNDDOWN va - a)) OR perm OR PTE_P else vm_entry (mem s) pgdir va)" for va
    using r(3,4) [of va] u(5) [of va] t(5) [of va] by (auto simp: va_range_def algebra_simps)
  moreover have "vm_steps pgdir s ps u rs" by (rule vm_steps_trans [OF t(2) u(2)])
  moreover have "absents (mem u) pgdir = absents (mem s) pgdir - PDX ` va_range a (Suc n)"
    unfolding u(3) t(4) absents_range_Suc [OF Suc.prems(2,3)] by blast
  moreover have "card (absents (mem s) pgdir) = card (absents (mem t) pgdir) + (if PDX a \<in> absents (mem s) pgdir then 1 else 0)"
    unfolding t(4) using card_Suc_Diff1 [of "absents (mem s) pgdir" "PDX a"] by simp
  ultimately show ?case using t(3) u(1,4) unfolding t(1) by (intro exI [of _ u] exI [of _ rs]) auto
qed

lemma mappages_count:
  assumes "va mod PGSIZE = 0" and "0 < n" and "n < 2 ^ 20" and "unat va + 4096 * n \<le> 2 ^ 32"
  shows "mappages pgdir va (of_nat (4096 * n)) pa perm = mappages_loop n pgdir va pa perm"
proof -
  obtain k where k: "unat va = 4096 * k" using assms(1) by (auto simp: aligned_iff)
  obtain m where m: "n = Suc m" using assms(2) gr0_conv_Suc by blast
  then have "4096 * k + (4096 * n - 1) = 4096 * (k + n - 1) + 4095" by simp
  then have d: "(4096 * k + (4096 * n - 1)) div 4096 = k + n - 1" by simp
  have a: "PGROUNDDOWN va = va" by (rule PGROUNDDOWN_aligned [OF assms(1)])
  have "va + of_nat (4096 * n) - 1 = va + of_nat (4096 * n - 1)" using assms(2) by (simp add: of_nat_diff add_diff_eq)
  moreover have "unat (va + of_nat (4096 * n - 1)) = unat va + (4096 * n - 1)"
    using assms(2-4) unat_of_nat_small [of "4096 * n - 1"] by (simp add: unat_plus_if')
  ultimately have l: "unat (PGROUNDDOWN (va + of_nat (4096 * n) - 1)) = 4096 * (k + n - 1)"
    using d k by (simp only: PGROUNDDOWN_nat)
  have "unat ((PGROUNDDOWN (va + of_nat (4096 * n) - 1) - va) div PGSIZE) = n - 1"
    using l k assms(2) by (simp add: unat_div_distrib unat_sub word_le_nat_alt PGSIZE_def)
  then show ?thesis unfolding mappages_def Let_def a m by (simp only: diff_Suc_1)
qed

text \<open>
  C24: mappages() maps exactly the pages it is asked to map. With well-formed page tables,
  \<open>n\<close> unmapped pages from \<open>va\<close> on and a free page for each page table missing there, it succeeds; afterwards the entry of
  each address in the range refers to the page of \<open>pa\<close> at the same offset with the given
  permissions, the entries of all other addresses are what they were, the page tables are
  still well-formed, and only the page tables and pages taken from the free list were written.
\<close>

theorem mappages_maps:
  assumes "vm_ok s pgdir ps" and "va mod PGSIZE = 0" and "0 < n" "n < 2 ^ 20" and "unat va + 4096 * n \<le> 2 ^ 32"
    and "tables_needed (mem s) pgdir va n \<le> length ps" and "\<forall>x\<in>va_range va n. \<not> present (vm_entry (mem s) pgdir x)"
  shows "wp (mappages pgdir va (of_nat (4096 * n)) pa perm) (\<lambda>r t. r = 0 \<and> (\<exists>qs. vm_steps pgdir s ps t qs) \<and>
    (\<forall>x. vm_entry (mem t) pgdir x = (if x \<in> va_range va n
       then (pa + (PGROUNDDOWN x - va)) OR perm OR PTE_P else vm_entry (mem s) pgdir x))) s"
proof -
  obtain t qs where "mappages_loop n pgdir va pa perm s = Done 0 t" "vm_steps pgdir s ps t qs"
    "\<forall>x. vm_entry (mem t) pgdir x = (if x \<in> va_range va n
       then (pa + (PGROUNDDOWN x - va)) OR perm OR PTE_P else vm_entry (mem s) pgdir x)"
    using mappages_loop_spec [OF assms(1,2,5,6), of pa perm] assms(7) by blast
  then show ?thesis unfolding mappages_count [OF assms(2-5)] by (intro wpI [of _ _ 0 t]) blast+
qed

lemma vm_demo_ok: "vm_ok (kmm_demo\<lparr>kmem_freelist := 0x80400000\<rparr>) 0x80200000 [0x80400000]"
  by (simp add: vm_ok_def free_list_def good_page_def PGSIZE_def V2P_def KERNBASE_def PHYSTOP_def pde_def present_def)

theorem mappages_maps_witness:
  "wp (mappages 0x80200000 0x1000 4096 0x400000 PTE_W) (\<lambda>r t. r = 0 \<and> vm_entry (mem t) 0x80200000 0x1234 = 0x400003)
    (kmm_demo\<lparr>kmem_freelist := 0x80400000\<rparr>)"
proof -
  let ?s = "kmm_demo\<lparr>kmem_freelist := 0x80400000\<rparr>"
  have r: "PGROUNDDOWN 0x1234 = 0x1000" "0x1234 \<in> va_range 0x1000 (Suc 0)" by (simp_all add: PGROUNDDOWN_def PGSIZE_def va_range_def)
  have np: "\<not> present (vm_entry (mem ?s) 0x80200000 x)" for x by (simp add: vm_entry_def pde_def present_def)
  have "wp (mappages 0x80200000 0x1000 (of_nat (4096 * 1)) 0x400000 PTE_W) (\<lambda>r t. r = 0 \<and> (\<exists>qs. vm_steps 0x80200000 ?s [0x80400000] t qs) \<and>
    (\<forall>x. vm_entry (mem t) 0x80200000 x = (if x \<in> va_range 0x1000 1
       then (0x400000 + (PGROUNDDOWN x - 0x1000)) OR PTE_W OR PTE_P else vm_entry (mem ?s) 0x80200000 x))) ?s"
    by (rule mappages_maps [OF vm_demo_ok]) (use np tables_needed_one [of "0x1000"] in \<open>simp_all add: PGSIZE_def\<close>)
  moreover have "r = 0 \<and> vm_entry (mem t) 0x80200000 0x1234 = 0x400003"
    if "r = 0 \<and> (\<exists>qs. vm_steps 0x80200000 ?s [0x80400000] t qs) \<and>
    (\<forall>x. vm_entry (mem t) 0x80200000 x = (if x \<in> va_range 0x1000 1
       then (0x400000 + (PGROUNDDOWN x - 0x1000)) OR PTE_W OR PTE_P else vm_entry (mem ?s) 0x80200000 x))" for r :: int and t
    using conjunct1 [OF that] spec [OF conjunct2 [OF conjunct2 [OF that]], of "0x1234"]
    by (simp add: r PTE_W_def PTE_P_def)
  ultimately have "wp (mappages 0x80200000 0x1000 (of_nat (4096 * 1)) 0x400000 PTE_W)
      (\<lambda>r t. r = 0 \<and> vm_entry (mem t) 0x80200000 0x1234 = 0x400003) ?s" by (rule wp_mono)
  then show ?thesis by (simp only: of_nat_numeral mult_1_right)
qed

end
