(* ===== verification/Ring.thy ===== *)
theory Ring
  imports Prelude
begin

text \<open>
  The interface that pipes and console input share: an array used as a ring with two free
  running 32-bit counters that are reduced modulo its length only at the access. The contents
  are the bytes between the counters; the lemmas hold across the wrap-around of the counters,
  since the length divides \<open>2 ^ 32\<close>.
\<close>

lemma mod_wrap: "c dvd 2 ^ 32 \<Longrightarrow> (a mod 2 ^ 32 + b) mod c = (a + b) mod (c :: nat)"
proof -
  assume d: "c dvd 2 ^ 32"
  have "(a mod 2 ^ 32 + b) mod c = (a mod 2 ^ 32 mod c + b) mod c" by (simp add: mod_simps)
  also have "\<dots> = (a mod c + b) mod c" by (simp only: mod_mod_cancel [OF d])
  finally show ?thesis by (simp add: mod_simps)
qed

lemma mod_shift_neq: "i < n \<Longrightarrow> n < c \<Longrightarrow> (r + i) mod c \<noteq> (r + n) mod (c :: nat)"
proof
  assume lt: "i < n" "n < c" and eq: "(r + i) mod c = (r + n) mod c"
  then have "c dvd (r + n) - (r + i)" by (metis mod_eq_dvd_iff_nat add_le_cancel_left less_imp_le)
  then have "c dvd n - i" by simp
  then show False using lt by (auto dest: dvd_imp_le)
qed

definition ring_contents :: "nat \<Rightarrow> byte list \<Rightarrow> uint \<Rightarrow> uint \<Rightarrow> byte list" where
  "ring_contents cap d r w = map (\<lambda>i. d ! ((unat r + i) mod cap)) [0..<unat (w - r)]"

lemma length_ring_contents [simp]: "length (ring_contents cap d r w) = unat (w - r)"
  by (simp add: ring_contents_def)

lemma ring_contents_empty: "ring_contents cap d r r = []"
  by (simp add: ring_contents_def)

lemma unat_succ_sub: "unat (w - r) < n \<Longrightarrow> n < 2 ^ 32 \<Longrightarrow> unat (w + 1 - r) = Suc (unat (w - r))" for w r :: uint
proof -
  assume n: "unat (w - r) < n" "n < 2 ^ 32"
  have "w + 1 - r = w - r + 1" by (simp only: diff_add_eq)
  moreover have "unat (w - r + 1) = Suc (unat (w - r))" using n unat_word_ariths(1) [of "w - r" 1] by simp
  ultimately show ?thesis by (simp only:)
qed

lemma unat_sub_succ: "w \<noteq> r \<Longrightarrow> unat (w - (r + 1)) = unat (w - r) - 1" for w r :: uint
proof -
  assume "w \<noteq> r"
  then have "1 \<le> w - r" by (simp add: word_le_nat_alt Suc_le_eq unat_gt_0)
  then have "unat (w - r - 1) = unat (w - r) - 1" by (simp add: unat_sub)
  then show ?thesis by (simp only: diff_diff_eq)
qed

text \<open>
  A provider of the interface: \<open>push\<close> stores at the write counter and advances it, \<open>pop\<close>
  advances the read counter.
\<close>

locale ring_buffer =
  fixes cap :: nat
    and buf :: "'b \<Rightarrow> byte list"
    and rd :: "'b \<Rightarrow> uint"
    and wr :: "'b \<Rightarrow> uint"
    and push :: "byte \<Rightarrow> 'b \<Rightarrow> 'b"
    and pop :: "'b \<Rightarrow> 'b"
  assumes cap: "0 < cap" "cap < 2 ^ 32" "cap dvd 2 ^ 32"
    and push_law: "buf (push x b) = (buf b)[unat (wr b) mod cap := x]" "rd (push x b) = rd b" "wr (push x b) = wr b + 1"
    and pop_law: "buf (pop b) = buf b" "rd (pop b) = rd b + 1" "wr (pop b) = wr b"
begin

definition ok :: "'b \<Rightarrow> bool" where
  "ok b \<longleftrightarrow> length (buf b) = cap \<and> unat (wr b - rd b) \<le> cap"

definition contents :: "'b \<Rightarrow> byte list" where
  "contents b = ring_contents cap (buf b) (rd b) (wr b)"

lemma length_contents: "length (contents b) = unat (wr b - rd b)"
  by (simp add: contents_def)

lemma contents_Nil_iff: "contents b = [] \<longleftrightarrow> rd b = wr b"
proof -
  have "contents b = [] \<longleftrightarrow> wr b - rd b = 0"
    by (simp only: length_0_conv [symmetric] length_contents unat_eq_zero)
  then show ?thesis by auto
qed

lemma index_wr: "unat (wr b) mod cap = (unat (rd b) + unat (wr b - rd b)) mod cap"
proof -
  have "unat (wr b) = (unat (rd b) + unat (wr b - rd b)) mod 2 ^ 32"
    using unat_word_ariths(1) [of "rd b" "wr b - rd b"] by simp
  then show ?thesis using mod_wrap [OF cap(3), of "unat (rd b) + unat (wr b - rd b)" 0] by simp
qed

lemma full_iff: "ok b \<Longrightarrow> wr b = rd b + of_nat cap \<longleftrightarrow> length (contents b) = cap"
proof -
  have "wr b = rd b + of_nat cap \<longleftrightarrow> wr b - rd b = of_nat cap" by (simp add: diff_eq_eq add.commute)
  also have "\<dots> \<longleftrightarrow> unat (wr b - rd b) = cap"
    using unat_of_nat_small [OF cap(2)] by (metis word_unat_eq_iff)
  finally show ?thesis by (simp add: length_contents)
qed

lemma push_contents:
  assumes "ok b" and "length (contents b) < cap"
  shows "contents (push x b) = contents b @ [x]" "ok (push x b)"
proof -
  let ?n = "unat (wr b - rd b)"
  have n: "?n < cap" "length (buf b) = cap" using assms by (auto simp: ok_def length_contents)
  have n': "unat (wr b + 1 - rd b) = Suc ?n" using unat_succ_sub [OF n(1) cap(2)] .
  have "(buf b)[(unat (rd b) + ?n) mod cap := x] ! ((unat (rd b) + i) mod cap) = buf b ! ((unat (rd b) + i) mod cap)"
    if "i < ?n" for i using mod_shift_neq [OF that n(1), of "unat (rd b)"] by simp
  then show "contents (push x b) = contents b @ [x]"
    using n cap(1) unfolding contents_def ring_contents_def push_law index_wr n' by (simp add: nth_list_update)
  show "ok (push x b)" using n n' by (simp add: ok_def push_law)
qed

lemma pop_contents:
  assumes "ok b" and "rd b \<noteq> wr b"
  shows "contents b = buf b ! (unat (rd b) mod cap) # contents (pop b)" "ok (pop b)"
proof -
  let ?n = "unat (wr b - rd b)"
  have n: "unat (wr b - (rd b + 1)) = ?n - 1" "0 < ?n" using assms(2) unat_sub_succ [of "wr b" "rd b"] by (auto simp: unat_gt_0)
  have ix: "(unat (rd b + 1) + i) mod cap = (unat (rd b) + Suc i) mod cap" for i
    using mod_wrap [OF cap(3), of "unat (rd b) + 1" i] unat_word_ariths(1) [of "rd b" 1] by simp
  have "[0..<?n] = 0 # map Suc [0..<?n - 1]" using n(2) by (simp add: map_Suc_upt upt_conv_Cons)
  then show "contents b = buf b ! (unat (rd b) mod cap) # contents (pop b)"
    unfolding contents_def ring_contents_def pop_law n(1) ix by (simp add: comp_def)
  show "ok (pop b)" using assms(1) n by (auto simp: ok_def pop_law)
qed

end

text \<open>A ring whose last byte can be taken unpush, as the console does for a backspace.\<close>

locale edit_buffer = ring_buffer +
  fixes unpush :: "'a \<Rightarrow> 'a"
  assumes unpush_law: "buf (unpush b) = buf b" "rd (unpush b) = rd b" "wr (unpush b) = wr b - 1"
begin

lemma unpush_contents:
  assumes "ok b" and "rd b \<noteq> wr b"
  shows "contents b = contents (unpush b) @ [buf b ! (unat (wr b - 1) mod cap)]" "ok (unpush b)"
proof -
  let ?n = "unat (wr b - rd b)"
  have n: "unat (wr b - 1 - rd b) = ?n - 1" "0 < ?n"
    using assms(2) unat_sub_succ [of "wr b" "rd b"] by (auto simp: unat_gt_0 diff_diff_eq add.commute)
  have ix: "unat (wr b - 1) mod cap = (unat (rd b) + (?n - 1)) mod cap"
    using index_wr [of "unpush b"] n(1) by (simp add: unpush_law)
  have "[0..<?n] = [0..<?n - 1] @ [?n - 1]" using n(2) by (metis Suc_pred' upt_Suc_append zero_le)
  then show "contents b = contents (unpush b) @ [buf b ! (unat (wr b - 1) mod cap)]"
    unfolding contents_def ring_contents_def unpush_law n(1) ix by simp
  show "ok (unpush b)" using assms(1) n by (auto simp: ok_def unpush_law)
qed

end

end
