(* ===== verification/File.thy ===== *)
theory File
  imports Vm Ring
begin

text \<open>
  pipe.c and file.c: pipes, and the table of open files through which processes reach pipes
  and inodes. A struct file pointer is an index into ftable; a pipe is named by the address of
  the page it was allocated in. The device table devsw is an argument.
\<close>

section \<open>State\<close>

definition PIPESIZE :: nat where "PIPESIZE = 512"
definition NFILE :: nat where "NFILE = 100"

record pipe =
  pi_data :: "byte list"
  pi_nread :: uint
  pi_nwrite :: uint
  pi_readopen :: bool
  pi_writeopen :: bool

datatype ftype = FD_NONE | FD_PIPE | FD_INODE

record struct_file =
  f_type :: ftype
  f_ref :: int
  f_readable :: bool
  f_writable :: bool
  f_pipe :: addr
  f_ip :: "nat option"
  f_off :: uint

record kfile = kmm +
  ftable :: "nat \<Rightarrow> struct_file"
  pipes :: "addr \<Rightarrow> pipe"

definition upd_pipe :: "addr \<Rightarrow> (pipe \<Rightarrow> pipe) \<Rightarrow> 'z kfile_scheme \<Rightarrow> 'z kfile_scheme" where
  "upd_pipe p f s = s\<lparr>pipes := (pipes s)(p := f (pipes s p))\<rparr>"

definition upd_file :: "nat \<Rightarrow> (struct_file \<Rightarrow> struct_file) \<Rightarrow> 'z kfile_scheme \<Rightarrow> 'z kfile_scheme" where
  "upd_file i f s = s\<lparr>ftable := (ftable s)(i := f (ftable s i))\<rparr>"

section \<open>Pipes\<close>

definition pipe_push :: "byte \<Rightarrow> pipe \<Rightarrow> pipe" where
  "pipe_push b p = p\<lparr>pi_data := (pi_data p)[unat (pi_nwrite p) mod PIPESIZE := b], pi_nwrite := pi_nwrite p + 1\<rparr>"

definition pipe_pop :: "pipe \<Rightarrow> pipe" where
  "pipe_pop p = p\<lparr>pi_nread := pi_nread p + 1\<rparr>"

definition pipeclose :: "addr \<Rightarrow> bool \<Rightarrow> ('z kfile_scheme, unit) prog" where
  "pipeclose p writable =
     kthen (if writable
       then kthen (kmodify (upd_pipe p (\<lambda>x. x\<lparr>pi_writeopen := False\<rparr>))) (wakeup (ChanPipeRead (unat p)))
       else kthen (kmodify (upd_pipe p (\<lambda>x. x\<lparr>pi_readopen := False\<rparr>))) (wakeup (ChanPipeWrite (unat p))))
     (kbind (kget (\<lambda>s. pipes s p)) (\<lambda>x.
       kwhen (\<not> pi_readopen x \<and> \<not> pi_writeopen x) (kfree p)))"

text \<open>
  Falling asleep in the middle of a loop: the state is what sleep() leaves, and the loop goes
  on with its variables when the process runs again.
\<close>

definition ksleep :: "chan \<Rightarrow> ('z kproc_scheme, unit) prog" where
  "ksleep c = (\<lambda>s. case sleep c s of Block _ t \<Rightarrow> Done () t | Done a t \<Rightarrow> Done a t
     | Panic e \<Rightarrow> Panic e | Fault e \<Rightarrow> Fault e | Gone t \<Rightarrow> Gone t)"

text \<open>
  The loop of pipewrite() over the bytes still to be written. It returns what is left of them
  and the result of the call, or \<open>None\<close> for the result when it has gone to sleep.
\<close>

primrec pipewrite_loop :: "addr \<Rightarrow> int \<Rightarrow> byte list \<Rightarrow> ('z kfile_scheme, byte list \<times> int option) prog" where
  "pipewrite_loop p n [] = kthen (wakeup (ChanPipeRead (unat p))) (kreturn ([], Some n))"
| "pipewrite_loop p n (b # bs) = kbind (kget (\<lambda>s. pipes s p)) (\<lambda>x.
     if pi_nwrite x = pi_nread x + of_nat PIPESIZE
     then kbind myproc_killed (\<lambda>k.
       if \<not> pi_readopen x \<or> k then kreturn (b # bs, Some (-1))
       else kthen (wakeup (ChanPipeRead (unat p))) (kthen (ksleep (ChanPipeWrite (unat p))) (kreturn (b # bs, None))))
     else kthen (kmodify (upd_pipe p (pipe_push b))) (pipewrite_loop p n bs))"

definition pipewrite :: "addr \<Rightarrow> byte list \<Rightarrow> int \<Rightarrow> ('z kfile_scheme, int) prog" where
  "pipewrite p src n = kbind (pipewrite_loop p n src) (\<lambda>(_, r). case r of
     Some v \<Rightarrow> kreturn v | None \<Rightarrow> (\<lambda>s. Block (ChanPipeWrite (unat p)) s))"

primrec piperead_loop :: "addr \<Rightarrow> nat \<Rightarrow> ('z kfile_scheme, byte list) prog" where
  "piperead_loop p 0 = kreturn []"
| "piperead_loop p (Suc n) = kbind (kget (\<lambda>s. pipes s p)) (\<lambda>x.
     if pi_nread x = pi_nwrite x then kreturn []
     else kthen (kmodify (upd_pipe p pipe_pop)) (kbind (piperead_loop p n) (\<lambda>bs.
       kreturn (pi_data x ! (unat (pi_nread x) mod PIPESIZE) # bs))))"

definition piperead :: "addr \<Rightarrow> int \<Rightarrow> ('z kfile_scheme, int \<times> byte list) prog" where
  "piperead p n = kbind (kget (\<lambda>s. pipes s p)) (\<lambda>x.
     if pi_nread x = pi_nwrite x \<and> pi_writeopen x
     then kbind myproc_killed (\<lambda>k. if k then kreturn (-1, []) else sleep (ChanPipeRead (unat p)))
     else kbind (piperead_loop p (nat n)) (\<lambda>bs.
       kthen (wakeup (ChanPipeWrite (unat p))) (kreturn (int (length bs), bs))))"

section \<open>Files\<close>

definition filealloc :: "('z kfile_scheme, nat option) prog" where
  "filealloc = kbind (kget (\<lambda>s. find (\<lambda>i. f_ref (ftable s i) = 0) [0..<NFILE])) (\<lambda>r. case r of
     None \<Rightarrow> kreturn None
   | Some i \<Rightarrow> kthen (kmodify (upd_file i (\<lambda>f. f\<lparr>f_ref := 1\<rparr>))) (kreturn (Some i)))"

definition filedup :: "nat \<Rightarrow> ('z kfile_scheme, nat) prog" where
  "filedup f = kbind (kget (\<lambda>s. f_ref (ftable s f))) (\<lambda>r.
     if r < 1 then panic ''filedup''
     else kthen (kmodify (upd_file f (\<lambda>x. x\<lparr>f_ref := f_ref x + 1\<rparr>))) (kreturn f))"

definition iput_opt :: "nat option \<Rightarrow> ('z kfs_scheme, unit) prog" where
  "iput_opt p = (case p of None \<Rightarrow> kfault ''iput'' | Some ip \<Rightarrow> iput ip)"

definition fileclose :: "nat \<Rightarrow> ('z kfile_scheme, unit) prog" where
  "fileclose f = kbind (kget (\<lambda>s. ftable s f)) (\<lambda>ff.
     if f_ref ff < 1 then panic ''fileclose''
     else if f_ref ff - 1 > 0 then kmodify (upd_file f (\<lambda>x. x\<lparr>f_ref := f_ref x - 1\<rparr>))
     else kthen (kmodify (upd_file f (\<lambda>x. x\<lparr>f_ref := 0, f_type := FD_NONE\<rparr>)))
       (case f_type ff of
          FD_PIPE \<Rightarrow> pipeclose (f_pipe ff) (f_writable ff)
        | FD_INODE \<Rightarrow> kthen begin_op (kthen (iput_opt (f_ip ff)) end_op)
        | FD_NONE \<Rightarrow> kreturn ()))"

definition filestat :: "nat \<Rightarrow> ('z kfile_scheme, stat option) prog" where
  "filestat f = kbind (kget (\<lambda>s. ftable s f)) (\<lambda>x. case f_type x of
     FD_INODE \<Rightarrow> kthen (ilock (f_ip x)) (kbind (stati (the (f_ip x))) (\<lambda>st.
       kthen (iunlock (f_ip x)) (kreturn (Some st))))
   | _ \<Rightarrow> kreturn None)"

definition fileread :: "(nat \<Rightarrow> (nat \<Rightarrow> uint \<Rightarrow> ('z kfile_scheme, int \<times> byte list) prog) option) \<Rightarrow>
    nat \<Rightarrow> int \<Rightarrow> ('z kfile_scheme, int \<times> byte list) prog" where
  "fileread devsw f n = kbind (kget (\<lambda>s. ftable s f)) (\<lambda>x.
     if \<not> f_readable x then kreturn (-1, []) else case f_type x of
       FD_PIPE \<Rightarrow> piperead (f_pipe x) n
     | FD_INODE \<Rightarrow> kthen (ilock (f_ip x)) (kbind (readi devsw (the (f_ip x)) (f_off x) (word_of_int n)) (\<lambda>(r, bs).
         kthen (kwhen (r > 0) (kmodify (upd_file f (\<lambda>y. y\<lparr>f_off := f_off y + word_of_int r\<rparr>))))
         (kthen (iunlock (f_ip x)) (kreturn (r, bs)))))
     | FD_NONE \<Rightarrow> panic ''fileread'')"

text \<open>
  filewrite() to an inode, at most \<open>filewrite_max\<close> bytes in each transaction; the result says
  whether all bytes were written.
\<close>

definition filewrite_max :: nat where "filewrite_max = ((MAXOPBLOCKS - 1 - 1 - 2) div 2) * 512"

function filewrite_loop :: "(nat \<Rightarrow> (nat \<Rightarrow> byte list \<Rightarrow> uint \<Rightarrow> ('z kfile_scheme, int) prog) option) \<Rightarrow>
    nat \<Rightarrow> nat option \<Rightarrow> byte list \<Rightarrow> ('z kfile_scheme, bool) prog" where
  "filewrite_loop devsw f ip src = (if src = [] then kreturn True else
     let n1 = min (length src) filewrite_max in
     kthen begin_op (kthen (ilock ip) (kbind (kget (\<lambda>s. f_off (ftable s f))) (\<lambda>off.
     kbind (writei devsw (the ip) (take n1 src) off (of_nat n1)) (\<lambda>r.
     kthen (kwhen (r > 0) (kmodify (upd_file f (\<lambda>y. y\<lparr>f_off := f_off y + word_of_int r\<rparr>))))
     (kthen (iunlock ip) (kthen end_op
     (if r < 0 then kreturn False else if r \<noteq> int n1 then panic ''short filewrite''
      else filewrite_loop devsw f ip (drop n1 src)))))))))"
  by pat_completeness auto
termination
  by (relation "measure (\<lambda>(_, _, _, src). length src)") (auto simp: filewrite_max_def MAXOPBLOCKS_def)

declare filewrite_loop.simps [simp del]

definition filewrite :: "(nat \<Rightarrow> (nat \<Rightarrow> byte list \<Rightarrow> uint \<Rightarrow> ('z kfile_scheme, int) prog) option) \<Rightarrow>
    nat \<Rightarrow> byte list \<Rightarrow> int \<Rightarrow> ('z kfile_scheme, int) prog" where
  "filewrite devsw f src n = kbind (kget (\<lambda>s. ftable s f)) (\<lambda>x.
     if \<not> f_writable x then kreturn (-1) else case f_type x of
       FD_PIPE \<Rightarrow> pipewrite (f_pipe x) src n
     | FD_INODE \<Rightarrow> if n < 0 then kreturn (-1)
         else kbind (filewrite_loop devsw f (f_ip x) src) (\<lambda>done. kreturn (if done then n else -1))
     | FD_NONE \<Rightarrow> panic ''filewrite'')"

text \<open>
  pipealloc(): a pipe page starts with its spin-lock (52 bytes), which the data array follows.
\<close>

definition fresh_pipe :: "mem \<Rightarrow> addr \<Rightarrow> pipe" where
  "fresh_pipe m p = \<lparr>pi_data = map (\<lambda>i. m (p + 52 + of_nat i)) [0..<PIPESIZE], pi_nread = 0, pi_nwrite = 0,
     pi_readopen = True, pi_writeopen = True\<rparr>"

definition pipealloc_bad :: "nat option \<Rightarrow> nat option \<Rightarrow> ('z kfile_scheme, (nat \<times> nat) option) prog" where
  "pipealloc_bad f0 f1 =
     kthen (case f0 of None \<Rightarrow> kreturn () | Some f \<Rightarrow> fileclose f)
     (kthen (case f1 of None \<Rightarrow> kreturn () | Some f \<Rightarrow> fileclose f) (kreturn None))"

definition pipealloc :: "('z kfile_scheme, (nat \<times> nat) option) prog" where
  "pipealloc = kbind filealloc (\<lambda>r0. case r0 of None \<Rightarrow> pipealloc_bad None None | Some f0 \<Rightarrow>
     kbind filealloc (\<lambda>r1. case r1 of None \<Rightarrow> pipealloc_bad (Some f0) None | Some f1 \<Rightarrow>
     kbind kalloc (\<lambda>p. if p = 0 then pipealloc_bad (Some f0) (Some f1)
     else kthen (kmodify (\<lambda>s. upd_pipe p (\<lambda>_. fresh_pipe (mem s) p) s))
       (kthen (kmodify (upd_file f0 (\<lambda>x. x\<lparr>f_type := FD_PIPE, f_readable := True, f_writable := False, f_pipe := p\<rparr>)))
       (kthen (kmodify (upd_file f1 (\<lambda>x. x\<lparr>f_type := FD_PIPE, f_readable := False, f_writable := True, f_pipe := p\<rparr>)))
       (kreturn (Some (f0, f1))))))))"

end
