(* ===== verification/Console.thy ===== *)
theory Console
  imports File
begin

text \<open>
  console.c: formatted output, the CGA text screen, and the line-edited input buffer. The
  screen is the CGA memory with the cursor register; the bytes sent to the serial port are
  recorded. The results of the getc() argument of consoleintr() are a list.
\<close>

section \<open>Printing numbers and formats\<close>

definition digit :: "uint \<Rightarrow> byte" where
  "digit d = (if d < 10 then 0x30 + ucast d else 0x57 + ucast d)"

text \<open>The do-while loop of printint(), least significant digit first.\<close>

function digits_rev :: "uint \<Rightarrow> uint \<Rightarrow> byte list" where
  "digits_rev base x = digit (x mod base) # (if x div base = 0 \<or> base \<le> 1 then [] else digits_rev base (x div base))"
  by pat_completeness auto
termination
proof (relation "measure (unat \<circ> snd)")
  fix base x :: uint assume a: "\<not> (x div base = 0 \<or> base \<le> 1)"
  then have b: "1 < unat base" by (simp add: word_le_nat_alt)
  have "unat x \<noteq> 0" using a by (auto simp: unat_eq_zero)
  then have "unat x div unat base < unat x" using b by (intro div_less_dividend) auto
  then show "((base, x div base), base, x) \<in> measure (unat \<circ> snd)" by (simp add: unat_div_distrib)
qed simp

declare digits_rev.simps [simp del]

definition MINUS :: byte where "MINUS = 0x2D"

definition printint :: "int \<Rightarrow> uint \<Rightarrow> bool \<Rightarrow> byte list" where
  "printint xx base sign = (let neg = (sign \<and> xx < 0); x = (if neg then word_of_int (- xx) else word_of_int xx :: uint) in
     rev (digits_rev base x @ (if neg then [MINUS] else [])))"

text \<open>
  cprintf(): the characters for a format and its arguments. \<open>str\<close> gives the string at an
  address; \<open>None\<close> is a format that asks for more arguments than there are.
\<close>

definition PERCENT :: byte where "PERCENT = 0x25"

fun cprintf :: "(addr \<Rightarrow> byte list) \<Rightarrow> byte list \<Rightarrow> uint list \<Rightarrow> byte list option" where
  "cprintf str [] args = Some []"
| "cprintf str (c # fmt) args =
     (if c \<noteq> PERCENT then map_option ((#) c) (cprintf str fmt args)
      else case fmt of [] \<Rightarrow> Some []
      | d # fmt' \<Rightarrow>
        if d = 0x64 then (case args of [] \<Rightarrow> None | a # as \<Rightarrow> map_option ((@) (printint (sint a) 10 True)) (cprintf str fmt' as))
        else if d = 0x78 \<or> d = 0x70 then (case args of [] \<Rightarrow> None | a # as \<Rightarrow> map_option ((@) (printint (sint a) 16 False)) (cprintf str fmt' as))
        else if d = 0x73 then (case args of [] \<Rightarrow> None | a # as \<Rightarrow>
          map_option ((@) (if a = 0 then [0x28, 0x6E, 0x75, 0x6C, 0x6C, 0x29] else str a)) (cprintf str fmt' as))
        else if d = PERCENT then map_option ((#) PERCENT) (cprintf str fmt' args)
        else map_option (\<lambda>r. PERCENT # d # r) (cprintf str fmt' args))"

section \<open>State\<close>

definition INPUT_BUF :: nat where "INPUT_BUF = 128"
definition BACKSPACE :: nat where "BACKSPACE = 0x100"

record kinput =
  in_buf :: "byte list"
  in_r :: uint
  in_w :: uint
  in_e :: uint

record kcons = kfile +
  input :: kinput
  crt :: "nat \<Rightarrow> ushort"
  cursor :: nat
  uart_out :: "byte list"
  panicked :: bool

definition upd_input :: "(kinput \<Rightarrow> kinput) \<Rightarrow> 'z kcons_scheme \<Rightarrow> 'z kcons_scheme" where
  "upd_input f s = s\<lparr>input := f (input s)\<rparr>"

section \<open>Output\<close>

text \<open>The new cursor and screen for one character; \<open>None\<close> is the panic on a bad position.\<close>

definition cga_move :: "nat \<Rightarrow> nat \<Rightarrow> (nat \<Rightarrow> ushort) \<Rightarrow> nat \<times> (nat \<Rightarrow> ushort)" where
  "cga_move c pos m = (if c = 10 then (pos + (80 - pos mod 80), m)
     else if c = BACKSPACE then (pos - 1, m)
     else (pos + 1, m(pos := (of_nat c AND 0xff) OR 0x0700)))"

definition cga_scroll :: "nat \<Rightarrow> (nat \<Rightarrow> ushort) \<Rightarrow> nat \<times> (nat \<Rightarrow> ushort)" where
  "cga_scroll pos m = (if pos div 80 \<ge> 24
     then (pos - 80, \<lambda>i. let i' = (if i < 23 * 80 then i + 80 else i) in if pos - 80 \<le> i \<and> i < 24 * 80 then 0 else m i')
     else (pos, m))"

definition cgaputc :: "nat \<Rightarrow> ('z kcons_scheme, unit) prog" where
  "cgaputc c = kbind (kget cursor) (\<lambda>pos0. kbind (kget crt) (\<lambda>m0.
     let (pos, m) = cga_move c pos0 m0 in
     if pos > 25 * 80 then panic ''pos under/overflow''
     else let (pos', m') = cga_scroll pos m in
       kmodify (\<lambda>s. s\<lparr>cursor := pos', crt := m'(pos' := 0x20 OR 0x0700)\<rparr>)))"

definition uartputc :: "byte \<Rightarrow> ('z kcons_scheme, unit) prog" where
  "uartputc c = kmodify (\<lambda>s. s\<lparr>uart_out := uart_out s @ [c]\<rparr>)"

definition consputc :: "nat \<Rightarrow> ('z kcons_scheme, unit) prog" where
  "consputc c = kbind (kget panicked) (\<lambda>p. if p then kfault ''halted''
     else kthen (if c = BACKSPACE then kthen (uartputc 8) (kthen (uartputc 0x20) (uartputc 8)) else uartputc (of_nat c))
       (cgaputc c))"

section \<open>Input\<close>

definition CTRL_P :: nat where "CTRL_P = 0x10"
definition CTRL_U :: nat where "CTRL_U = 0x15"
definition CTRL_H :: nat where "CTRL_H = 8"
definition CTRL_D :: nat where "CTRL_D = 4"

definition in_push :: "byte \<Rightarrow> kinput \<Rightarrow> kinput" where
  "in_push b x = x\<lparr>in_buf := (in_buf x)[unat (in_e x) mod INPUT_BUF := b], in_e := in_e x + 1\<rparr>"

definition in_unpush :: "kinput \<Rightarrow> kinput" where
  "in_unpush x = x\<lparr>in_e := in_e x - 1\<rparr>"

definition in_pop :: "kinput \<Rightarrow> kinput" where
  "in_pop x = x\<lparr>in_r := in_r x + 1\<rparr>"

text \<open>
  The loop of Control-U. The count is the number of bytes between the write index and the edit
  index: each turn takes one of them away, so the loop has ended by itself when the count is used up.
\<close>

primrec kill_line :: "nat \<Rightarrow> ('z kcons_scheme, unit) prog" where
  "kill_line 0 = kreturn ()"
| "kill_line (Suc n) = kbind (kget input) (\<lambda>x.
     kwhen (in_e x \<noteq> in_w x \<and> in_buf x ! (unat (in_e x - 1) mod INPUT_BUF) \<noteq> 0x0A)
       (kthen (kmodify (upd_input in_unpush)) (kthen (consputc BACKSPACE) (kill_line n))))"

text \<open>One round of the loop of consoleintr(); the result says whether procdump() is asked for.\<close>

definition console_char :: "nat \<Rightarrow> ('z kcons_scheme, bool) prog" where
  "console_char c =
     (if c = CTRL_P then kreturn True
      else if c = CTRL_U then kbind (kget input) (\<lambda>x. kthen (kill_line (unat (in_e x - in_w x))) (kreturn False))
      else if c = CTRL_H \<or> c = 0x7F then kbind (kget input) (\<lambda>x.
        kthen (kwhen (in_e x \<noteq> in_w x) (kthen (kmodify (upd_input in_unpush)) (consputc BACKSPACE))) (kreturn False))
      else kbind (kget input) (\<lambda>x.
        kthen (kwhen (c \<noteq> 0 \<and> unat (in_e x - in_r x) < INPUT_BUF)
          (let c = (if c = 13 then 10 else c) in
           kthen (kmodify (upd_input (in_push (of_nat c)))) (kthen (consputc c) (kbind (kget input) (\<lambda>y.
             kwhen (c = 10 \<or> c = CTRL_D \<or> in_e y = in_r y + of_nat INPUT_BUF)
               (kthen (kmodify (upd_input (\<lambda>y. y\<lparr>in_w := in_e y\<rparr>))) (wakeup ChanInput)))))))
        (kreturn False)))"

primrec consoleintr :: "nat list \<Rightarrow> ('z kcons_scheme, bool) prog" where
  "consoleintr [] = kreturn False"
| "consoleintr (c # cs) = kbind (console_char c) (\<lambda>d. kbind (consoleintr cs) (\<lambda>d'. kreturn (d \<or> d')))"

datatype read_end = Finished | WasKilled | FellAsleep

text \<open>
  The loop of consoleread(), with \<open>n\<close> of \<open>target\<close> bytes still wanted: the bytes stored and how it
  ended. A process that fell asleep goes on with what it still wants.
\<close>

primrec consoleread_loop :: "nat \<Rightarrow> nat \<Rightarrow> ('z kcons_scheme, byte list \<times> read_end) prog" where
  "consoleread_loop target 0 = kreturn ([], Finished)"
| "consoleread_loop target (Suc n) = kbind (kget input) (\<lambda>x.
     if in_r x = in_w x
     then kbind myproc_killed (\<lambda>k. if k then kreturn ([], WasKilled)
       else kthen (ksleep ChanInput) (kreturn ([], FellAsleep)))
     else let c = in_buf x ! (unat (in_r x) mod INPUT_BUF) in
       kthen (kmodify (upd_input in_pop))
       (if c = of_nat CTRL_D
        then kthen (kwhen (Suc n < target) (kmodify (upd_input (\<lambda>y. y\<lparr>in_r := in_r y - 1\<rparr>)))) (kreturn ([], Finished))
        else if c = 0x0A then kreturn ([c], Finished)
        else kbind (consoleread_loop target n) (\<lambda>(bs, e). kreturn (c # bs, e))))"

definition consoleread :: "nat \<Rightarrow> uint \<Rightarrow> ('z kcons_scheme, int \<times> byte list) prog" where
  "consoleread ip n = kthen (iunlock (Some ip)) (kbind (consoleread_loop (nat (sint n)) (nat (sint n))) (\<lambda>(bs, e). case e of
     Finished \<Rightarrow> kthen (ilock (Some ip)) (kreturn (int (length bs), bs))
   | WasKilled \<Rightarrow> kthen (ilock (Some ip)) (kreturn (-1, bs))
   | FellAsleep \<Rightarrow> (\<lambda>s. Block ChanInput s)))"

definition consolewrite :: "nat \<Rightarrow> byte list \<Rightarrow> uint \<Rightarrow> ('z kcons_scheme, int) prog" where
  "consolewrite ip buf n = kthen (iunlock (Some ip)) (kthen (kfor (take (nat (sint n)) buf) (\<lambda>b. consputc (unat b)))
     (kthen (ilock (Some ip)) (kreturn (sint n))))"

text \<open>The device table after consoleinit().\<close>

definition CONSOLE :: nat where "CONSOLE = 1"

definition devsw_read :: "nat \<Rightarrow> (nat \<Rightarrow> uint \<Rightarrow> ('z kcons_scheme, int \<times> byte list) prog) option" where
  "devsw_read major = (if major = CONSOLE then Some consoleread else None)"

definition devsw_write :: "nat \<Rightarrow> (nat \<Rightarrow> byte list \<Rightarrow> uint \<Rightarrow> ('z kcons_scheme, int) prog) option" where
  "devsw_write major = (if major = CONSOLE then Some consolewrite else None)"

end
