(* ===== verification/Pipe.thy ===== *)
theory Pipe
  imports File
begin

text \<open>
  Pipes as queues: the bytes in a pipe are the bytes written and not yet read, in order, across
  the wrap-around of its counters; in every interleaving of readers and writers nothing is
  lost, duplicated or reordered, and who sleeps could not go on, but after a write that was given up.
\<close>

section \<open>The ring\<close>

interpretation rb: ring_buffer PIPESIZE pi_data pi_nread pi_nwrite pipe_push pipe_pop
  by unfold_locales (simp_all add: PIPESIZE_def pipe_push_def pipe_pop_def)

definition pipe_contents :: "pipe \<Rightarrow> byte list" where
  "pipe_contents x = ring_contents PIPESIZE (pi_data x) (pi_nread x) (pi_nwrite x)"

definition pipe_ok :: "pipe \<Rightarrow> bool" where
  "pipe_ok x \<longleftrightarrow> length (pi_data x) = PIPESIZE \<and> unat (pi_nwrite x - pi_nread x) \<le> PIPESIZE"

lemma pipe_ring: "rb.contents = pipe_contents" "rb.ok = pipe_ok"
  by (auto simp: fun_eq_iff rb.contents_def pipe_contents_def rb.ok_def pipe_ok_def)

lemmas pipe_push_contents = rb.push_contents [unfolded pipe_ring]
lemmas pipe_pop_contents = rb.pop_contents [unfolded pipe_ring]
lemmas pipe_empty_iff = rb.contents_Nil_iff [unfolded pipe_ring]
lemmas pipe_full_iff = rb.full_iff [unfolded pipe_ring]

lemma pipe_contents_le: "pipe_ok x \<Longrightarrow> length (pipe_contents x) \<le> PIPESIZE"
  by (simp add: pipe_ok_def pipe_contents_def)

lemma pipe_flags [simp]:
  "pi_readopen (pipe_push b x) = pi_readopen x" "pi_writeopen (pipe_push b x) = pi_writeopen x"
  "pi_readopen (pipe_pop x) = pi_readopen x" "pi_writeopen (pipe_pop x) = pi_writeopen x"
  by (simp_all add: pipe_push_def pipe_pop_def)

section \<open>The loops\<close>

lemma upd_pipe_sel [simp]:
  "pipes (upd_pipe p f s) = (pipes s)(p := f (pipes s p))" "ptable (upd_pipe p f s) = ptable s"
  "cpu_proc (upd_pipe p f s) = cpu_proc s"
  by (simp_all add: upd_pipe_def)

definition asleep :: "chan \<Rightarrow> proc \<Rightarrow> bool" where
  "asleep c q \<longleftrightarrow> p_state q = SLEEPING \<and> p_chan q = Some c"

definition go_sleep :: "chan \<Rightarrow> proc \<Rightarrow> proc" where
  "go_sleep c q = q\<lparr>p_chan := Some c, p_state := SLEEPING\<rparr>"

definition wake :: "chan \<Rightarrow> (nat \<Rightarrow> proc) \<Rightarrow> nat \<Rightarrow> proc" where
  "wake c t = wake_below NPROC c t"

lemma wake_asleep [simp]: "i < NPROC \<Longrightarrow> asleep c (wake c' t i) \<longleftrightarrow> asleep c (t i) \<and> c \<noteq> c'"
  by (auto simp: asleep_def wake_def)

lemma go_sleep_asleep [simp]: "asleep c (go_sleep c' q) \<longleftrightarrow> c = c'"
  by (auto simp: asleep_def go_sleep_def)

lemma ksleep_eq: "cpu_proc s = Some i \<Longrightarrow> ksleep c s = Done () (upd_proc i (go_sleep c) s)"
  by (simp add: ksleep_def sleep_def myproc_def go_sleep_def [abs_def])

text \<open>What the loop of pipewrite() does.\<close>

lemma pipewrite_loop_spec:
  fixes s :: "'z kfile_scheme" and bs :: "byte list"
  assumes "pipe_ok (pipes s p)" "cpu_proc s = Some i"
  defines "k \<equiv> min (length bs) (PIPESIZE - length (pipe_contents (pipes s p)))"
  shows "\<exists>r t. pipewrite_loop p n bs s = Done (drop k bs, r) t \<and>
    pipe_ok (pipes t p) \<and> pipe_contents (pipes t p) = pipe_contents (pipes s p) @ take k bs \<and>
    pi_readopen (pipes t p) = pi_readopen (pipes s p) \<and> pi_writeopen (pipes t p) = pi_writeopen (pipes s p) \<and>
    (if k = length bs then r = Some n \<and> ptable t = wake (ChanPipeRead (unat p)) (ptable s)
     else if \<not> pi_readopen (pipes s p) \<or> p_killed (ptable s i) then r = Some (-1) \<and> ptable t = ptable s
     else r = None \<and> ptable t = (wake (ChanPipeRead (unat p)) (ptable s))
       (i := go_sleep (ChanPipeWrite (unat p)) (wake (ChanPipeRead (unat p)) (ptable s) i)))"
  using assms(1,2) unfolding k_def
proof (induction bs arbitrary: s)
  case Nil
  then show ?case by (simp add: kthen_Done [OF wakeup_eq] wake_def)
next
  case (Cons b bs)
  let ?x = "pipes s p"
  show ?case
  proof (cases "pi_nwrite ?x = pi_nread ?x + of_nat PIPESIZE")
    case True
    then have full: "length (pipe_contents ?x) = PIPESIZE" using pipe_full_iff [OF Cons.prems(1)] by simp
    have k: "myproc_killed s = Done (p_killed (ptable s i)) s" using Cons.prems by (simp add: myproc_killed_def myproc_def)
    let ?u = "s\<lparr>ptable := wake_below NPROC (ChanPipeRead (unat p)) (ptable s)\<rparr>"
    have "ksleep (ChanPipeWrite (unat p)) ?u = Done () (upd_proc i (go_sleep (ChanPipeWrite (unat p))) ?u)"
      using Cons.prems(2) by (intro ksleep_eq) simp
    then have "pipewrite_loop p n (b # bs) s = (if \<not> pi_readopen (pipes s p) \<or> p_killed (ptable s i) then Done (b # bs, Some (-1)) s
        else Done (b # bs, None) (upd_proc i (go_sleep (ChanPipeWrite (unat p))) ?u))"
      using True by (simp add: kbind_Done [of myproc_killed, OF k] kthen_Done [OF wakeup_eq] kthen_Done)
    then show ?thesis using Cons.prems full by (simp add: wake_def upd_proc_def)
  next
    case False
    then have lt: "length (pipe_contents ?x) < PIPESIZE"
      using pipe_full_iff [OF Cons.prems(1)] pipe_contents_le [OF Cons.prems(1)] by auto
    note push = pipe_push_contents [OF Cons.prems(1) lt, of b]
    let ?u = "upd_pipe p (pipe_push b) s"
    define j where "j = min (length bs) (PIPESIZE - length (pipe_contents (pipes ?u p)))"
    have step: "pipewrite_loop p n (b # bs) s = pipewrite_loop p n bs ?u" using False by simp
    have k: "min (length (b # bs)) (PIPESIZE - length (pipe_contents ?x)) = Suc j" using lt push by (simp add: j_def)
    have "\<exists>r t. pipewrite_loop p n bs ?u = Done (drop j bs, r) t \<and>
      pipe_ok (pipes t p) \<and> pipe_contents (pipes t p) = pipe_contents (pipes ?u p) @ take j bs \<and>
      pi_readopen (pipes t p) = pi_readopen (pipes ?u p) \<and> pi_writeopen (pipes t p) = pi_writeopen (pipes ?u p) \<and>
      (if j = length bs then r = Some n \<and> ptable t = wake (ChanPipeRead (unat p)) (ptable ?u)
       else if \<not> pi_readopen (pipes ?u p) \<or> p_killed (ptable ?u i) then r = Some (-1) \<and> ptable t = ptable ?u
       else r = None \<and> ptable t = (wake (ChanPipeRead (unat p)) (ptable ?u))
         (i := go_sleep (ChanPipeWrite (unat p)) (wake (ChanPipeRead (unat p)) (ptable ?u) i)))"
      unfolding j_def using Cons.prems push(2) by (intro Cons.IH) simp_all
    then show ?thesis unfolding k step using push(1) by (simp only: upd_pipe_sel fun_upd_same pipe_flags drop_Suc_Cons take_Suc_Cons
        list.size nat.inject add_Suc_right add_0_right append_assoc append_Cons append_Nil)
  qed
qed

lemma piperead_loop_spec:
  fixes s :: "'z kfile_scheme" and n :: nat
  assumes "pipe_ok (pipes s p)"
  defines "k \<equiv> min n (length (pipe_contents (pipes s p)))"
  shows "\<exists>t. piperead_loop p n s = Done (take k (pipe_contents (pipes s p))) t \<and> pipe_ok (pipes t p) \<and>
    pipe_contents (pipes t p) = drop k (pipe_contents (pipes s p)) \<and> pi_readopen (pipes t p) = pi_readopen (pipes s p) \<and>
    pi_writeopen (pipes t p) = pi_writeopen (pipes s p) \<and> ptable t = ptable s \<and> kfile.more t = kfile.more s"
  using assms(1) unfolding k_def
proof (induction n arbitrary: s)
  case 0
  then show ?case by simp
next
  case (Suc n)
  let ?x = "pipes s p"
  show ?case
  proof (cases "pi_nread ?x = pi_nwrite ?x")
    case True
    then show ?thesis using Suc.prems pipe_empty_iff [of ?x] by simp
  next
    case False
    note pop = pipe_pop_contents [OF Suc.prems False]
    let ?u = "upd_pipe p pipe_pop s"
    have m: "kfile.more ?u = kfile.more s" by (simp add: upd_pipe_def)
    obtain t where t: "piperead_loop p n ?u = Done (take (min n (length (pipe_contents (pipes ?u p)))) (pipe_contents (pipes ?u p))) t"
      "pipe_ok (pipes t p)" "pipe_contents (pipes t p) = drop (min n (length (pipe_contents (pipes ?u p)))) (pipe_contents (pipes ?u p))"
      "pi_readopen (pipes t p) = pi_readopen (pipes ?u p)" "pi_writeopen (pipes t p) = pi_writeopen (pipes ?u p)" "ptable t = ptable ?u"
      "kfile.more t = kfile.more ?u"
      using Suc.IH [of ?u] pop(2) by auto
    have "piperead_loop p (Suc n) s = Done (pi_data ?x ! (unat (pi_nread ?x) mod PIPESIZE) #
        take (min n (length (pipe_contents (pipes ?u p)))) (pipe_contents (pipes ?u p))) t"
      using False by (simp add: kbind_Done [of "piperead_loop p n", OF t(1)])
    then show ?thesis using t pop m by simp
  qed
qed

section \<open>Readers and writers\<close>

text \<open>
  Processes, killed ones among them, that read from and write to one pipe and close its ends, in any
  order, while the rest of the kernel does what it likes with the process table (\<open>elsewhere\<close>: kill(),
  the schedulers, wakeups), but to put processes to sleep on the channels of the pipe. \<open>sent\<close>
  and \<open>received\<close> collect the bytes that the calls have taken in and handed out, and \<open>cut\<close> is set
  while the last call of pipewrite() that ended or slept was given up with -1.
\<close>

record pipesys = kfile +
  sent :: "byte list"
  received :: "byte list"
  cut :: bool

definition runs :: "nat \<Rightarrow> pipesys \<Rightarrow> bool" where
  "runs i s \<longleftrightarrow> i < NPROC \<and> p_state (ptable s i) \<in> {RUNNABLE, RUNNING}"

inductive pipe_step :: "addr \<Rightarrow> pipesys \<Rightarrow> pipesys \<Rightarrow> bool" for p where
  wrote: "runs i s \<Longrightarrow> int (length bs) \<le> n \<Longrightarrow> pipewrite_loop p n bs (s\<lparr>cpu_proc := Some i\<rparr>) = Done (rest, r) t \<Longrightarrow>
    pipe_step p s (t\<lparr>sent := sent s @ take (length bs - length rest) bs, received := received s, cut := (r = Some (-1))\<rparr>)"
| got: "runs i s \<Longrightarrow> piperead p n (s\<lparr>cpu_proc := Some i\<rparr>) = Done (r, bs) t \<Longrightarrow>
    pipe_step p s (t\<lparr>sent := sent s, received := received s @ bs, cut := cut s\<rparr>)"
| waits: "runs i s \<Longrightarrow> piperead p n (s\<lparr>cpu_proc := Some i\<rparr>) = Block c t \<Longrightarrow>
    pipe_step p s (t\<lparr>sent := sent s, received := received s, cut := cut s\<rparr>)"
| closed: "pipeclose p writable s = Done () t \<Longrightarrow>
    pipe_step p s (t\<lparr>sent := sent s, received := received s, cut := cut s\<rparr>)"
| elsewhere: "(\<And>i c. i < NPROC \<Longrightarrow> c \<in> {ChanPipeRead (unat p), ChanPipeWrite (unat p)} \<Longrightarrow> asleep c (pt i) \<Longrightarrow> asleep c (ptable s i)) \<Longrightarrow>
    pipe_step p s (s\<lparr>ptable := pt\<rparr>)"

definition pipe_initial :: "addr \<Rightarrow> pipesys \<Rightarrow> bool" where
  "pipe_initial p s \<longleftrightarrow> length (pi_data (pipes s p)) = PIPESIZE \<and> pi_nread (pipes s p) = pi_nwrite (pipes s p) \<and>
     pi_readopen (pipes s p) \<and> pi_writeopen (pipes s p) \<and> sent s = [] \<and> received s = [] \<and> \<not> cut s \<and>
     (\<forall>i<NPROC. \<forall>c\<in>{ChanPipeRead (unat p), ChanPipeWrite (unat p)}. \<not> asleep c (ptable s i))"

definition pipe_inv :: "addr \<Rightarrow> pipesys \<Rightarrow> bool" where
  "pipe_inv p s \<longleftrightarrow> pipe_ok (pipes s p) \<and>
     sent s = received s @ pipe_contents (pipes s p) \<and>
     (\<forall>i<NPROC. asleep (ChanPipeRead (unat p)) (ptable s i) \<longrightarrow> pi_writeopen (pipes s p) \<and> (pipe_contents (pipes s p) = [] \<or> cut s)) \<and>
     (\<forall>i<NPROC. asleep (ChanPipeWrite (unat p)) (ptable s i) \<longrightarrow> pi_readopen (pipes s p) \<and> length (pipe_contents (pipes s p)) = PIPESIZE)"

lemma inv_wrote:
  assumes inv: "pipe_inv p s" and i: "runs i s" and n: "int (length bs) \<le> n"
    and run: "pipewrite_loop p n bs (s\<lparr>cpu_proc := Some i\<rparr>) = Done (rest, r) t"
  shows "pipe_inv p (t\<lparr>sent := sent s @ take (length bs - length rest) bs, received := received s, cut := (r = Some (-1))\<rparr>)"
proof -
  let ?s = "s\<lparr>cpu_proc := Some i\<rparr>"
  let ?c = "pipe_contents (pipes s p)" and ?R = "ChanPipeRead (unat p)" and ?W = "ChanPipeWrite (unat p)"
  define k where "k = min (length bs) (PIPESIZE - length (pipe_contents (pipes ?s p)))"
  have "pipe_ok (pipes ?s p)" "cpu_proc ?s = Some i" using inv by (simp_all add: pipe_inv_def)
  from pipewrite_loop_spec [where bs = bs and n = n, OF this, folded k_def] run
  have t: "rest = drop k bs" "pipe_ok (pipes t p)" "pipe_contents (pipes t p) = ?c @ take k bs"
      "pi_readopen (pipes t p) = pi_readopen (pipes s p)" "pi_writeopen (pipes t p) = pi_writeopen (pipes s p)"
    and pt: "if k = length bs then r = Some n \<and> ptable t = wake ?R (ptable s)
      else if \<not> pi_readopen (pipes s p) \<or> p_killed (ptable s i) then r = Some (-1) \<and> ptable t = ptable s
      else r = None \<and> ptable t = (wake ?R (ptable s))(i := go_sleep ?W (wake ?R (ptable s) i))"
    by (auto split: if_splits)
  have kl: "length bs - length rest = k" by (simp add: t(1) k_def)
  have R: "r = Some (-1) \<and> asleep ?R (ptable s j)" if "j < NPROC" "asleep ?R (ptable t j)" for j
    using pt that by (auto split: if_splits)
  have len: "length ?c \<le> PIPESIZE" using inv by (simp add: pipe_inv_def pipe_contents_le)
  have W: "pi_readopen (pipes s p) \<and> length (pipe_contents (pipes t p)) = PIPESIZE" if j: "j < NPROC" "asleep ?W (ptable t j)" for j
  proof (cases "asleep ?W (ptable s j)")
    case True
    then have "pi_readopen (pipes s p)" "length ?c = PIPESIZE" using inv j(1) by (simp_all add: pipe_inv_def)
    then show ?thesis using t(3) by (simp add: k_def)
  next
    case False
    then have "k \<noteq> length bs" "pi_readopen (pipes s p)" using pt j by (auto split: if_splits)
    then show ?thesis using t(3) len by (simp add: k_def)
  qed
  show ?thesis using inv t(2-5) R W kl by (auto simp: pipe_inv_def)
qed

lemma inv_read:
  assumes inv: "pipe_inv p s" and run: "piperead p n (s\<lparr>cpu_proc := Some i\<rparr>) = Done (r, bs) t"
  shows "pipe_inv p (t\<lparr>sent := sent s, received := received s @ bs, cut := cut s\<rparr>)"
proof -
  let ?s = "s\<lparr>cpu_proc := Some i\<rparr>"
  let ?c = "pipe_contents (pipes s p)" and ?R = "ChanPipeRead (unat p)" and ?W = "ChanPipeWrite (unat p)"
  have ok: "pipe_ok (pipes ?s p)" using inv by (simp add: pipe_inv_def)
  have mk: "myproc_killed ?s = Done (p_killed (ptable s i)) ?s" by (simp add: myproc_killed_def myproc_def)
  show ?thesis
  proof (cases "pi_nread (pipes s p) = pi_nwrite (pipes s p) \<and> pi_writeopen (pipes s p)")
    case True
    then have "t = ?s \<and> bs = []" using run
      by (auto simp: piperead_def kbind_Done [of myproc_killed, OF mk] sleep_def myproc_def split: if_splits)
    then show ?thesis using inv by (simp add: pipe_inv_def)
  next
    case False
    obtain u where u: "piperead_loop p (nat n) ?s = Done (take (min (nat n) (length ?c)) ?c) u" "pipe_ok (pipes u p)"
      "pipe_contents (pipes u p) = drop (min (nat n) (length ?c)) ?c" "pi_readopen (pipes u p) = pi_readopen (pipes s p)"
      "pi_writeopen (pipes u p) = pi_writeopen (pipes s p)" "ptable u = ptable s"
      using piperead_loop_spec [OF ok, of "nat n"] by auto
    have t: "t = u\<lparr>ptable := wake ?W (ptable u)\<rparr>" "bs = take (min (nat n) (length ?c)) ?c"
      using run False by (simp_all add: piperead_def kbind_Done [of "piperead_loop p (nat n)", OF u(1)] kthen_Done [OF wakeup_eq] wake_def)
    then show ?thesis using inv u(2-6) by (auto simp: pipe_inv_def)
  qed
qed

lemma inv_waits:
  assumes inv: "pipe_inv p s" and run: "piperead p n (s\<lparr>cpu_proc := Some i\<rparr>) = Block c t"
  shows "pipe_inv p (t\<lparr>sent := sent s, received := received s, cut := cut s\<rparr>)"
proof -
  let ?s = "s\<lparr>cpu_proc := Some i\<rparr>"
  let ?c = "pipe_contents (pipes s p)" and ?R = "ChanPipeRead (unat p)"
  have ok: "pipe_ok (pipes ?s p)" using inv by (simp add: pipe_inv_def)
  have mk: "myproc_killed ?s = Done (p_killed (ptable s i)) ?s" by (simp add: myproc_killed_def myproc_def)
  obtain u where u: "piperead_loop p (nat n) ?s = Done (take (min (nat n) (length ?c)) ?c) u"
    using piperead_loop_spec [OF ok, of "nat n"] by auto
  have e: "pi_nread (pipes s p) = pi_nwrite (pipes s p) \<and> pi_writeopen (pipes s p)"
    using run by (auto simp: piperead_def kbind_Done [of "piperead_loop p (nat n)", OF u] kthen_Done [OF wakeup_eq] split: if_splits)
  then have "t = upd_proc i (go_sleep ?R) ?s" using run
    by (auto simp: piperead_def kbind_Done [of myproc_killed, OF mk] sleep_def myproc_def go_sleep_def [abs_def] split: if_splits)
  then show ?thesis using inv e pipe_empty_iff [of "pipes s p"] by (auto simp: pipe_inv_def upd_proc_def)
qed

lemma kfree_frames: "frames (\<lambda>s. (pipes s, ptable s)) (kfree q)"
  unfolding kfree_def kreturn_eq_Done by (intro frame_intros frames_modify; simp)+

lemma inv_closed:
  assumes inv: "pipe_inv p s" and run: "pipeclose p w s = Done () t"
  shows "pipe_inv p (t\<lparr>sent := sent s, received := received s, cut := cut s\<rparr>)"
proof -
  let ?u = "upd_pipe p (\<lambda>x. if w then x\<lparr>pi_writeopen := False\<rparr> else x\<lparr>pi_readopen := False\<rparr>) s"
  let ?v = "?u\<lparr>ptable := wake (if w then ChanPipeRead (unat p) else ChanPipeWrite (unat p)) (ptable s)\<rparr>"
  have "kwhen (\<not> pi_readopen (pipes ?v p) \<and> \<not> pi_writeopen (pipes ?v p)) (kfree p) ?v = Done () t"
    using run by (auto simp: pipeclose_def kthen_Done [OF wakeup_eq] kthen_assoc kthen_Done wake_def split: if_splits)
  then have "(pipes t, ptable t) = (pipes ?v, ptable ?v)" by (rule framesD [OF frames_when [OF kfree_frames]])
  then show ?thesis using inv by (auto simp: pipe_inv_def pipe_ok_def pipe_contents_def)
qed

interpretation pp: safe_system "pipe_initial p" "pipe_step p" "pipe_inv p" for p
proof
  show "pipe_initial p s \<Longrightarrow> pipe_inv p s" for s :: pipesys
    by (auto simp: pipe_initial_def pipe_inv_def pipe_ok_def pipe_contents_def ring_contents_empty)
  show "pipe_inv p t" if "pipe_inv p s" "pipe_step p s t" for s t
    using that(2)
  proof cases
    case (elsewhere pt)
    then show ?thesis using that(1) by (simp add: pipe_inv_def)
  qed (auto intro: inv_wrote inv_read inv_waits inv_closed that(1))
qed

text \<open>
  C18: A pipe is a reliable queue. However calls of pipewrite() and piperead(), by processes that may be
  killed at any time, and of pipeclose() on either end are interleaved, the bytes taken in are the bytes
  handed out followed by the at most 512 bytes in the pipe, in order, and across the wrap-around of
  the counters. A writer sleeps only while the pipe is full and its read end open. A reader sleeps only while
  the write end is open and the pipe is empty, except after a call of pipewrite() that was given
  up with -1, until the next call that was not.
\<close>

theorem pipe_fifo:
  assumes "reachable (pipe_initial p) (pipe_step p) s"
  shows "sent s = received s @ pipe_contents (pipes s p) \<and> length (pipe_contents (pipes s p)) \<le> PIPESIZE \<and>
    (\<forall>i<NPROC. (asleep (ChanPipeRead (unat p)) (ptable s i) \<longrightarrow> pi_writeopen (pipes s p) \<and> (pipe_contents (pipes s p) = [] \<or> cut s)) \<and>
      (asleep (ChanPipeWrite (unat p)) (ptable s i) \<longrightarrow> pi_readopen (pipes s p) \<and> length (pipe_contents (pipes s p)) = PIPESIZE))"
proof -
  have "pipe_inv p s" using assms by (rule pp.reachable_inv)
  then show ?thesis using pipe_contents_le [of "pipes s p"] by (simp add: pipe_inv_def)
qed

definition pipe_demo :: pipesys where
  "pipe_demo = kmm.extend (kmm_demo\<lparr>ptable := (\<lambda>_. proc_zero\<lparr>p_state := RUNNABLE\<rparr>)\<rparr>)
     \<lparr>ftable = undefined, pipes = (\<lambda>_. \<lparr>pi_data = replicate PIPESIZE 0, pi_nread = 0xFFFFFFFF, pi_nwrite = 0xFFFFFFFF,
       pi_readopen = True, pi_writeopen = True\<rparr>), sent = [], received = [], cut = False\<rparr>"

lemma pipe_demo_sel [simp]:
  "ptable pipe_demo = (\<lambda>_. proc_zero\<lparr>p_state := RUNNABLE\<rparr>)" "sent pipe_demo = []" "received pipe_demo = []" "\<not> cut pipe_demo"
  "pipes pipe_demo = (\<lambda>_. \<lparr>pi_data = replicate PIPESIZE 0, pi_nread = 0xFFFFFFFF, pi_nwrite = 0xFFFFFFFF,
       pi_readopen = True, pi_writeopen = True\<rparr>)"
  by (simp_all add: pipe_demo_def kmm.extend_def kmm_demo_def)

lemma pipe_demo_write:
  "\<exists>t. reachable (pipe_initial p) (pipe_step p) t \<and> sent t = [7, 8]"
proof -
  let ?s = "pipe_demo\<lparr>cpu_proc := Some 0\<rparr>"
  have init: "pipe_initial p pipe_demo" by (simp add: pipe_initial_def asleep_def)
  have "pipe_ok (pipes ?s p)" "cpu_proc ?s = Some 0" by (simp_all add: pipe_ok_def)
  from pipewrite_loop_spec [where bs = "[7, 8]" and n = 2, OF this]
  obtain r t where t: "pipewrite_loop p 2 [7, 8] ?s = Done ([], r) t"
    by (auto simp: pipe_contents_def ring_contents_empty PIPESIZE_def split: if_splits)
  have "runs 0 pipe_demo" by (simp add: runs_def NPROC_def)
  from pipe_step.wrote [OF this _ t] have "pipe_step p pipe_demo (t\<lparr>sent := [7, 8], received := [], cut := (r = Some (-1))\<rparr>)" by simp
  with reachable.start [of "pipe_initial p" pipe_demo "pipe_step p", OF init]
  have "reachable (pipe_initial p) (pipe_step p) (t\<lparr>sent := [7, 8], received := [], cut := (r = Some (-1))\<rparr>)" by (rule reachable.step)
  then show ?thesis by (intro exI [of _ "t\<lparr>sent := [7, 8], received := [], cut := (r = Some (-1))\<rparr>"]) simp
qed

theorem pipe_fifo_witness:
  "\<exists>t. reachable (pipe_initial 0x80300000) (pipe_step 0x80300000) t \<and> received t @ pipe_contents (pipes t 0x80300000) = [7, 8]"
proof -
  obtain t where t: "reachable (pipe_initial 0x80300000) (pipe_step 0x80300000) t" "sent t = [7, 8]"
    using pipe_demo_write [of "0x80300000"] by blast
  from pipe_fifo [OF t(1)] t show ?thesis by (intro exI [of _ t]) simp
qed

text \<open>
  C33: A killed writer can leave a reader asleep although the pipe has bytes for it: when the
  pipe becomes full, pipewrite() by a killed process returns -1 without the wakeup() that
  every other way out has.
\<close>

theorem pipewrite_killed_no_wakeup:
  assumes "pipe_ok (pipes s p)" "pi_nread (pipes s p) = pi_nwrite (pipes s p)" "cpu_proc s = Some i" "p_killed (ptable s i)"
    and "PIPESIZE < length bs" and "asleep (ChanPipeRead (unat p)) (ptable s j)"
  shows "\<exists>t. pipewrite p bs n s = Done (-1) t \<and> asleep (ChanPipeRead (unat p)) (ptable t j) \<and>
    length (pipe_contents (pipes t p)) = PIPESIZE"
proof -
  have "pipe_contents (pipes s p) = []" using assms(2) pipe_empty_iff by simp
  then obtain rest t where "pipewrite_loop p n bs s = Done (rest, Some (-1)) t" "ptable t = ptable s"
    "pipe_contents (pipes t p) = take PIPESIZE bs"
    using pipewrite_loop_spec [OF assms(1,3), of n bs] assms(4,5) by (auto simp: min_def split: if_splits)
  then show ?thesis using assms(5,6) by (simp add: pipewrite_def kbind_Done)
qed

theorem pipewrite_killed_no_wakeup_witness:
  "\<exists>t. pipewrite 0x80300000 (replicate 600 7) 600 (pipe_demo\<lparr>cpu_proc := Some 0,
      ptable := (\<lambda>i. if i = 0 then proc_zero\<lparr>p_killed := True\<rparr>
        else proc_zero\<lparr>p_state := SLEEPING, p_chan := Some (ChanPipeRead (unat (0x80300000 :: addr)))\<rparr>)\<rparr>) = Done (-1) t \<and>
    asleep (ChanPipeRead (unat (0x80300000 :: addr))) (ptable t 1)"
  using pipewrite_killed_no_wakeup [of "pipe_demo\<lparr>cpu_proc := Some 0,
      ptable := (\<lambda>i. if i = 0 then proc_zero\<lparr>p_killed := True\<rparr>
        else proc_zero\<lparr>p_state := SLEEPING, p_chan := Some (ChanPipeRead (unat (0x80300000 :: addr)))\<rparr>)\<rparr>"
      "0x80300000" 0 "replicate 600 7" 1 600]
  by (auto simp: pipe_ok_def PIPESIZE_def asleep_def)

end
