(* ===== verification/ConsoleSpec.thy ===== *)
theory ConsoleSpec
  imports Console Pipe
begin

text \<open>
  What console.c promises: numbers are printed in full and fit their buffer, the cursor stays
  on the screen, and the input ring with its three counters behaves as a queue of committed
  bytes followed by one line that can still be edited.
\<close>

section \<open>Numbers\<close>

definition digit_value :: "byte \<Rightarrow> nat" where
  "digit_value b = (if b < 0x3A then unat b - 0x30 else unat b - 0x57)"

definition numeral_value :: "nat \<Rightarrow> byte list \<Rightarrow> nat" where
  "numeral_value base ds = foldl (\<lambda>a d. a * base + digit_value d) 0 ds"

lemma digit_value_digit: "d < 16 \<Longrightarrow> digit_value (digit d) = unat d"
proof -
  assume "d < 16"
  then have d: "unat d < 16" by (simp add: word_less_nat_alt)
  then have u: "unat (ucast d :: byte) = unat d" by (simp add: unsigned_ucast_eq take_bit_nat_eq_self)
  show ?thesis using d by (auto simp: digit_value_def digit_def word_less_nat_alt unat_plus_if' u)
qed

lemma numeral_value_snoc: "numeral_value base (ds @ [d]) = numeral_value base ds * base + digit_value d"
  by (simp add: numeral_value_def)

lemma digits_rev_value:
  assumes "1 < base" and "base \<le> 16"
  shows "numeral_value (unat base) (rev (digits_rev base x)) = unat x"
  using assms
proof (induction base x rule: digits_rev.induct)
  case (1 base x)
  have nb: "\<not> base \<le> 1" using "1.prems"(1) by (simp only: not_le)
  have b: "1 < unat base" "unat base \<le> 16" using "1.prems" by (auto simp: word_less_nat_alt word_le_nat_alt)
  have "unat x mod unat base < unat base" using b by simp
  then have "unat (x mod base) < 16" using b(2) unfolding unat_mod_distrib by (rule less_le_trans)
  then have "x mod base < 16" by (simp add: word_less_nat_alt)
  then have d: "digit_value (digit (x mod base)) = unat x mod unat base"
    by (simp only: digit_value_digit unat_mod_distrib)
  show ?case
  proof (cases "x div base = 0")
    case True
    then have "unat x div unat base = 0" by (metis unat_div_distrib unat_0)
    then have "unat x mod unat base = unat x" using b by (simp add: div_eq_0_iff)
    then show ?thesis using True d by (simp add: digits_rev.simps [of base x] numeral_value_def)
  next
    case False
    then have "numeral_value (unat base) (rev (digits_rev base (x div base))) = unat (x div base)"
      using "1.IH" "1.prems" nb by auto
    then show ?thesis using False nb d
      by (subst digits_rev.simps) (simp add: numeral_value_snoc unat_div_distrib)
  qed
qed

lemma digits_rev_length:
  assumes "1 < base" and "unat x < unat base ^ Suc k"
  shows "length (digits_rev base x) \<le> Suc k"
  using assms
proof (induction k arbitrary: x)
  case 0
  then have "x div base = 0" by (simp add: word_unat_eq_iff unat_div_distrib)
  then show ?case by (subst digits_rev.simps) simp
next
  case (Suc k)
  have "unat (x div base) < unat base ^ Suc k"
    using Suc.prems by (simp add: unat_div_distrib less_mult_imp_div_less mult.commute)
  then show ?case using Suc by (subst digits_rev.simps) auto
qed

text \<open>The characters are digits of the base, at least one, with no zero in front of others.\<close>

definition digit_chars :: "uint \<Rightarrow> byte set" where
  "digit_chars base = {0x30..0x39} \<union> (if base = 16 then {0x61..0x66} else {})"

lemma digit_char:
  assumes "base = 10 \<or> base = 16"
  shows "digit (x mod base) \<in> digit_chars base" "digit (x mod base) = 0x30 \<longleftrightarrow> x mod base = 0"
proof -
  let ?d = "x mod base"
  have d: "unat ?d < unat base" using assms by (auto simp: unat_mod_distrib)
  then have "unat ?d < 16" using assms by auto
  then have u: "unat (ucast ?d :: byte) = unat ?d" by (simp add: unsigned_ucast_eq take_bit_nat_eq_self)
  have n: "unat (digit ?d) = (if unat ?d < 10 then 0x30 + unat ?d else 0x57 + unat ?d)"
    using \<open>unat ?d < 16\<close> by (simp add: digit_def word_less_nat_alt unat_plus_if' u)
  show "digit ?d \<in> digit_chars base"
    using assms d n by (auto simp: digit_chars_def word_le_nat_alt split: if_splits)
  show "digit ?d = 0x30 \<longleftrightarrow> ?d = 0" using n by (auto simp: word_unat_eq_iff [of "digit ?d"] word_unat_eq_iff [of ?d] split: if_splits)
qed

lemma digits_rev_form:
  assumes "base = 10 \<or> base = 16"
  shows "digits_rev base x \<noteq> [] \<and> set (digits_rev base x) \<subseteq> digit_chars base \<and>
    (length (digits_rev base x) = 1 \<or> last (digits_rev base x) \<noteq> 0x30)"
proof (induction "unat x" arbitrary: x rule: less_induct)
  case less
  have b: "\<not> base \<le> 1" "1 < unat base" using assms by (auto simp: word_le_nat_alt)
  show ?case
  proof (cases "x div base = 0")
    case True
    then show ?thesis using digit_char [OF assms, of x] by (subst (1 2 3 4) digits_rev.simps) simp
  next
    case False
    then have "unat x \<noteq> 0" by (auto simp: unat_eq_zero)
    then have "unat (x div base) < unat x" using b by (simp add: unat_div_distrib)
    note ih = less [OF this]
    have "last (digits_rev base (x div base)) \<noteq> 0x30"
    proof (cases "x div base div base = 0")
      case True
      then have "digits_rev base (x div base) = [digit (x div base mod base)]" by (subst digits_rev.simps) simp
      moreover have "x div base mod base = x div base" using div_mult_mod_eq [of "x div base" base] True by simp
      ultimately show ?thesis using digit_char(2) [OF assms, of "x div base"] False by simp
    next
      case False
      then have "length (digits_rev base (x div base)) \<noteq> 1"
        using b by (subst digits_rev.simps) (simp, subst digits_rev.simps, simp)
      then show ?thesis using ih by simp
    qed
    moreover have "digits_rev base x = digit (x mod base) # digits_rev base (x div base)" using False b by (subst digits_rev.simps) simp
    ultimately show ?thesis using ih digit_char(1) [OF assms, of x] by simp
  qed
qed

text \<open>
  C30: printint() prints the number. In base 10 or 16 what follows the sign is at least one digit of
  the base, without leading zeros, and these digits have the
  value of the number; a minus sign is printed exactly for negative numbers when asked for,
  and the characters fit the 16 bytes of the local buffer, also for the least int.
\<close>

theorem printint_correct:
  assumes "base = 10 \<or> base = 16" and "- (2 ^ 31) \<le> xx" and "xx < 2 ^ 31"
  shows "\<exists>ds. printint xx base sign = (if sign \<and> xx < 0 then MINUS # ds else ds) \<and>
    int (numeral_value (unat base) ds) = (if sign then \<bar>xx\<bar> else xx mod 2 ^ 32) \<and> length (printint xx base sign) \<le> 16 \<and>
    ds \<noteq> [] \<and> set ds \<subseteq> digit_chars base \<and> (length ds = 1 \<or> hd ds \<noteq> 0x30)"
proof -
  define x :: uint where "x = (if sign \<and> xx < 0 then word_of_int (- xx) else word_of_int xx)"
  have b: "1 < base" "base \<le> 16" using assms(1) by auto
  have p: "printint xx base sign = (if sign \<and> xx < 0 then MINUS # rev (digits_rev base x) else rev (digits_rev base x))"
    by (simp add: printint_def Let_def x_def)
  have w: "uint (word_of_int y :: uint) = y mod 2 ^ 32" for y by (simp add: uint_word_of_int)
  have "uint x = (if sign \<and> xx < 0 then - xx else xx) mod 2 ^ 32" unfolding x_def by (cases "sign \<and> xx < 0") (simp_all only: w if_True if_False simp_thms)
  then have u: "int (unat x) = (if sign then \<bar>xx\<bar> else xx mod 2 ^ 32)" using assms(2,3) by (auto simp: mod_pos_pos_trivial)
  have "unat x < 10 ^ Suc 9" "unat x < 16 ^ Suc 9" using unat_bound [of x] by simp_all
  then have "length (digits_rev base x) \<le> Suc 9" using assms(1) by (intro digits_rev_length [OF b(1)]) auto
  then show ?thesis using digits_rev_value [OF b, of x] digits_rev_form [OF assms(1), of x] p u
    by (intro exI [of _ "rev (digits_rev base x)"]) (auto simp: hd_rev)
qed

theorem printint_correct_witness:
  "int (numeral_value 10 (tl (printint (- 2147483648) 10 True))) = 2147483648 \<and> printint 0 10 True \<noteq> []"
proof -
  have "printint 0 10 True \<noteq> []" using printint_correct [of 10 0 True] by auto
  obtain ds where "printint (- 2147483648) 10 True = MINUS # ds" "int (numeral_value (unat (10 :: uint)) ds) = 2147483648"
    using printint_correct [of 10 "- 2147483648" True] by fastforce
  then show ?thesis using \<open>printint 0 10 True \<noteq> []\<close> by simp
qed

section \<open>The screen\<close>

lemma cga_bounds:
  assumes "pos < 24 * 80" and "cga_move c pos m = (pos1, m1)" and "cga_scroll pos1 m1 = (pos2, m2)"
  shows "pos1 \<le> 25 * 80" "pos2 < 24 * 80" "24 * 80 \<le> i \<Longrightarrow> m2 i = m i"
proof -
  have "pos = 80 * (pos div 80) + pos mod 80" "pos mod 80 < 80" "pos div 80 < 24" using assms(1) by simp_all
  then have "pos + (80 - pos mod 80) \<le> 24 * 80" by linarith
  then have p: "pos1 \<le> 24 * 80" using assms(1,2) by (auto simp: cga_move_def split: if_splits)
  then show "pos1 \<le> 25 * 80" by simp
  show "pos2 < 24 * 80" using p assms(3) by (auto simp: cga_scroll_def split: if_splits)
  show "m2 i = m i" if "24 * 80 \<le> i"
    using that assms by (auto simp: cga_scroll_def cga_move_def Let_def split: if_splits)
qed

lemma wp_cgaputc:
  assumes "cursor s < 24 * 80"
    and "\<And>p m. p < 24 * 80 \<Longrightarrow> \<forall>i\<ge>24 * 80. m i = crt s i \<Longrightarrow> Q () (s\<lparr>cursor := p, crt := m\<rparr>)"
  shows "wp (cgaputc c) Q s"
proof -
  obtain p1 m1 p2 m2 where m: "cga_move c (cursor s) (crt s) = (p1, m1)" "cga_scroll p1 m1 = (p2, m2)" by fastforce
  note b = cga_bounds [OF assms(1) m]
  have "Q () (s\<lparr>cursor := p2, crt := m2(p2 := 0x20 OR 0x0700)\<rparr>)" using b by (intro assms(2)) auto
  then show ?thesis using b(1) by (simp add: cgaputc_def m)
qed

text \<open>
  C31: The cursor stays on the screen. From a position in the first 24 lines cgaputc() does not
  panic for any character, leaves the cursor in the first 24 lines, and writes no cell of the
  CGA memory beyond them.
\<close>

theorem cgaputc_in_bounds:
  assumes "cursor s < 24 * 80"
  shows "wp (cgaputc c) (\<lambda>_ t. cursor t < 24 * 80 \<and> (\<forall>i\<ge>24 * 80. crt t i = crt s i)) s"
  using assms by (rule wp_cgaputc) auto

section \<open>Line editing\<close>

interpretation ib: edit_buffer INPUT_BUF in_buf in_r in_e in_push in_pop in_unpush
  by unfold_locales (simp_all add: INPUT_BUF_def in_push_def in_pop_def in_unpush_def)

text \<open>
  The bytes committed for readers, and the line being edited. The abstraction cuts the ring
  between the read and the edit index at the write index.
\<close>

definition in_contents :: "kinput \<Rightarrow> byte list" where
  "in_contents x = ring_contents INPUT_BUF (in_buf x) (in_r x) (in_e x)"

definition committed :: "kinput \<Rightarrow> byte list" where
  "committed x = take (unat (in_w x - in_r x)) (in_contents x)"

definition edit_line :: "kinput \<Rightarrow> byte list" where
  "edit_line x = drop (unat (in_w x - in_r x)) (in_contents x)"

definition input_ok :: "kinput \<Rightarrow> bool" where
  "input_ok x \<longleftrightarrow> length (in_buf x) = INPUT_BUF \<and> unat (in_e x - in_r x) \<le> INPUT_BUF \<and>
     unat (in_w x - in_r x) \<le> unat (in_e x - in_r x) \<and> 0x0A \<notin> set (edit_line x)"

text \<open>The terminal as its user sees it: what typing a character does to the two.\<close>

definition type_char :: "nat \<Rightarrow> byte list \<times> byte list \<Rightarrow> byte list \<times> byte list" where
  "type_char c cl = (case cl of (com, ln) \<Rightarrow>
     if c = CTRL_P then (com, ln)
     else if c = CTRL_U then (com, [])
     else if c = CTRL_H \<or> c = 0x7F then (com, butlast ln)
     else if c = 0 \<or> INPUT_BUF \<le> length com + length ln then (com, ln)
     else let c' = (if c = 13 then 10 else c) in
       if c' = 10 \<or> c' = CTRL_D \<or> length com + length ln + 1 = INPUT_BUF
       then (com @ ln @ [of_nat c'], []) else (com, ln @ [of_nat c']))"

lemma input_ring: "ib.contents = in_contents" "ib.ok x \<longleftrightarrow> length (in_buf x) = INPUT_BUF \<and> unat (in_e x - in_r x) \<le> INPUT_BUF"
  by (auto simp: fun_eq_iff ib.contents_def in_contents_def ib.ok_def)

lemma length_in_contents: "length (in_contents x) = unat (in_e x - in_r x)"
  by (simp add: in_contents_def)

lemma input_split: "in_contents x = committed x @ edit_line x"
  by (simp add: committed_def edit_line_def)

lemma input_lengths:
  assumes "input_ok x"
  shows "length (committed x) = unat (in_w x - in_r x)" "length (edit_line x) = unat (in_e x - in_w x)"
    "length (committed x) + length (edit_line x) = unat (in_e x - in_r x)"
proof -
  have le: "unat (in_w x - in_r x) \<le> unat (in_e x - in_r x)" using assms by (simp add: input_ok_def)
  show "length (committed x) = unat (in_w x - in_r x)" using le by (simp add: committed_def length_in_contents)
  have "in_e x - in_w x = (in_e x - in_r x) - (in_w x - in_r x)" by simp
  then have "unat (in_e x - in_w x) = unat (in_e x - in_r x) - unat (in_w x - in_r x)"
    using le by (simp only: unat_sub word_le_nat_alt)
  then show "length (edit_line x) = unat (in_e x - in_w x)" by (simp add: edit_line_def length_in_contents)
  show "length (committed x) + length (edit_line x) = unat (in_e x - in_r x)"
    using le by (simp add: committed_def edit_line_def length_in_contents)
qed

lemma edit_line_empty: "input_ok x \<Longrightarrow> edit_line x = [] \<longleftrightarrow> in_e x = in_w x"
proof -
  assume "input_ok x"
  then have "edit_line x = [] \<longleftrightarrow> unat (in_e x - in_w x) = 0" using input_lengths(2) by (metis length_0_conv)
  then show ?thesis by (simp add: unat_eq_zero)
qed

lemma unpush_line:
  assumes ok: "input_ok x" and ne: "in_e x \<noteq> in_w x"
  shows "edit_line x = edit_line (in_unpush x) @ [in_buf x ! (unat (in_e x - 1) mod INPUT_BUF)]"
    "committed (in_unpush x) = committed x" "input_ok (in_unpush x)"
proof -
  let ?n = "unat (in_w x - in_r x)"
  have "edit_line x \<noteq> []" using ok ne edit_line_empty by blast
  then have lt: "?n < length (in_contents x)" by (simp add: edit_line_def)
  then have "in_r x \<noteq> in_e x" by (auto simp: length_in_contents)
  with ok have u: "in_contents x = in_contents (in_unpush x) @ [in_buf x ! (unat (in_e x - 1) mod INPUT_BUF)]"
    "ib.ok (in_unpush x)" using ib.unpush_contents [of x, unfolded input_ring(1)] by (simp_all add: input_ok_def input_ring(2))
  have n: "?n \<le> length (in_contents (in_unpush x))" using lt u(1) by simp
  have w: "in_w (in_unpush x) = in_w x" "in_r (in_unpush x) = in_r x" by (simp_all add: in_unpush_def)
  show e: "edit_line x = edit_line (in_unpush x) @ [in_buf x ! (unat (in_e x - 1) mod INPUT_BUF)]"
    using n w by (simp add: edit_line_def u(1))
  show "committed (in_unpush x) = committed x" using n w by (simp add: committed_def u(1))
  have "0x0A \<notin> set (edit_line (in_unpush x))" using ok e by (simp add: input_ok_def)
  then show "input_ok (in_unpush x)" using u(2) n w by (simp add: input_ok_def input_ring(2) length_in_contents)
qed

lemma push_line:
  assumes ok: "input_ok x" and room: "unat (in_e x - in_r x) < INPUT_BUF"
  shows "edit_line (in_push b x) = edit_line x @ [b]" "committed (in_push b x) = committed x"
    "length (in_buf (in_push b x)) = INPUT_BUF" "unat (in_e (in_push b x) - in_r (in_push b x)) = Suc (unat (in_e x - in_r x))"
proof -
  let ?n = "unat (in_w x - in_r x)"
  have "ib.ok x" "length (in_contents x) < INPUT_BUF" using ok room by (simp_all add: input_ok_def input_ring(2) length_in_contents)
  note u = ib.push_contents [unfolded input_ring(1), OF this, of b]
  have n: "?n \<le> length (in_contents x)" using ok by (simp add: input_ok_def length_in_contents)
  have w: "in_w (in_push b x) = in_w x" "in_r (in_push b x) = in_r x" by (simp_all add: in_push_def)
  show "edit_line (in_push b x) = edit_line x @ [b]" "committed (in_push b x) = committed x"
    using n w u(1) by (simp_all add: edit_line_def committed_def)
  show "length (in_buf (in_push b x)) = INPUT_BUF" using u(2) by (simp add: input_ring(2))
  have "length (in_contents (in_push b x)) = Suc (length (in_contents x))" using u(1) by simp
  then show "unat (in_e (in_push b x) - in_r (in_push b x)) = Suc (unat (in_e x - in_r x))" by (simp only: length_in_contents)
qed

section \<open>The interrupt handler refines the terminal\<close>

definition cons_ok :: "'z kcons_scheme \<Rightarrow> bool" where
  "cons_ok s \<longleftrightarrow> input_ok (input s) \<and> cursor s < 24 * 80 \<and> \<not> panicked s"

lemma wp_consputc:
  assumes "cursor s < 24 * 80" "\<not> panicked s"
    and Q: "\<And>t. input t = input s \<Longrightarrow> cursor t < 24 * 80 \<Longrightarrow> \<not> panicked t \<Longrightarrow> Q () t"
  shows "wp (consputc c) Q s"
  using assms(1,2) by (auto simp: consputc_def uartputc_def intro!: wp_cgaputc Q)

lemma wp_kill_line:
  fixes s :: "'z kcons_scheme"
  assumes "cons_ok s" and "n = length (edit_line (input s))"
    and Q: "\<And>t. cons_ok t \<Longrightarrow> edit_line (input t) = [] \<Longrightarrow> committed (input t) = committed (input s) \<Longrightarrow> Q () t"
  shows "wp (kill_line n) Q s"
  using assms
proof (induction n arbitrary: s)
  case 0
  then show ?case by simp
next
  case (Suc n)
  let ?x = "input s"
  have ok: "input_ok ?x" "cursor s < 24 * 80" "\<not> panicked s" using Suc.prems(1) by (auto simp: cons_ok_def)
  have ne: "in_e ?x \<noteq> in_w ?x" using Suc.prems(2) edit_line_empty [OF ok(1)] by auto
  note u = unpush_line [OF ok(1) ne]
  have nl: "in_buf ?x ! (unat (in_e ?x - 1) mod INPUT_BUF) \<noteq> 0x0A" using ok(1) u(1) by (auto simp: input_ok_def)
  have "wp (consputc BACKSPACE) (\<lambda>_. wp (kill_line n) Q) (upd_input in_unpush s)"
  proof (rule wp_consputc)
    fix t :: "'z kcons_scheme" assume t: "input t = input (upd_input in_unpush s)" "cursor t < 24 * 80" "\<not> panicked t"
    show "wp (kill_line n) Q t"
    proof (rule Suc.IH)
      show "cons_ok t" using t u(3) by (simp add: cons_ok_def upd_input_def)
      show "n = length (edit_line (input t))" using Suc.prems(2) t(1) u(1) by (simp add: upd_input_def)
      show "Q () v" if "cons_ok v" "edit_line (input v) = []" "committed (input v) = committed (input t)" for v
        using that t(1) u(2) by (intro Suc.prems(3)) (simp_all add: upd_input_def)
    qed
  qed (use ok in \<open>simp_all add: upd_input_def\<close>)
  then show ?case unfolding kill_line.simps wp_seq wp_base using ne nl by simp
qed

lemma commit_line:
  assumes "length (in_buf y) = INPUT_BUF" and "unat (in_e y - in_r y) \<le> INPUT_BUF"
  shows "committed (y\<lparr>in_w := in_e y\<rparr>) = in_contents y" "edit_line (y\<lparr>in_w := in_e y\<rparr>) = []"
    "input_ok (y\<lparr>in_w := in_e y\<rparr>)"
proof -
  have c: "in_contents (y\<lparr>in_w := in_e y\<rparr>) = in_contents y" by (simp add: in_contents_def)
  show "committed (y\<lparr>in_w := in_e y\<rparr>) = in_contents y" by (simp add: committed_def c length_in_contents)
  show e: "edit_line (y\<lparr>in_w := in_e y\<rparr>) = []" by (simp add: edit_line_def c length_in_contents)
  then show "input_ok (y\<lparr>in_w := in_e y\<rparr>)" using assms unfolding input_ok_def by simp
qed

text \<open>The part of the default case that stores a character.\<close>

definition accept_char :: "nat \<Rightarrow> ('z kcons_scheme, unit) prog" where
  "accept_char d = kthen (kmodify (upd_input (in_push (of_nat d)))) (kthen (consputc d) (kbind (kget input) (\<lambda>y.
     kwhen (d = 10 \<or> d = CTRL_D \<or> in_e y = in_r y + of_nat INPUT_BUF)
       (kthen (kmodify (upd_input (\<lambda>y. y\<lparr>in_w := in_e y\<rparr>))) (wakeup ChanInput)))))"

lemma wp_accept_char:
  fixes s :: "'z kcons_scheme"
  assumes ok: "cons_ok s" and d: "d < 256" and room: "unat (in_e (input s) - in_r (input s)) < INPUT_BUF"
  defines "com \<equiv> committed (input s)" and "ln \<equiv> edit_line (input s)"
  shows "wp (accept_char d) (\<lambda>_ t. cons_ok t \<and> (committed (input t), edit_line (input t)) =
    (if d = 10 \<or> d = CTRL_D \<or> length com + length ln + 1 = INPUT_BUF then (com @ ln @ [of_nat d], []) else (com, ln @ [of_nat d]))) s"
proof -
  let ?x = "input s" and ?y = "in_push (of_nat d) (input s)"
  have s: "input_ok ?x" "cursor s < 24 * 80" "\<not> panicked s" using ok by (auto simp: cons_ok_def)
  note p = push_line [OF s(1) room, of "of_nat d"]
  have cl: "com @ ln @ [of_nat d] = in_contents ?y" using p(1,2) input_split [of ?y] by (simp add: com_def ln_def)
  have le: "unat (in_e ?y - in_r ?y) \<le> INPUT_BUF" using p(4) room by simp
  have "ib.ok ?y" using p(3) le by (simp add: input_ring(2))
  from ib.full_iff [OF this] have full: "in_e ?y = in_r ?y + of_nat INPUT_BUF \<longleftrightarrow> length com + length ln + 1 = INPUT_BUF"
    unfolding input_ring(1) by (simp only: cl [symmetric]) auto
  note cm = commit_line [OF p(3) le]
  have plain: "input_ok ?y" if "d \<noteq> 10"
  proof -
    have "unat (of_nat d :: byte) = d" using d by (simp add: unat_of_nat take_bit_nat_eq_self)
    then have "(of_nat d :: byte) \<noteq> 0x0A" using that by (auto simp: word_unat_eq_iff)
    moreover have "unat (in_w ?y - in_r ?y) \<le> unat (in_e ?y - in_r ?y)"
      using s(1) p(4) by (simp add: input_ok_def in_push_def)
    ultimately show ?thesis using s(1) p(1,3) le by (simp add: input_ok_def)
  qed
  show ?thesis unfolding accept_char_def wp_seq wp_base
  proof (rule wp_consputc)
    fix t :: "'z kcons_scheme" assume "input t = input (upd_input (in_push (of_nat d)) s)" "cursor t < 24 * 80" "\<not> panicked t"
    then have t: "input t = ?y" "cursor t < 24 * 80" "\<not> panicked t" by (simp_all add: upd_input_def)
    show "if d = 10 \<or> d = CTRL_D \<or> in_e (input t) = in_r (input t) + of_nat INPUT_BUF
      then wp (wakeup ChanInput) (\<lambda>_ t. cons_ok t \<and> (committed (input t), edit_line (input t)) =
        (if d = 10 \<or> d = CTRL_D \<or> length com + length ln + 1 = INPUT_BUF then (com @ ln @ [of_nat d], []) else (com, ln @ [of_nat d])))
        (upd_input (\<lambda>y. y\<lparr>in_w := in_e y\<rparr>) t)
      else cons_ok t \<and> (committed (input t), edit_line (input t)) =
        (if d = 10 \<or> d = CTRL_D \<or> length com + length ln + 1 = INPUT_BUF then (com @ ln @ [of_nat d], []) else (com, ln @ [of_nat d]))"
      using t full cm plain p(1,2) cl by (auto simp: upd_input_def cons_ok_def com_def ln_def)
  qed (use s in \<open>simp_all add: upd_input_def\<close>)
qed

text \<open>
  C17: The console refines a terminal. For every character that arrives, what consoleintr()
  does to the ring buffer and its three counters is, seen through the committed bytes and the
  line being edited, exactly what \<^const>\<open>type_char\<close> says: erasing stops at committed input,
  a newline, Control-D or a full buffer commits the line, and characters beyond 128 bytes are
  dropped. The handler always returns.
\<close>

theorem console_refines_terminal:
  fixes s :: "'z kcons_scheme"
  assumes ok: "cons_ok s" and c: "c < 256"
  shows "wp (console_char c) (\<lambda>d t. cons_ok t \<and> d = (c = CTRL_P) \<and>
    (committed (input t), edit_line (input t)) = type_char c (committed (input s), edit_line (input s))) s"
proof -
  let ?x = "input s"
  let ?Q = "\<lambda>d t. cons_ok t \<and> d = (c = CTRL_P) \<and>
    (committed (input t), edit_line (input t)) = type_char c (committed ?x, edit_line ?x)"
  have s: "input_ok ?x" "cursor s < 24 * 80" "\<not> panicked s" using ok by (auto simp: cons_ok_def)
  consider "c = CTRL_P" | "c = CTRL_U" | "c = CTRL_H \<or> c = 0x7F"
    | "c \<noteq> CTRL_P" "c \<noteq> CTRL_U" "\<not> (c = CTRL_H \<or> c = 0x7F)" by blast
  then show ?thesis
  proof cases
    case 1
    then show ?thesis using ok by (simp add: console_char_def type_char_def)
  next
    case 2
    have "wp (kill_line (unat (in_e ?x - in_w ?x))) (\<lambda>_. ?Q False) s"
      by (rule wp_kill_line [OF ok]) (use input_lengths(2) [OF s(1)] 2 in \<open>simp_all add: type_char_def CTRL_P_def CTRL_U_def\<close>)
    then show ?thesis using 2 by (simp add: console_char_def wp_seq wp_base CTRL_P_def CTRL_U_def)
  next
    case 3
    show ?thesis
    proof (cases "in_e ?x = in_w ?x")
      case True
      then have "edit_line ?x = []" using edit_line_empty [OF s(1)] by simp
      then show ?thesis using 3 True ok by (auto simp: console_char_def type_char_def wp_seq wp_base CTRL_P_def CTRL_U_def CTRL_H_def)
    next
      case False
      note u = unpush_line [OF s(1) False]
      have "wp (consputc BACKSPACE) (\<lambda>_. ?Q False) (upd_input in_unpush s)"
        by (rule wp_consputc) (use s u 3 in \<open>auto simp: upd_input_def cons_ok_def type_char_def CTRL_P_def CTRL_U_def CTRL_H_def\<close>)
      then show ?thesis using 3 False by (auto simp: console_char_def wp_seq wp_base CTRL_P_def CTRL_U_def CTRL_H_def)
    qed
  next
    case 4
    show ?thesis
    proof (cases "c \<noteq> 0 \<and> unat (in_e ?x - in_r ?x) < INPUT_BUF")
      case False
      then show ?thesis using 4 ok input_lengths(3) [OF s(1)]
        by (auto simp: console_char_def type_char_def wp_seq wp_base)
    next
      case True
      define d where "d = (if c = 13 then 10 else c)"
      have d: "d < 256" using c by (simp add: d_def)
      have len: "length (committed ?x) + length (edit_line ?x) < INPUT_BUF" using True input_lengths(3) [OF s(1)] by simp
      have "type_char c (committed ?x, edit_line ?x) =
          (if d = 10 \<or> d = CTRL_D \<or> length (committed ?x) + length (edit_line ?x) + 1 = INPUT_BUF
           then (committed ?x @ edit_line ?x @ [of_nat d], []) else (committed ?x, edit_line ?x @ [of_nat d]))"
        using 4 True len by (auto simp: type_char_def d_def)
      then have "wp (accept_char d) (\<lambda>_. ?Q False) s" using wp_accept_char [OF ok d] True 4 by (auto elim!: wp_mono)
      then show ?thesis using 4 True by (simp add: console_char_def accept_char_def d_def [symmetric] wp_seq wp_base Let_def)
    qed
  qed
qed

definition cons_demo :: kcons where
  "cons_demo = kmm.extend kmm_demo \<lparr>ftable = undefined, pipes = undefined,
     input = \<lparr>in_buf = replicate INPUT_BUF 0, in_r = 0xFFFFFFFE, in_w = 0xFFFFFFFE, in_e = 0xFFFFFFFE\<rparr>,
     crt = (\<lambda>_. 0), cursor = 1919, uart_out = [], panicked = False\<rparr>"

lemma cons_demo_sel [simp]:
  "input cons_demo = \<lparr>in_buf = replicate INPUT_BUF 0, in_r = 0xFFFFFFFE, in_w = 0xFFFFFFFE, in_e = 0xFFFFFFFE\<rparr>"
  "cursor cons_demo = 1919" "crt cons_demo = (\<lambda>_. 0)" "\<not> panicked cons_demo"
  by (simp_all add: cons_demo_def kmm.extend_def kmm_demo_def)

theorem console_refines_terminal_witness:
  "wp (console_char 0x61) (\<lambda>d t. committed (input t) = [] \<and> edit_line (input t) = [0x61]) cons_demo"
proof -
  have e: "in_contents (input cons_demo) = []" by (simp add: in_contents_def ring_contents_empty)
  have c: "committed (input cons_demo) = []" "edit_line (input cons_demo) = []" unfolding committed_def edit_line_def e by simp_all
  have "cons_ok cons_demo" unfolding cons_ok_def input_ok_def c by simp
  from console_refines_terminal [OF this, of "0x61"] show ?thesis unfolding c
    by (auto simp: type_char_def CTRL_P_def CTRL_U_def CTRL_H_def CTRL_D_def INPUT_BUF_def elim!: wp_mono)
qed

theorem cgaputc_in_bounds_witness: "wp (cgaputc 0x61) (\<lambda>_ t. cursor t < 1920) cons_demo"
  using cgaputc_in_bounds [of cons_demo "0x61"] by (auto elim!: wp_mono)

end
