(* ===== verification/Proc.thy ===== *)
theory Proc
  imports Console Spinlock
begin

text \<open>
  proc.c: creation, growth, death and scheduling of processes. Each section under ptable.lock is
  one step. A function that calls swtch() ends, in the model, in the state it switches away in;
  the checks of sched() on ptable.lock and the interrupt flag belong to the CPU state of
  Spinlock and are not repeated here. What a process does while it has the CPU is an argument of
  the scheduler's round.
\<close>

section \<open>State\<close>

record ksys = kcons +
  forkret_first :: bool
  ticks :: uint
  kbd_shift :: uint

text \<open>myproc()->..., a null dereference when no process runs on this CPU.\<close>

definition with_curproc :: "(nat \<Rightarrow> ('z kproc_scheme, 'a) prog) \<Rightarrow> ('z kproc_scheme, 'a) prog" where
  "with_curproc f = kbind myproc (\<lambda>p. case p of None \<Rightarrow> kfault ''myproc'' | Some i \<Rightarrow> f i)"

lemma wp_with_curproc [simp]: "wp (with_curproc f) Q s = (case cpu_proc s of None \<Rightarrow> False | Some i \<Rightarrow> wp (f i) Q s)"
  by (simp add: with_curproc_def myproc_def split: option.split)

lemma with_curproc_eq: "cpu_proc s = Some i \<Longrightarrow> with_curproc f s = f i s"
  by (simp add: with_curproc_def myproc_def)

text \<open>safestrcpy() into the name of a process leaves the bytes it does not reach.\<close>

definition set_name :: "cptr \<Rightarrow> proc \<Rightarrow> proc" where
  "set_name t p = (let bs = safestrcpy t 16 in p\<lparr>p_name := bs @ drop (length bs) (p_name p)\<rparr>)"

section \<open>Creating processes\<close>

text \<open>
  allocproc(). The trap frame is the field \<open>p_tf\<close> and the saved context the field \<open>p_context\<close>
  of the process; between the two on the kernel stack lies the word that makes forkret() return
  to trapret. The trap frame takes 76 bytes.
\<close>

definition allocproc :: "('z kfile_scheme, nat option) prog" where
  "allocproc = kbind (kget (\<lambda>s. find (\<lambda>i. p_state (ptable s i) = UNUSED) [0..<NPROC])) (\<lambda>r. case r of
     None \<Rightarrow> kreturn None
   | Some i \<Rightarrow>
       kthen (kmodify (\<lambda>s. (upd_proc i (\<lambda>p. p\<lparr>p_state := EMBRYO, p_pid := nextpid s\<rparr>) s)\<lparr>nextpid := nextpid s + 1\<rparr>))
       (kbind kalloc (\<lambda>k. kthen (kmodify (upd_proc i (\<lambda>p. p\<lparr>p_kstack := k\<rparr>)))
       (if k = 0 then kthen (kmodify (upd_proc i (\<lambda>p. p\<lparr>p_state := UNUSED\<rparr>))) (kreturn None)
        else kbind (kget k_trapret) (\<lambda>trapret. kbind (kget k_forkret) (\<lambda>forkret.
          kthen (store32 (k + KSTACKSIZE - 76 - 4) trapret)
          (kthen (kmodify (upd_proc i (\<lambda>p. p\<lparr>p_context := kcontext_zero\<lparr>ctx_eip := forkret\<rparr>\<rparr>)))
          (kreturn (Some i)))))))))"

definition user_trapframe :: trapframe where
  "user_trapframe = (let ds = push_bit 3 SEG_UDATA OR DPL_USER in
     trapframe_zero\<lparr>tf_cs := push_bit 3 SEG_UCODE OR DPL_USER, tf_ds := ds, tf_es := ds, tf_ss := ds,
       tf_eflags := FL_IF, tf_esp := PGSIZE, tf_eip := 0\<rparr>)"

text \<open>userinit(); \<open>initcode\<close> is the linked binary of initcode.S.\<close>

definition userinit :: "byte list \<Rightarrow> ('z kfile_scheme, unit) prog" where
  "userinit initcode = kbind allocproc (\<lambda>r. kthen (kmodify (\<lambda>s. s\<lparr>initproc := r\<rparr>)) (case r of
     None \<Rightarrow> kfault ''userinit''
   | Some p \<Rightarrow> kbind setupkvm (\<lambda>d. kthen (kmodify (upd_proc p (\<lambda>q. q\<lparr>p_pgdir := d\<rparr>)))
       (if d = 0 then panic ''userinit: out of memory?''
        else kthen (inituvm d initcode)
          (kthen (kmodify (upd_proc p (\<lambda>q. q\<lparr>p_sz := PGSIZE, p_tf := user_trapframe\<rparr>)))
          (kthen (kmodify (upd_proc p (set_name (cstring [0x69, 0x6E, 0x69, 0x74, 0x63, 0x6F, 0x64, 0x65]))))
          (kbind (namei [SLASH]) (\<lambda>cwd. kthen (kmodify (upd_proc p (\<lambda>q. q\<lparr>p_cwd := cwd\<rparr>)))
          (kmodify (upd_proc p (\<lambda>q. q\<lparr>p_state := RUNNABLE\<rparr>)))))))))))"

text \<open>growproc(); the argument is a C int, added to the unsigned size.\<close>

definition growproc :: "int \<Rightarrow> ('z kmm_scheme, int) prog" where
  "growproc n = with_curproc (\<lambda>c. kbind (kget (\<lambda>s. ptable s c)) (\<lambda>q.
     let commit_sz = (\<lambda>sz. kthen (kmodify (upd_proc c (\<lambda>p. p\<lparr>p_sz := sz\<rparr>))) (kthen (switchuvm (Some c)) (kreturn 0))) in
     if n > 0 then kbind (allocuvm (p_pgdir q) (p_sz q) (p_sz q + word_of_int n)) (\<lambda>sz.
       if sz = 0 then kreturn (-1) else commit_sz sz)
     else if n < 0 then kbind (deallocuvm (p_pgdir q) (p_sz q) (p_sz q + word_of_int n)) (\<lambda>sz.
       if sz = 0 then kreturn (-1) else commit_sz sz)
     else commit_sz (p_sz q)))"

definition fork_files :: "nat \<Rightarrow> nat \<Rightarrow> ('z kfile_scheme, unit) prog" where
  "fork_files c np = kfor [0..<NOFILE] (\<lambda>i. kbind (kget (\<lambda>s. p_ofile (ptable s c) i)) (\<lambda>f. case f of
     None \<Rightarrow> kreturn ()
   | Some g \<Rightarrow> kbind (filedup g) (\<lambda>h. kmodify (upd_proc np (\<lambda>p. p\<lparr>p_ofile := (p_ofile p)(i := Some h)\<rparr>)))))"

definition fork :: "('z kfile_scheme, int) prog" where
  "fork = with_curproc (\<lambda>c. kbind allocproc (\<lambda>r. case r of None \<Rightarrow> kreturn (-1) | Some np \<Rightarrow>
     kbind (kget (\<lambda>s. ptable s c)) (\<lambda>q. kbind (copyuvm (p_pgdir q) (p_sz q)) (\<lambda>d.
     kthen (kmodify (upd_proc np (\<lambda>p. p\<lparr>p_pgdir := d\<rparr>)))
     (if d = 0
      then kbind (kget (\<lambda>s. p_kstack (ptable s np))) (\<lambda>k. kthen (kfree k)
        (kthen (kmodify (upd_proc np (\<lambda>p. p\<lparr>p_kstack := 0, p_state := UNUSED\<rparr>))) (kreturn (-1))))
      else kthen (kmodify (upd_proc np (\<lambda>p. p\<lparr>p_sz := p_sz q, p_parent := Some c, p_tf := (p_tf q)\<lparr>tf_eax := 0\<rparr>\<rparr>)))
        (kthen (fork_files c np)
        (kbind (case p_cwd q of None \<Rightarrow> kfault ''idup'' | Some ip \<Rightarrow> idup ip) (\<lambda>cwd.
        kthen (kmodify (upd_proc np (\<lambda>p. p\<lparr>p_cwd := Some cwd\<rparr>)))
        (kthen (kmodify (upd_proc np (set_name (cstring (p_name q)))))
        (kbind (kget (\<lambda>s. p_pid (ptable s np))) (\<lambda>pid.
        kthen (kmodify (upd_proc np (\<lambda>p. p\<lparr>p_state := RUNNABLE\<rparr>))) (kreturn (sint pid)))))))))))))"

section \<open>Ending them\<close>

text \<open>sched(), up to the switch.\<close>

definition sched :: "('z kproc_scheme, unit) prog" where
  "sched = with_curproc (\<lambda>c. kbind (kget (\<lambda>s. p_state (ptable s c))) (\<lambda>st.
     if st = RUNNING then panic ''sched running'' else kreturn ()))"

definition yield :: "('z kproc_scheme, unit) prog" where
  "yield = with_curproc (\<lambda>c. kthen (kmodify (upd_proc c (\<lambda>p. p\<lparr>p_state := RUNNABLE\<rparr>))) sched)"

definition exit_files :: "nat \<Rightarrow> ('z kfile_scheme, unit) prog" where
  "exit_files c = kfor [0..<NOFILE] (\<lambda>fd. kbind (kget (\<lambda>s. p_ofile (ptable s c) fd)) (\<lambda>f. case f of
     None \<Rightarrow> kreturn ()
   | Some g \<Rightarrow> kthen (fileclose g) (kmodify (upd_proc c (\<lambda>p. p\<lparr>p_ofile := (p_ofile p)(fd := None)\<rparr>)))))"

text \<open>wakeup1() on a process pointer: nobody sleeps on the null pointer.\<close>

definition wakeup_proc :: "nat option \<Rightarrow> ('z kproc_scheme, unit) prog" where
  "wakeup_proc p = (case p of None \<Rightarrow> kreturn () | Some i \<Rightarrow> wakeup1 (ChanProc i))"

definition abandon_children :: "nat \<Rightarrow> ('z kproc_scheme, unit) prog" where
  "abandon_children c = kfor [0..<NPROC] (\<lambda>i. kbind (kget (\<lambda>s. ptable s i)) (\<lambda>p.
     kwhen (p_parent p = Some c) (kbind (kget initproc) (\<lambda>ini.
       kthen (kmodify (upd_proc i (\<lambda>q. q\<lparr>p_parent := ini\<rparr>))) (kwhen (p_state p = ZOMBIE) (wakeup_proc ini))))))"

text \<open>The part of exit() under ptable.lock.\<close>

definition exit_zombie :: "nat \<Rightarrow> ('z kproc_scheme, unit) prog" where
  "exit_zombie c = kbind (kget (\<lambda>s. p_parent (ptable s c))) (\<lambda>par. kthen (wakeup_proc par)
     (kthen (abandon_children c) (kmodify (upd_proc c (\<lambda>p. p\<lparr>p_state := ZOMBIE\<rparr>)))))"

definition exit :: "('z kfile_scheme, 'a) prog" where
  "exit = with_curproc (\<lambda>c. kbind (kget initproc) (\<lambda>ini.
     if ini = Some c then panic ''init exiting''
     else kthen (exit_files c)
       (kthen begin_op (kbind (kget (\<lambda>s. p_cwd (ptable s c))) (\<lambda>cwd. kthen (iput_opt cwd) (kthen end_op
       (kthen (kmodify (upd_proc c (\<lambda>p. p\<lparr>p_cwd := None\<rparr>)))
       (kthen (exit_zombie c) (kthen sched (\<lambda>s. Gone s))))))))))"

definition reap :: "nat \<Rightarrow> ('z kmm_scheme, int) prog" where
  "reap i = kbind (kget (\<lambda>s. ptable s i)) (\<lambda>p.
     kthen (kfree (p_kstack p)) (kthen (kmodify (upd_proc i (\<lambda>q. q\<lparr>p_kstack := 0\<rparr>)))
     (kthen (freevm (p_pgdir p))
     (kthen (kmodify (upd_proc i (\<lambda>q. q\<lparr>p_pid := 0, p_parent := None, p_name := (p_name q)[0 := 0],
        p_killed := False, p_state := UNUSED\<rparr>)))
     (kreturn (sint (p_pid p)))))))"

text \<open>
  One pass of the loop of wait(): the first child that is a zombie is reaped. A process that
  goes to sleep starts the next pass when it is woken.
\<close>

definition wait :: "('z kmm_scheme, int) prog" where
  "wait = with_curproc (\<lambda>c. kbind (kget ptable) (\<lambda>pt.
     case find (\<lambda>i. p_parent (pt i) = Some c \<and> p_state (pt i) = ZOMBIE) [0..<NPROC] of
       Some i \<Rightarrow> reap i
     | None \<Rightarrow>
         if \<not> list_ex (\<lambda>i. p_parent (pt i) = Some c) [0..<NPROC] \<or> p_killed (pt c) then kreturn (-1)
         else sleep (ChanProc c)))"

section \<open>Scheduling\<close>

definition sched_in :: "nat \<Rightarrow> ('z kmm_scheme, unit) prog" where
  "sched_in i = kthen (kmodify (\<lambda>s. s\<lparr>cpu_proc := Some i\<rparr>)) (kthen (switchuvm (Some i))
     (kmodify (upd_proc i (\<lambda>p. p\<lparr>p_state := RUNNING\<rparr>))))"

definition sched_out :: "('z kmm_scheme, unit) prog" where
  "sched_out = kthen switchkvm (kmodify (\<lambda>s. s\<lparr>cpu_proc := None\<rparr>))"

text \<open>
  One round of scheduler() over the table entries \<open>is\<close>; the result lists the processes that got
  the CPU. \<open>run i\<close> is what process \<open>i\<close> does, and other CPUs do, until it switches back.
\<close>

primrec sched_round :: "(nat \<Rightarrow> ('z kmm_scheme, unit) prog) \<Rightarrow> nat list \<Rightarrow> ('z kmm_scheme, nat list) prog" where
  "sched_round run [] = kreturn []"
| "sched_round run (i # is) = kbind (kget (\<lambda>s. p_state (ptable s i))) (\<lambda>st.
     if st \<noteq> RUNNABLE then sched_round run is
     else kthen (sched_in i) (kthen (run i) (kthen sched_out
       (kbind (sched_round run is) (\<lambda>js. kreturn (i # js))))))"

definition scheduler_round :: "(nat \<Rightarrow> ('z kmm_scheme, unit) prog) \<Rightarrow> ('z kmm_scheme, nat list) prog" where
  "scheduler_round run = sched_round run [0..<NPROC]"

definition forkret :: "('z ksys_scheme, unit) prog" where
  "forkret = kbind (kget forkret_first) (\<lambda>first. kwhen first
     (kthen (kmodify (\<lambda>s. s\<lparr>forkret_first := False\<rparr>)) (kthen (iinit ROOTDEV) (initlog ROOTDEV))))"

section \<open>The process listing\<close>

definition state_name :: "procstate \<Rightarrow> byte list" where
  "state_name st = (case st of
     UNUSED \<Rightarrow> [0x75, 0x6E, 0x75, 0x73, 0x65, 0x64] | EMBRYO \<Rightarrow> [0x65, 0x6D, 0x62, 0x72, 0x79, 0x6F]
   | SLEEPING \<Rightarrow> [0x73, 0x6C, 0x65, 0x65, 0x70, 0x20] | RUNNABLE \<Rightarrow> [0x72, 0x75, 0x6E, 0x62, 0x6C, 0x65]
   | RUNNING \<Rightarrow> [0x72, 0x75, 0x6E, 0x20, 0x20, 0x20] | ZOMBIE \<Rightarrow> [0x7A, 0x6F, 0x6D, 0x62, 0x69, 0x65])"

definition procdump_line :: "mem \<Rightarrow> proc \<Rightarrow> byte list" where
  "procdump_line m p = (if p_state p = UNUSED then []
     else printint (sint (p_pid p)) 10 True @ [0x20] @ state_name (p_state p) @ [0x20] @ takeWhile (\<lambda>c. c \<noteq> 0) (p_name p)
       @ (if p_state p = SLEEPING
          then concat (map (\<lambda>pc. 0x20 # printint (sint pc) 16 False)
            (takeWhile (\<lambda>pc. pc \<noteq> 0) (getcallerpcs (rd32 m) (ctx_ebp (p_context p) + 8))))
          else []) @ [0x0A])"

definition procdump :: "('z kcons_scheme, unit) prog" where
  "procdump = kfor [0..<NPROC] (\<lambda>i. kbind (kget (\<lambda>s. procdump_line (mem s) (ptable s i))) (\<lambda>bs.
     kfor bs (\<lambda>b. consputc (unat b))))"

end
