(* ===== verification/Syscall.thy ===== *)
theory Syscall
  imports Proc
begin

text \<open>
  The argument fetching of syscall.c. The kernel reads and writes user memory through the page
  table in cr3, as the MMU does; an address without a present page is a page fault in the kernel.
  A string argument is its characters without the NUL.
\<close>

section \<open>User memory\<close>

definition translate :: "mem \<Rightarrow> addr \<Rightarrow> addr \<Rightarrow> addr option" where
  "translate m pgdir va = (let e = rd32 m (pgdir + 4 * PDX va) in
     if e AND PTE_P = 0 then None
     else let t = rd32 m (P2V (PTE_ADDR e) + 4 * PTX va) in
       if t AND PTE_P = 0 then None else Some (P2V (PTE_ADDR t) + (va AND 0xFFF)))"

definition user_load :: "addr \<Rightarrow> ('z kmm_scheme, byte) prog" where
  "user_load va = kbind (kget (\<lambda>s. translate (mem s) (P2V (cr3 s)) va)) (\<lambda>r. case r of
     None \<Rightarrow> kfault ''page fault'' | Some a \<Rightarrow> kget (\<lambda>s. mem s a))"

primrec user_bytes :: "addr \<Rightarrow> nat \<Rightarrow> ('z kmm_scheme, byte list) prog" where
  "user_bytes va 0 = kreturn []"
| "user_bytes va (Suc n) = kbind (user_load va) (\<lambda>b. kbind (user_bytes (va + 1) n) (\<lambda>bs. kreturn (b # bs)))"

primrec user_store :: "addr \<Rightarrow> byte list \<Rightarrow> ('z kmm_scheme, unit) prog" where
  "user_store va [] = kreturn ()"
| "user_store va (b # bs) = kthen (kbind (kget (\<lambda>s. translate (mem s) (P2V (cr3 s)) va)) (\<lambda>r. case r of
     None \<Rightarrow> kfault ''page fault'' | Some a \<Rightarrow> kmodify (\<lambda>s. s\<lparr>mem := (mem s)(a := b)\<rparr>))) (user_store (va + 1) bs)"

definition le16 :: "ushort \<Rightarrow> byte list" where
  "le16 w = [ucast w, ucast (drop_bit 8 w)]"

definition le32 :: "uint \<Rightarrow> byte list" where
  "le32 w = [ucast w, ucast (drop_bit 8 w), ucast (drop_bit 16 w), ucast (drop_bit 24 w)]"

section \<open>Arguments\<close>

definition cur_sz :: "('z kproc_scheme, uint) prog" where
  "cur_sz = with_curproc (\<lambda>c. kget (\<lambda>s. p_sz (ptable s c)))"

definition fetchint :: "addr \<Rightarrow> ('z kmm_scheme, uint option) prog" where
  "fetchint a = kbind cur_sz (\<lambda>sz.
     if a \<ge> sz \<or> a + 4 > sz then kreturn None
     else kbind (user_bytes a 4) (\<lambda>bs. kreturn (Some (get32 bs 0))))"

text \<open>The loop of fetchstr() over the addresses below the end \<open>ep\<close>.\<close>

function fetchstr_loop :: "addr \<Rightarrow> addr \<Rightarrow> ('z kmm_scheme, byte list option) prog" where
  "fetchstr_loop s ep = (if s < ep
     then kbind (user_load s) (\<lambda>b. if b = 0 then kreturn (Some [])
       else kbind (fetchstr_loop (s + 1) ep) (\<lambda>r. kreturn (map_option ((#) b) r)))
     else kreturn None)"
  by pat_completeness auto
termination
proof (relation "measure (\<lambda>(s, ep). unat ep - unat s)")
  fix s ep :: addr assume "s < ep"
  then have "unat (s + 1) = unat s + 1" "unat s < unat ep"
    using unat_bound [of ep] by (auto simp: word_less_nat_alt unat_plus_if')
  then show "((s + 1, ep), s, ep) \<in> measure (\<lambda>(s, ep). unat ep - unat s)" by simp
qed simp

declare fetchstr_loop.simps [simp del]

definition fetchstr :: "addr \<Rightarrow> ('z kmm_scheme, byte list option) prog" where
  "fetchstr a = kbind cur_sz (\<lambda>sz. if a \<ge> sz then kreturn None else fetchstr_loop a sz)"

definition argint :: "uint \<Rightarrow> ('z kmm_scheme, uint option) prog" where
  "argint n = with_curproc (\<lambda>c. kbind (kget (\<lambda>s. tf_esp (p_tf (ptable s c)))) (\<lambda>esp. fetchint (esp + 4 + 4 * n)))"

definition argptr :: "uint \<Rightarrow> int \<Rightarrow> ('z kmm_scheme, addr option) prog" where
  "argptr n len = kbind (argint n) (\<lambda>r. case r of None \<Rightarrow> kreturn None
   | Some i \<Rightarrow> kbind cur_sz (\<lambda>sz.
       if len < 0 \<or> i \<ge> sz \<or> i + word_of_int len > sz then kreturn None else kreturn (Some i)))"

definition argstr :: "uint \<Rightarrow> ('z kmm_scheme, byte list option) prog" where
  "argstr n = kbind (argint n) (\<lambda>r. case r of None \<Rightarrow> kreturn None | Some a \<Rightarrow> fetchstr a)"

end
