(* ===== verification/Exec.thy ===== *)
theory Exec
  imports Syscall
begin

text \<open>
  exec.c with the ELF headers of elf.h. The path and the arguments are their characters; the
  goto to the label bad is the call of \<open>exec_bad\<close> with the page directory and the inode
  that are to be released.
\<close>

section \<open>ELF\<close>

definition ELF_MAGIC :: uint where "ELF_MAGIC = 0x464C457F"
definition ELF_PROG_LOAD :: uint where "ELF_PROG_LOAD = 1"
definition MAXARG :: nat where "MAXARG = 32"

text \<open>The fields of the two headers that exec() reads.\<close>

record elfhdr =
  e_magic :: uint
  e_entry :: uint
  e_phoff :: uint
  e_phnum :: ushort

record proghdr =
  ph_type :: uint
  ph_off :: uint
  ph_vaddr :: uint
  ph_filesz :: uint
  ph_memsz :: uint

definition get_elfhdr :: "byte list \<Rightarrow> elfhdr" where
  "get_elfhdr bs = \<lparr>e_magic = get32 bs 0, e_entry = get32 bs 24, e_phoff = get32 bs 28, e_phnum = get16 bs 44\<rparr>"

definition get_proghdr :: "byte list \<Rightarrow> proghdr" where
  "get_proghdr bs = \<lparr>ph_type = get32 bs 0, ph_off = get32 bs 4, ph_vaddr = get32 bs 8, ph_filesz = get32 bs 16,
     ph_memsz = get32 bs 20\<rparr>"

section \<open>exec()\<close>

definition cputs :: "byte list \<Rightarrow> ('z kcons_scheme, unit) prog" where
  "cputs bs = kfor bs (\<lambda>b. consputc (unat b))"

definition ascii :: "string \<Rightarrow> byte list" where
  "ascii str = map of_char str"

definition exec_bad :: "addr \<Rightarrow> nat option \<Rightarrow> ('z kcons_scheme, int) prog" where
  "exec_bad pgdir ip = kthen (kwhen (pgdir \<noteq> 0) (freevm pgdir))
     (kthen (case ip of None \<Rightarrow> kreturn () | Some i \<Rightarrow> kthen (iunlockput i) end_op) (kreturn (-1)))"

text \<open>
  The loop over the program headers with \<open>n\<close> of them left. The result is the size of the image,
  or \<open>None\<close> for the goto to bad.
\<close>

primrec exec_load :: "nat \<Rightarrow> addr \<Rightarrow> nat \<Rightarrow> uint \<Rightarrow> uint \<Rightarrow> ('z kcons_scheme, uint option) prog" where
  "exec_load ip pgdir 0 off sz = kreturn (Some sz)"
| "exec_load ip pgdir (Suc n) off sz = kbind (readi devsw_read ip off 32) (\<lambda>(r, bs).
     if r \<noteq> 32 then kreturn None else let ph = get_proghdr bs in
     if ph_type ph \<noteq> ELF_PROG_LOAD then exec_load ip pgdir n (off + 32) sz
     else if ph_memsz ph < ph_filesz ph then kreturn None
     else if ph_vaddr ph + ph_memsz ph < ph_vaddr ph then kreturn None
     else kbind (allocuvm pgdir sz (ph_vaddr ph + ph_memsz ph)) (\<lambda>sz'.
       if sz' = 0 then kreturn None
       else if ph_vaddr ph mod PGSIZE \<noteq> 0 then kreturn None
       else kbind (loaduvm devsw_read pgdir (ph_vaddr ph) ip (ph_off ph) (ph_filesz ph)) (\<lambda>l.
         if l < 0 then kreturn None else exec_load ip pgdir n (off + 32) sz')))"

text \<open>Pushing the argument strings: the stack pointer and the addresses of the strings.\<close>

primrec exec_args :: "addr \<Rightarrow> byte list list \<Rightarrow> nat \<Rightarrow> addr \<Rightarrow> uint list \<Rightarrow> ('z kmm_scheme, (addr \<times> uint list) option) prog" where
  "exec_args pgdir [] argc sp us = kreturn (Some (sp, us))"
| "exec_args pgdir (a # as) argc sp us =
     (if argc \<ge> MAXARG then kreturn None
      else let sp' = (sp - of_nat (length a + 1)) AND NOT 3 in
        kbind (copyout pgdir sp' (a @ [0])) (\<lambda>r.
        if r < 0 then kreturn None else exec_args pgdir as (Suc argc) sp' (us @ [sp'])))"

definition exec_ustack :: "addr \<Rightarrow> uint list \<Rightarrow> uint list" where
  "exec_ustack sp us = [0xffffffff, of_nat (length us), sp - (of_nat (length us) + 1) * 4] @ us @ [0]"

definition last_elem :: "byte list \<Rightarrow> byte list" where
  "last_elem path = rev (takeWhile (\<lambda>c. c \<noteq> SLASH) (rev path))"

definition exec_commit :: "addr \<Rightarrow> uint \<Rightarrow> uint \<Rightarrow> addr \<Rightarrow> ('z kmm_scheme, int) prog" where
  "exec_commit pgdir sz entry sp = with_curproc (\<lambda>c. kbind (kget (\<lambda>s. p_pgdir (ptable s c))) (\<lambda>oldpgdir.
     kthen (kmodify (upd_proc c (\<lambda>p. p\<lparr>p_pgdir := pgdir, p_sz := sz, p_tf := (p_tf p)\<lparr>tf_eip := entry, tf_esp := sp\<rparr>\<rparr>)))
     (kthen (switchuvm (Some c)) (kthen (freevm oldpgdir) (kreturn 0)))))"

text \<open>From the user stack on; the inode has been released.\<close>

definition exec_stack :: "byte list \<Rightarrow> byte list list \<Rightarrow> addr \<Rightarrow> uint \<Rightarrow> uint \<Rightarrow> ('z kcons_scheme, int) prog" where
  "exec_stack path argv pgdir entry sz0 = (let base = PGROUNDUP sz0 in
     kbind (allocuvm pgdir base (base + 2 * PGSIZE)) (\<lambda>sz.
     if sz = 0 then exec_bad pgdir None
     else kthen (clearpteu pgdir (sz - 2 * PGSIZE))
       (kbind (exec_args pgdir argv 0 sz []) (\<lambda>r. case r of None \<Rightarrow> exec_bad pgdir None
        | Some (sp, us) \<Rightarrow> let sp' = sp - (3 + of_nat (length us) + 1) * 4 in
          kbind (copyout pgdir sp' (concat (map le32 (exec_ustack sp us)))) (\<lambda>r.
          if r < 0 then exec_bad pgdir None
          else kthen (with_curproc (\<lambda>c. kmodify (upd_proc c (set_name (cstring (last_elem path))))))
            (exec_commit pgdir sz entry sp'))))))"

definition exec :: "byte list \<Rightarrow> byte list list \<Rightarrow> ('z kcons_scheme, int) prog" where
  "exec path argv = kthen begin_op (kbind (namei path) (\<lambda>r. case r of
     None \<Rightarrow> kthen end_op (kthen (cputs (ascii ''exec: fail'' @ [0x0A])) (kreturn (-1)))
   | Some ip \<Rightarrow> kthen (ilock (Some ip)) (kbind (readi devsw_read ip 0 52) (\<lambda>(r, bs).
     if r \<noteq> 52 then exec_bad 0 (Some ip) else let elf = get_elfhdr bs in
     if e_magic elf \<noteq> ELF_MAGIC then exec_bad 0 (Some ip)
     else kbind setupkvm (\<lambda>pgdir. if pgdir = 0 then exec_bad 0 (Some ip)
       else kbind (exec_load ip pgdir (unat (e_phnum elf)) (e_phoff elf) 0) (\<lambda>r. case r of
         None \<Rightarrow> exec_bad pgdir (Some ip)
       | Some sz \<Rightarrow> kthen (iunlockput ip) (kthen end_op (exec_stack path argv pgdir (e_entry elf) sz))))))))"

end
