(* ===== verification/Sysfile.thy ===== *)
theory Sysfile
  imports Exec
begin

text \<open>
  The file system calls of sysfile.c. A path is its characters. Data moves between user memory
  and the open-file layer as byte lists: what fileread() returns is stored at the checked user
  address, and filewrite() gets the bytes found there.
\<close>

section \<open>File descriptors\<close>

definition argfd :: "uint \<Rightarrow> ('z kmm_scheme, (nat \<times> nat) option) prog" where
  "argfd n = kbind (argint n) (\<lambda>r. case r of None \<Rightarrow> kreturn None
   | Some w \<Rightarrow> let fd = sint w in
       if fd < 0 \<or> fd \<ge> int NOFILE then kreturn None
       else with_curproc (\<lambda>c. kbind (kget (\<lambda>s. p_ofile (ptable s c) (nat fd))) (\<lambda>f. case f of
         None \<Rightarrow> kreturn None | Some f \<Rightarrow> kreturn (Some (nat fd, f)))))"

definition fdalloc :: "nat \<Rightarrow> ('z kproc_scheme, nat option) prog" where
  "fdalloc f = with_curproc (\<lambda>c. kbind (kget (\<lambda>s. find (\<lambda>fd. p_ofile (ptable s c) fd = None) [0..<NOFILE])) (\<lambda>r. case r of
     None \<Rightarrow> kreturn None
   | Some fd \<Rightarrow> kthen (kmodify (upd_proc c (\<lambda>p. p\<lparr>p_ofile := (p_ofile p)(fd := Some f)\<rparr>))) (kreturn (Some fd))))"

definition clear_fd :: "nat \<Rightarrow> ('z kproc_scheme, unit) prog" where
  "clear_fd fd = with_curproc (\<lambda>c. kmodify (upd_proc c (\<lambda>p. p\<lparr>p_ofile := (p_ofile p)(fd := None)\<rparr>)))"

text \<open>\<open>need m f\<close>: the common early return of -1 when fetching an argument failed.\<close>

definition need :: "('s, 'a option) prog \<Rightarrow> ('a \<Rightarrow> ('s, int) prog) \<Rightarrow> ('s, int) prog" where
  "need m f = kbind m (\<lambda>r. case r of None \<Rightarrow> kreturn (-1) | Some x \<Rightarrow> f x)"

lemma wp_need: "wp (need m f) Q = wp m (\<lambda>r. case r of None \<Rightarrow> Q (-1) | Some x \<Rightarrow> wp (f x) Q)"
  by (auto simp: need_def wp_seq fun_eq_iff intro!: arg_cong [where f = "\<lambda>R. wp m R _"] split: option.split)

definition sys_dup :: "('z kfile_scheme, int) prog" where
  "sys_dup = need (argfd 0) (\<lambda>(_, f). need (fdalloc f) (\<lambda>fd.
     kbind (filedup f) (\<lambda>_. kreturn (int fd))))"

definition sys_read :: "('z kcons_scheme, int) prog" where
  "sys_read = need (argfd 0) (\<lambda>(_, f). need (argint 2) (\<lambda>n. need (argptr 1 (sint n)) (\<lambda>p.
     kbind (fileread devsw_read f (sint n)) (\<lambda>(r, bs). kthen (user_store p bs) (kreturn r)))))"

definition sys_write :: "('z kcons_scheme, int) prog" where
  "sys_write = need (argfd 0) (\<lambda>(_, f). need (argint 2) (\<lambda>n. need (argptr 1 (sint n)) (\<lambda>p.
     kbind (user_bytes p (nat (sint n))) (\<lambda>bs. filewrite devsw_write f bs (sint n)))))"

definition sys_close :: "('z kfile_scheme, int) prog" where
  "sys_close = need (argfd 0) (\<lambda>(fd, f). kthen (clear_fd fd) (kthen (fileclose f) (kreturn 0)))"

text \<open>struct stat takes 20 bytes; the two bytes after each short are padding.\<close>

definition store_stat :: "addr \<Rightarrow> stat \<Rightarrow> ('z kmm_scheme, unit) prog" where
  "store_stat p st = kthen (user_store p (le16 (st_type st)))
     (kthen (user_store (p + 4) (le32 (st_dev st) @ le32 (st_ino st) @ le16 (st_nlink st)))
     (user_store (p + 16) (le32 (st_size st))))"

definition sys_fstat :: "('z kfile_scheme, int) prog" where
  "sys_fstat = need (argfd 0) (\<lambda>(_, f). need (argptr 1 20) (\<lambda>p.
     need (filestat f) (\<lambda>st. kthen (store_stat p st) (kreturn 0))))"

section \<open>Links\<close>

definition fail_op :: "('z klog_scheme, int) prog" where
  "fail_op = kthen end_op (kreturn (-1))"

definition add_nlink :: "nat \<Rightarrow> ushort \<Rightarrow> ('z kfs_scheme, unit) prog" where
  "add_nlink ip d = kthen (kmodify (upd_inode ip (\<lambda>x. x\<lparr>i_nlink := i_nlink x + d\<rparr>))) (iupdate ip)"

definition sys_link_bad :: "nat \<Rightarrow> ('z kfs_scheme, int) prog" where
  "sys_link_bad ip = kthen (ilock (Some ip)) (kthen (add_nlink ip (-1)) (kthen (iunlockput ip) fail_op))"

definition link_paths :: "byte list \<Rightarrow> byte list \<Rightarrow> ('z kfs_scheme, int) prog" where
  "link_paths old new = kthen begin_op (kbind (namei old) (\<lambda>r. case r of None \<Rightarrow> fail_op
   | Some ip \<Rightarrow> kthen (ilock (Some ip)) (kbind (kget (\<lambda>s. i_type (inodes s ip))) (\<lambda>ty.
     if ty = T_DIR then kthen (iunlockput ip) fail_op
     else kthen (add_nlink ip 1) (kthen (iunlock (Some ip)) (kbind (nameiparent new) (\<lambda>r. case r of
       None \<Rightarrow> sys_link_bad ip
     | Some (dp, name) \<Rightarrow> kthen (ilock (Some dp)) (kbind (kget (\<lambda>s. (inodes s dp, inodes s ip))) (\<lambda>(d, i).
         if i_dev d \<noteq> i_dev i then kthen (iunlockput dp) (sys_link_bad ip)
         else kbind (dirlink dp name (i_inum i)) (\<lambda>l.
           if l < 0 then kthen (iunlockput dp) (sys_link_bad ip)
           else kthen (iunlockput dp) (kthen (iput ip) (kthen end_op (kreturn 0)))))))))))))"

definition sys_link :: "('z kmm_scheme, int) prog" where
  "sys_link = need (argstr 0) (\<lambda>old. need (argstr 1) (\<lambda>new. link_paths old new))"

primrec isdirempty_loop :: "nat \<Rightarrow> nat list \<Rightarrow> ('z kfs_scheme, bool) prog" where
  "isdirempty_loop dp [] = kreturn True"
| "isdirempty_loop dp (off # offs) = kbind (readi (\<lambda>_. None) dp (of_nat off) 16) (\<lambda>(n, de).
     if n \<noteq> 16 then panic ''isdirempty: readi''
     else if de_inum de \<noteq> 0 then kreturn False else isdirempty_loop dp offs)"

definition isdirempty :: "nat \<Rightarrow> ('z kfs_scheme, bool) prog" where
  "isdirempty dp = kbind (kget (\<lambda>s. i_size (inodes s dp))) (\<lambda>sz. isdirempty_loop dp (drop 2 (dirent_offs sz)))"

definition DOT_NAME :: "byte list" where "DOT_NAME = [0x2E]"
definition DOTDOT_NAME :: "byte list" where "DOTDOT_NAME = [0x2E, 0x2E]"

text \<open>sys_unlink() from the point where both inodes are locked and the entry may go.\<close>

definition unlink_entry :: "nat \<Rightarrow> nat \<Rightarrow> nat \<Rightarrow> ('z kfs_scheme, int) prog" where
  "unlink_entry dp ip off = kbind (writei (\<lambda>_. None) dp (replicate 16 0) (of_nat off) 16) (\<lambda>n.
     if n \<noteq> 16 then panic ''unlink: writei''
     else kbind (kget (\<lambda>s. i_type (inodes s ip))) (\<lambda>ty. kthen (kwhen (ty = T_DIR) (add_nlink dp (-1)))
       (kthen (iunlockput dp) (kthen (add_nlink ip (-1)) (kthen (iunlockput ip) (kthen end_op (kreturn 0)))))))"

definition unlink_path :: "byte list \<Rightarrow> ('z kfs_scheme, int) prog" where
  "unlink_path path = kthen begin_op (kbind (nameiparent path) (\<lambda>r. case r of None \<Rightarrow> fail_op
   | Some (dp, name) \<Rightarrow> kthen (ilock (Some dp)) (let bad = kthen (iunlockput dp) fail_op in
     if namecmp (cstring name) (cstring DOT_NAME) = 0 \<or> namecmp (cstring name) (cstring DOTDOT_NAME) = 0 then bad
     else kbind (dirlookup dp name) (\<lambda>r. case r of None \<Rightarrow> bad
     | Some (ip, off) \<Rightarrow> kthen (ilock (Some ip)) (kbind (kget (\<lambda>s. inodes s ip)) (\<lambda>x.
         if sint (i_nlink x) < 1 then panic ''unlink: nlink < 1''
         else kbind (if i_type x = T_DIR then isdirempty ip else kreturn True) (\<lambda>empty.
           if \<not> empty then kthen (iunlockput ip) bad else unlink_entry dp ip off)))))))"

definition sys_unlink :: "('z kmm_scheme, int) prog" where
  "sys_unlink = need (argstr 0) unlink_path"

section \<open>Creating and opening\<close>

text \<open>A new inode for \<open>name\<close> in the locked directory \<open>dp\<close>.\<close>

definition create_new :: "nat \<Rightarrow> byte list \<Rightarrow> ushort \<Rightarrow> ushort \<Rightarrow> ushort \<Rightarrow> ('z kfs_scheme, nat option) prog" where
  "create_new dp name type major minor = kbind (kget (\<lambda>s. i_dev (inodes s dp))) (\<lambda>dev. kbind (ialloc dev type) (\<lambda>ip.
     kthen (ilock (Some ip))
     (kthen (kmodify (upd_inode ip (\<lambda>x. x\<lparr>i_major := major, i_minor := minor, i_nlink := 1\<rparr>)))
     (kthen (iupdate ip)
     (kbind (kget (\<lambda>s. (i_inum (inodes s ip), i_inum (inodes s dp)))) (\<lambda>(inum, dnum).
     kthen (kwhen (type = T_DIR) (kthen (add_nlink dp 1)
       (kbind (dirlink ip DOT_NAME inum) (\<lambda>r. if r < 0 then panic ''create dots''
        else kbind (dirlink ip DOTDOT_NAME dnum) (\<lambda>r. if r < 0 then panic ''create dots'' else kreturn ())))))
     (kbind (dirlink dp name inum) (\<lambda>r. if r < 0 then panic ''create: dirlink''
      else kthen (iunlockput dp) (kreturn (Some ip))))))))))"

definition create :: "byte list \<Rightarrow> ushort \<Rightarrow> ushort \<Rightarrow> ushort \<Rightarrow> ('z kfs_scheme, nat option) prog" where
  "create path type major minor = kbind (nameiparent path) (\<lambda>r. case r of None \<Rightarrow> kreturn None
   | Some (dp, name) \<Rightarrow> kthen (ilock (Some dp)) (kbind (dirlookup dp name) (\<lambda>r. case r of
       Some (ip, _) \<Rightarrow> kthen (iunlockput dp) (kthen (ilock (Some ip)) (kbind (kget (\<lambda>s. i_type (inodes s ip))) (\<lambda>ty.
         if type = T_FILE \<and> ty = T_FILE then kreturn (Some ip) else kthen (iunlockput ip) (kreturn None))))
     | None \<Rightarrow> create_new dp name type major minor)))"

definition O_RDONLY :: uint where "O_RDONLY = 0"
definition O_WRONLY :: uint where "O_WRONLY = 1"
definition O_RDWR :: uint where "O_RDWR = 2"
definition O_CREATE :: uint where "O_CREATE = 0x200"

text \<open>The locked inode that sys_open() opens.\<close>

definition open_inode :: "byte list \<Rightarrow> uint \<Rightarrow> ('z kfs_scheme, nat option) prog" where
  "open_inode path omode = (if omode AND O_CREATE \<noteq> 0 then create path T_FILE 0 0
     else kbind (namei path) (\<lambda>r. case r of None \<Rightarrow> kreturn None
     | Some ip \<Rightarrow> kthen (ilock (Some ip)) (kbind (kget (\<lambda>s. i_type (inodes s ip))) (\<lambda>ty.
         if ty = T_DIR \<and> omode \<noteq> O_RDONLY then kthen (iunlockput ip) (kreturn None) else kreturn (Some ip)))))"

definition open_file :: "nat \<Rightarrow> uint \<Rightarrow> struct_file \<Rightarrow> struct_file" where
  "open_file ip omode f = f\<lparr>f_type := FD_INODE, f_ip := Some ip, f_off := 0, f_readable := (omode AND O_WRONLY = 0),
     f_writable := (omode AND O_WRONLY \<noteq> 0 \<or> omode AND O_RDWR \<noteq> 0)\<rparr>"

definition open_path :: "byte list \<Rightarrow> uint \<Rightarrow> ('z kfile_scheme, int) prog" where
  "open_path path omode = kthen begin_op (kbind (open_inode path omode) (\<lambda>r. case r of None \<Rightarrow> fail_op
   | Some ip \<Rightarrow> kbind filealloc (\<lambda>r. case r of None \<Rightarrow> kthen (iunlockput ip) fail_op
     | Some f \<Rightarrow> kbind (fdalloc f) (\<lambda>r. case r of
         None \<Rightarrow> kthen (fileclose f) (kthen (iunlockput ip) fail_op)
       | Some fd \<Rightarrow> kthen (iunlock (Some ip)) (kthen end_op
           (kthen (kmodify (upd_file f (open_file ip omode))) (kreturn (int fd))))))))"

definition sys_open :: "('z kfile_scheme, int) prog" where
  "sys_open = need (argstr 0) (\<lambda>path. need (argint 1) (\<lambda>omode. open_path path omode))"

definition done_op :: "nat \<Rightarrow> ('z kfs_scheme, int) prog" where
  "done_op ip = kthen (iunlockput ip) (kthen end_op (kreturn 0))"

definition sys_mkdir :: "('z kmm_scheme, int) prog" where
  "sys_mkdir = kthen begin_op (kbind (argstr 0) (\<lambda>r. case r of None \<Rightarrow> fail_op
   | Some path \<Rightarrow> kbind (create path T_DIR 0 0) (\<lambda>r. case r of None \<Rightarrow> fail_op | Some ip \<Rightarrow> done_op ip)))"

definition sys_mknod :: "('z kmm_scheme, int) prog" where
  "sys_mknod = kthen begin_op (kbind (argstr 0) (\<lambda>r. case r of None \<Rightarrow> fail_op
   | Some path \<Rightarrow> kbind (argint 1) (\<lambda>r. case r of None \<Rightarrow> fail_op
   | Some major \<Rightarrow> kbind (argint 2) (\<lambda>r. case r of None \<Rightarrow> fail_op
   | Some minor \<Rightarrow> kbind (create path T_DEV (ucast major) (ucast minor)) (\<lambda>r. case r of
       None \<Rightarrow> fail_op | Some ip \<Rightarrow> done_op ip)))))"

definition sys_chdir :: "('z kmm_scheme, int) prog" where
  "sys_chdir = with_curproc (\<lambda>c. kthen begin_op (kbind (argstr 0) (\<lambda>r. case r of None \<Rightarrow> fail_op
   | Some path \<Rightarrow> kbind (namei path) (\<lambda>r. case r of None \<Rightarrow> fail_op
   | Some ip \<Rightarrow> kthen (ilock (Some ip)) (kbind (kget (\<lambda>s. i_type (inodes s ip))) (\<lambda>ty.
       if ty \<noteq> T_DIR then kthen (iunlockput ip) fail_op
       else kthen (iunlock (Some ip)) (kbind (kget (\<lambda>s. p_cwd (ptable s c))) (\<lambda>cwd.
         kthen (case cwd of None \<Rightarrow> kfault ''iput'' | Some d \<Rightarrow> iput d) (kthen end_op
         (kthen (kmodify (upd_proc c (\<lambda>p. p\<lparr>p_cwd := Some ip\<rparr>))) (kreturn 0)))))))))))"

section \<open>exec and pipe\<close>

text \<open>The argument vector: \<open>n\<close> is the number of entries argv[] still has room for.\<close>

primrec fetch_argv :: "nat \<Rightarrow> addr \<Rightarrow> ('z kmm_scheme, byte list list option) prog" where
  "fetch_argv 0 a = kreturn None"
| "fetch_argv (Suc n) a = kbind (fetchint a) (\<lambda>r. case r of None \<Rightarrow> kreturn None
   | Some uarg \<Rightarrow> if uarg = 0 then kreturn (Some [])
       else kbind (fetchstr uarg) (\<lambda>r. case r of None \<Rightarrow> kreturn None
       | Some arg \<Rightarrow> kbind (fetch_argv n (a + 4)) (\<lambda>r. kreturn (map_option ((#) arg) r))))"

definition sys_exec :: "('z kcons_scheme, int) prog" where
  "sys_exec = need (argstr 0) (\<lambda>path. need (argint 1) (\<lambda>uargv. need (fetch_argv MAXARG uargv) (\<lambda>argv. exec path argv)))"

definition sys_pipe :: "('z kfile_scheme, int) prog" where
  "sys_pipe = need (argptr 0 8) (\<lambda>p. need pipealloc (\<lambda>(rf, wf).
     let fail = kthen (fileclose rf) (kthen (fileclose wf) (kreturn (-1))) in
     kbind (fdalloc rf) (\<lambda>r. case r of None \<Rightarrow> fail
     | Some fd0 \<Rightarrow> kbind (fdalloc wf) (\<lambda>r. case r of None \<Rightarrow> kthen (clear_fd fd0) fail
       | Some fd1 \<Rightarrow> kthen (user_store p (le32 (of_nat fd0))) (kthen (user_store (p + 4) (le32 (of_nat fd1))) (kreturn 0))))))"

end
