(* ===== verification/Kbd.thy ===== *)
theory Kbd
  imports Exec
begin

text \<open>
  kbd.c with the tables of kbd.h, and the interrupt side of uart.c: turning what the keyboard
  controller and the serial port deliver into characters for consoleintr(). The bytes read from
  the data ports until the status port reports none are an argument.
\<close>

section \<open>Tables\<close>

definition SHIFT :: uint where "SHIFT = 1"
definition CTL :: uint where "CTL = 2"
definition ALT :: uint where "ALT = 4"
definition CAPSLOCK :: uint where "CAPSLOCK = 8"
definition NUMLOCK :: uint where "NUMLOCK = 16"
definition SCROLLLOCK :: uint where "SCROLLLOCK = 32"
definition E0ESC :: uint where "E0ESC = 64"

text \<open>An array of 256 bytes with its first entries and the designated ones; the rest is 0.\<close>

definition kbd_table :: "byte list \<Rightarrow> (nat \<times> byte) list \<Rightarrow> byte list" where
  "kbd_table xs ys = fold (\<lambda>(i, c) t. t[i := c]) ys (xs @ replicate (256 - length xs) 0)"

definition shiftcode :: "byte list" where
  "shiftcode = kbd_table [] [(0x1D, ucast CTL), (0x2A, ucast SHIFT), (0x36, ucast SHIFT), (0x38, ucast ALT),
     (0x9D, ucast CTL), (0xB8, ucast ALT)]"

definition togglecode :: "byte list" where
  "togglecode = kbd_table [] [(0x3A, ucast CAPSLOCK), (0x45, ucast NUMLOCK), (0x46, ucast SCROLLLOCK)]"

definition normalmap :: "byte list" where
  "normalmap = kbd_table [
     0x0, 0x1B, 0x31, 0x32, 0x33, 0x34, 0x35, 0x36, 0x37, 0x38, 0x39, 0x30, 0x2D, 0x3D, 0x8, 0x9,
     0x71, 0x77, 0x65, 0x72, 0x74, 0x79, 0x75, 0x69, 0x6F, 0x70, 0x5B, 0x5D, 0xA, 0x0, 0x61, 0x73,
     0x64, 0x66, 0x67, 0x68, 0x6A, 0x6B, 0x6C, 0x3B, 0x27, 0x60, 0x0, 0x5C, 0x7A, 0x78, 0x63, 0x76,
     0x62, 0x6E, 0x6D, 0x2C, 0x2E, 0x2F, 0x0, 0x2A, 0x0, 0x20, 0x0, 0x0, 0x0, 0x0, 0x0, 0x0,
     0x0, 0x0, 0x0, 0x0, 0x0, 0x0, 0x0, 0x37, 0x38, 0x39, 0x2D, 0x34, 0x35, 0x36, 0x2B, 0x31,
     0x32, 0x33, 0x30, 0x2E, 0x0, 0x0, 0x0, 0x0]
     [(0x9C, 0xA), (0xB5, 0x2F), (0xC8, 0xE2), (0xD0, 0xE3),
      (0xC9, 0xE6), (0xD1, 0xE7), (0xCB, 0xE4), (0xCD, 0xE5), (0x97, 0xE0), (0xCF, 0xE1), (0xD2, 0xE8), (0xD3, 0xE9)]"

definition shiftmap :: "byte list" where
  "shiftmap = kbd_table [
     0x0, 0x1B, 0x21, 0x40, 0x23, 0x24, 0x25, 0x5E, 0x26, 0x2A, 0x28, 0x29, 0x5F, 0x2B, 0x8, 0x9,
     0x51, 0x57, 0x45, 0x52, 0x54, 0x59, 0x55, 0x49, 0x4F, 0x50, 0x7B, 0x7D, 0xA, 0x0, 0x41, 0x53,
     0x44, 0x46, 0x47, 0x48, 0x4A, 0x4B, 0x4C, 0x3A, 0x22, 0x7E, 0x0, 0x7C, 0x5A, 0x58, 0x43, 0x56,
     0x42, 0x4E, 0x4D, 0x3C, 0x3E, 0x3F, 0x0, 0x2A, 0x0, 0x20, 0x0, 0x0, 0x0, 0x0, 0x0, 0x0,
     0x0, 0x0, 0x0, 0x0, 0x0, 0x0, 0x0, 0x37, 0x38, 0x39, 0x2D, 0x34, 0x35, 0x36, 0x2B, 0x31,
     0x32, 0x33, 0x30, 0x2E, 0x0, 0x0, 0x0, 0x0]
     [(0x9C, 0xA), (0xB5, 0x2F), (0xC8, 0xE2), (0xD0, 0xE3),
      (0xC9, 0xE6), (0xD1, 0xE7), (0xCB, 0xE4), (0xCD, 0xE5), (0x97, 0xE0), (0xCF, 0xE1), (0xD2, 0xE8), (0xD3, 0xE9)]"

definition ctlmap :: "byte list" where
  "ctlmap = kbd_table [
     0x0, 0x0, 0x0, 0x0, 0x0, 0x0, 0x0, 0x0, 0x0, 0x0, 0x0, 0x0, 0x0, 0x0, 0x0, 0x0,
     0x11, 0x17, 0x5, 0x12, 0x14, 0x19, 0x15, 0x9, 0xF, 0x10, 0x0, 0x0, 0xD, 0x0, 0x1, 0x13,
     0x4, 0x6, 0x7, 0x8, 0xA, 0xB, 0xC, 0x0, 0x0, 0x0, 0x0, 0x1C, 0x1A, 0x18, 0x3, 0x16,
     0x2, 0xE, 0xD, 0x0, 0x0, 0xEF, 0x0, 0x0]
     [(0x9C, 0xD), (0xB5, 0xEF), (0xC8, 0xE2), (0xD0, 0xE3),
      (0xC9, 0xE6), (0xD1, 0xE7), (0xCB, 0xE4), (0xCD, 0xE5), (0x97, 0xE0), (0xCF, 0xE1), (0xD2, 0xE8), (0xD3, 0xE9)]"

section \<open>Key codes\<close>

text \<open>charcode[shift & (CTL | SHIFT)].\<close>

definition charcode :: "uint \<Rightarrow> byte list" where
  "charcode m = [normalmap, shiftmap, ctlmap, ctlmap] ! unat m"

definition swap_case :: "uint \<Rightarrow> uint" where
  "swap_case c = (if 0x61 \<le> c \<and> c \<le> 0x7A then c - 32 else if 0x41 \<le> c \<and> c \<le> 0x5A then c + 32 else c)"

text \<open>kbdgetc() for the byte \<open>d\<close> from the data port: the character and the new shift state.\<close>

definition kbdgetc :: "byte \<Rightarrow> uint \<Rightarrow> uint \<times> uint" where
  "kbdgetc d shift =
     (if d = 0xE0 then (0, shift OR E0ESC)
      else if d AND 0x80 \<noteq> 0
      then let data = (if shift AND E0ESC \<noteq> 0 then d else d AND 0x7F) in
        (0, shift AND NOT (ucast (shiftcode ! unat data) OR E0ESC))
      else let (data, sh) = (if shift AND E0ESC \<noteq> 0 then (d OR 0x80, shift AND NOT E0ESC) else (d, shift));
               sh' = (sh OR ucast (shiftcode ! unat data)) XOR ucast (togglecode ! unat data);
               c = ucast (charcode (sh' AND (CTL OR SHIFT)) ! unat data) in
        (if sh' AND CAPSLOCK \<noteq> 0 then swap_case c else c, sh'))"

primrec kbd_chars :: "byte list \<Rightarrow> uint \<Rightarrow> nat list \<times> uint" where
  "kbd_chars [] shift = ([], shift)"
| "kbd_chars (d # ds) shift = (let (c, sh) = kbdgetc d shift; (cs, sh') = kbd_chars ds sh in (unat c # cs, sh'))"

text \<open>consoleintr() and the process listing that Control-P asks for.\<close>

definition console_interrupt :: "nat list \<Rightarrow> ('z kcons_scheme, unit) prog" where
  "console_interrupt cs = kbind (consoleintr cs) (\<lambda>doprocdump. kwhen doprocdump procdump)"

definition kbdintr :: "byte list \<Rightarrow> ('z ksys_scheme, unit) prog" where
  "kbdintr ds = kbind (kget kbd_shift) (\<lambda>shift. let (cs, sh) = kbd_chars ds shift in
     kthen (kmodify (\<lambda>s. s\<lparr>kbd_shift := sh\<rparr>)) (console_interrupt cs))"

definition uartintr :: "byte list \<Rightarrow> ('z kcons_scheme, unit) prog" where
  "uartintr ds = console_interrupt (map unat ds)"

end
