(* ===== verification/Trap.thy ===== *)
theory Trap
  imports Sysfile Kbd
begin

text \<open>
  sysproc.c, the dispatch of syscall.c, and trap.c. What the hardware supplies with a trap (the
  number of the CPU, the faulting address, the bytes waiting in the device ports) and what the
  rest of the system does while the process has yielded the CPU are arguments.
\<close>

section \<open>Process system calls\<close>

definition sys_fork :: "('z kfile_scheme, int) prog" where
  "sys_fork = fork"

definition sys_exit :: "('z kfile_scheme, int) prog" where
  "sys_exit = exit"

definition sys_wait :: "('z kmm_scheme, int) prog" where
  "sys_wait = wait"

definition sys_kill :: "('z kmm_scheme, int) prog" where
  "sys_kill = need (argint 0) kill"

definition sys_getpid :: "('z kproc_scheme, int) prog" where
  "sys_getpid = kbind myproc_pid (\<lambda>pid. kreturn (sint pid))"

definition sys_sbrk :: "('z kmm_scheme, int) prog" where
  "sys_sbrk = need (argint 0) (\<lambda>n. kbind cur_sz (\<lambda>sz. kbind (growproc (sint n)) (\<lambda>r.
     if r < 0 then kreturn (-1) else kreturn (sint sz))))"

text \<open>
  One pass of the loop of sys_sleep(), begun when the clock showed \<open>ticks0\<close>. The comparison is
  between unsigned numbers. A process that goes to sleep starts the next pass when it is woken.
\<close>

definition sleep_pass :: "uint \<Rightarrow> uint \<Rightarrow> ('z ksys_scheme, int) prog" where
  "sleep_pass ticks0 n = kbind (kget ticks) (\<lambda>now.
     if now - ticks0 < n
     then kbind myproc_killed (\<lambda>k. if k then kreturn (-1) else sleep ChanTicks)
     else kreturn 0)"

definition sys_sleep :: "('z ksys_scheme, int) prog" where
  "sys_sleep = need (argint 0) (\<lambda>n. kbind (kget ticks) (\<lambda>ticks0. sleep_pass ticks0 n))"

definition sys_uptime :: "('z ksys_scheme, int) prog" where
  "sys_uptime = kbind (kget ticks) (\<lambda>xticks. kreturn (sint xticks))"

section \<open>Dispatch\<close>

text \<open>The table syscalls[], indexed by the numbers of syscall.h.\<close>

definition syscalls :: "('z ksys_scheme, int) prog list" where
  "syscalls = [sys_fork, sys_exit, sys_wait, sys_pipe, sys_read, sys_kill, sys_exec, sys_fstat, sys_chdir, sys_dup,
     sys_getpid, sys_sbrk, sys_sleep, sys_uptime, sys_open, sys_write, sys_mknod, sys_unlink, sys_link, sys_mkdir, sys_close]"

definition set_eax :: "nat \<Rightarrow> int \<Rightarrow> ('z kproc_scheme, unit) prog" where
  "set_eax c r = kmodify (upd_proc c (\<lambda>p. p\<lparr>p_tf := (p_tf p)\<lparr>tf_eax := word_of_int r\<rparr>\<rparr>))"

definition syscall :: "('z ksys_scheme, unit) prog" where
  "syscall = with_curproc (\<lambda>c. kbind (kget (\<lambda>s. ptable s c)) (\<lambda>p. let num = sint (tf_eax (p_tf p)); tbl = syscalls in
     if num > 0 \<and> num < int (Suc (length tbl)) then kbind (tbl ! (nat num - 1)) (set_eax c)
     else kthen (cputs (printint (sint (p_pid p)) 10 True @ [0x20] @ takeWhile (\<lambda>x. x \<noteq> 0) (p_name p)
         @ ascii '': unknown sys call '' @ printint num 10 True @ [0x0A]))
       (set_eax c (-1))))"

section \<open>Traps\<close>

definition T_SYSCALL :: uint where "T_SYSCALL = 64"
definition T_IRQ0 :: uint where "T_IRQ0 = 32"
definition IRQ_TIMER :: uint where "IRQ_TIMER = 0"
definition IRQ_KBD :: uint where "IRQ_KBD = 1"
definition IRQ_COM1 :: uint where "IRQ_COM1 = 4"
definition IRQ_IDE :: uint where "IRQ_IDE = 14"
definition IRQ_SPURIOUS :: uint where "IRQ_SPURIOUS = 31"

definition exit_if_killed :: "('z kfile_scheme, unit) prog" where
  "exit_if_killed = kbind myproc_killed (\<lambda>k. kwhen k exit)"

definition trap_syscall :: "trapframe \<Rightarrow> ('z ksys_scheme, unit) prog" where
  "trap_syscall tf = kthen exit_if_killed (with_curproc (\<lambda>c.
     kthen (kmodify (upd_proc c (\<lambda>p. p\<lparr>p_tf := tf\<rparr>))) (kthen syscall exit_if_killed)))"

text \<open>The hardware's part: \<open>kbd\<close> and \<open>com\<close> are the bytes waiting at the two input devices.\<close>

record trap_env =
  te_cpuid :: uint
  te_cr2 :: uint
  te_kbd :: "byte list"
  te_com :: "byte list"

definition clock_tick :: "('z ksys_scheme, unit) prog" where
  "clock_tick = kthen (kmodify (\<lambda>s. s\<lparr>ticks := ticks s + 1\<rparr>)) (wakeup ChanTicks)"

text \<open>The default case: panic on a trap in the kernel, otherwise mark the process killed. What is
  printed before the panic is lost with it.\<close>

definition trap_fault :: "trap_env \<Rightarrow> trapframe \<Rightarrow> ('z kcons_scheme, unit) prog" where
  "trap_fault env tf = kbind myproc (\<lambda>c. case c of
     None \<Rightarrow> panic ''trap''
   | Some i \<Rightarrow> if tf_cs tf AND 3 = 0 then panic ''trap''
       else kbind (kget (\<lambda>s. ptable s i)) (\<lambda>p.
         kthen (cputs (ascii ''pid '' @ printint (sint (p_pid p)) 10 True @ [0x20] @ takeWhile (\<lambda>x. x \<noteq> 0) (p_name p)
           @ ascii '': trap '' @ printint (sint (tf_trapno tf)) 10 True @ ascii '' err '' @ printint (sint (tf_err tf)) 10 True
           @ ascii '' on cpu '' @ printint (sint (te_cpuid env)) 10 True @ ascii '' eip 0x'' @ printint (sint (tf_eip tf)) 16 False
           @ ascii '' addr 0x'' @ printint (sint (te_cr2 env)) 16 False @ ascii ''--kill proc'' @ [0x0A]))
         (kmodify (upd_proc i (\<lambda>p. p\<lparr>p_killed := True\<rparr>)))))"

definition trap_irq :: "trap_env \<Rightarrow> trapframe \<Rightarrow> ('z ksys_scheme, unit) prog" where
  "trap_irq env tf = (let n = tf_trapno tf in
     if n = T_IRQ0 + IRQ_TIMER then kwhen (te_cpuid env = 0) clock_tick
     else if n = T_IRQ0 + IRQ_IDE \<or> n = T_IRQ0 + IRQ_IDE + 1 then kreturn ()
     else if n = T_IRQ0 + IRQ_KBD then kbdintr (te_kbd env)
     else if n = T_IRQ0 + IRQ_COM1 then uartintr (te_com env)
     else if n = T_IRQ0 + 7 \<or> n = T_IRQ0 + IRQ_SPURIOUS
     then cputs (ascii ''cpu'' @ printint (sint (te_cpuid env)) 10 True @ ascii '': spurious interrupt at ''
       @ printint (uint (tf_cs tf)) 16 False @ ascii '':'' @ printint (sint (tf_eip tf)) 16 False @ [0x0A])
     else trap_fault env tf)"

text \<open>Force process exit if it has been killed and is in user space.\<close>

definition exit_user :: "trapframe \<Rightarrow> ('z kfile_scheme, unit) prog" where
  "exit_user tf = kbind myproc (\<lambda>c. case c of None \<Rightarrow> kreturn ()
     | Some i \<Rightarrow> kbind (kget (\<lambda>s. p_killed (ptable s i))) (\<lambda>k. kwhen (k \<and> tf_cs tf AND 3 = DPL_USER) exit))"

text \<open>\<open>others\<close>: what the system does from the switch in yield() until the process runs again.\<close>

definition trap :: "('z ksys_scheme, unit) prog \<Rightarrow> trap_env \<Rightarrow> trapframe \<Rightarrow> ('z ksys_scheme, unit) prog" where
  "trap others env tf = (if tf_trapno tf = T_SYSCALL then trap_syscall tf
     else kthen (trap_irq env tf) (kthen (exit_user tf)
       (kthen (kbind myproc (\<lambda>c. case c of None \<Rightarrow> kreturn ()
          | Some i \<Rightarrow> kbind (kget (\<lambda>s. p_state (ptable s i))) (\<lambda>st.
              kwhen (st = RUNNING \<and> tf_trapno tf = T_IRQ0 + IRQ_TIMER) (kthen yield others))))
       (exit_user tf))))"

end
