(* ===== verification/ProcSpec.thy ===== *)
theory ProcSpec
  imports Trap
begin

text \<open>
  Properties of proc.c: what fork() gives the child, the bookkeeping between exit() and wait()
  in every interleaving, the fairness of the scheduler's round, and the slot that kill(0) spoils.
\<close>

section \<open>What the memory functions leave alone\<close>

definition beyond_mem :: "('z kmm_scheme \<Rightarrow> 'b) \<Rightarrow> bool" where
  "beyond_mem f \<longleftrightarrow> (\<forall>s x. f (s\<lparr>mem := x\<rparr>) = f s) \<and> (\<forall>s x. f (s\<lparr>kmem_freelist := x\<rparr>) = f s)"

lemma frames_mem:
  assumes "beyond_mem f"
  shows "frames f kalloc" "frames f (kfree p)" "frames f (store32 a v)" "frames f (load32 a)" "frames f (zero_page p)"
    "frames f (copy_page p q)" "frames f (store_bytes a bs)"
proof -
  have u [simp]: "f (s\<lparr>mem := x\<rparr>) = f s" "f (s\<lparr>kmem_freelist := z\<rparr>) = f s" "f (s\<lparr>mem := y, kmem_freelist := z\<rparr>) = f s" for s x y z
    using assms unfolding beyond_mem_def by metis+
  show "frames f kalloc" "frames f (kfree p)" "frames f (store32 a v)" "frames f (load32 a)" "frames f (zero_page p)"
    "frames f (copy_page p q)" "frames f (store_bytes a bs)"
    unfolding kalloc_def kfree_def store32_def load32_def zero_page_def copy_page_def store_bytes_def kreturn_eq_Done
    by (intro frame_intros frames_modify; simp)+
qed

lemma frames_walk:
  assumes b: "beyond_mem f"
  shows "frames f (walkpgdir d a al)" "frames f (mappages_loop n d a pa perm)" "frames f (dealloc_page d a)"
proof -
  show w: "frames f (walkpgdir d a al)" for d a al
    unfolding walkpgdir_def Let_def kreturn_eq_Done by (intro frame_intros frames_mem [OF b])
  show "frames f (mappages_loop n d a pa perm)"
    by (induction n arbitrary: a pa) (simp_all add: frames_base frames_bind frames_then frames_if w frames_mem [OF b])
  show "frames f (dealloc_page d a)"
    unfolding dealloc_page_def kreturn_eq_Done by (intro frame_intros frames_mem [OF b] w)
qed

lemma frames_dealloc:
  assumes b: "beyond_mem f"
  shows "frames f (deallocuvm_loop d a old)"
proof (induction d a old rule: deallocuvm_loop.induct)
  case (1 d a old)
  show ?case
  proof (cases "a < old")
    case True
    then have "frames f (if nxt \<le> a then kfault ''deallocuvm'' else deallocuvm_loop d nxt old)" for nxt
      using 1 by (simp add: frames_base)
    then show ?thesis
      by (subst deallocuvm_loop.simps) (simp add: True frames_bind frames_walk [OF b])
  qed (simp add: deallocuvm_loop.simps frames_base)
qed

lemma frames_vm:
  assumes b: "beyond_mem f"
  shows "frames f (freevm d)" "frames f setupkvm" "frames f (copyuvm d sz)" "frames f (mappages d a n pa perm)"
    "frames f (inituvm d code)"
proof -
  show mp: "frames f (mappages d a n pa perm)" for d a n pa perm
    unfolding mappages_def Let_def by (rule frames_walk [OF b])
  have da: "frames f (deallocuvm d o' n)" for d o' n
    unfolding deallocuvm_def kreturn_eq_Done by (intro frame_intros frames_dealloc [OF b])
  show fv: "frames f (freevm d)" for d
    unfolding freevm_def kreturn_eq_Done by (intro frame_intros frames_mem [OF b] da)
  have "frames f (setupkvm_loop d ks)" for d ks
    by (induction ks) (simp_all add: frames_base frames_bind frames_then frames_if fv mp split: prod.split)
  then show sk: "frames f setupkvm"
    unfolding setupkvm_def kreturn_eq_Done by (intro frame_intros frames_mem [OF b])
  have "frames f (copyuvm_loop p d is)" for p d "is"
    by (induction "is") (simp_all add: frames_base frames_bind frames_then frames_if fv mp frames_mem [OF b] frames_walk [OF b])
  then show "frames f (copyuvm d sz)"
    unfolding copyuvm_def kreturn_eq_Done by (intro frame_intros sk)
  show "frames f (inituvm d code)"
    unfolding inituvm_def by (intro frame_intros frames_mem [OF b] mp)
qed

lemma beyond_mem_proc: "beyond_mem ptable" "beyond_mem nextpid" "beyond_mem cpu_proc" "beyond_mem initproc"
  by (simp_all add: beyond_mem_def)

lemma beyond_mem_file: "beyond_mem ftable" "beyond_mem inodes" "beyond_mem pipes"
  by (simp_all add: beyond_mem_def)

lemmas mem_ptable = frames_mem [OF beyond_mem_proc(1), THEN framesD] frames_vm [OF beyond_mem_proc(1), THEN framesD]

section \<open>fork\<close>

lemma kfor_Done_inv:
  assumes "kfor [a..<b] f s = Done u t" and "I a s" and "a \<le> b"
    and "\<And>i s t. a \<le> i \<Longrightarrow> i < b \<Longrightarrow> f i s = Done () t \<Longrightarrow> I i s \<Longrightarrow> I (Suc i) t"
  shows "I b t"
  using assms
proof (induction "b - a" arbitrary: a s)
  case (Suc n)
  then have ab: "a < b" by simp
  then obtain v where v: "f a s = Done () v" "kfor [Suc a..<b] f v = Done u t"
    using Suc.prems(1) by (auto simp: upt_conv_Cons kthen_eq_Done)
  have "I (Suc a) v" using Suc.prems(2,4) ab v(1) by blast
  then show ?case using Suc.hyps(1) [of "Suc a" v] Suc.hyps(2) Suc.prems(4) v(2) ab by auto
qed simp

definition fds_of :: "proc \<Rightarrow> nat \<Rightarrow> nat \<Rightarrow> nat set" where
  "fds_of p k f = {i. i < k \<and> p_ofile p i = Some f}"

lemma fds_of_Suc: "fds_of p (Suc k) f = (if p_ofile p k = Some f then insert k (fds_of p k f) else fds_of p k f)"
  by (auto simp: fds_of_def less_Suc_eq)

lemma card_fds_of_Suc: "card (fds_of p (Suc k) f) = card (fds_of p k f) + (if p_ofile p k = Some f then 1 else 0)"
proof -
  have "k \<notin> fds_of p k f" "finite (fds_of p k f)" by (auto simp: fds_of_def)
  then show ?thesis by (simp add: fds_of_Suc)
qed

definition copied_files :: "nat \<Rightarrow> proc \<Rightarrow> proc \<Rightarrow> proc" where
  "copied_files k p q = q\<lparr>p_ofile := (\<lambda>i. if i < k \<and> p_ofile p i \<noteq> None then p_ofile p i else p_ofile q i)\<rparr>"

definition dup_files :: "nat \<Rightarrow> proc \<Rightarrow> (nat \<Rightarrow> struct_file) \<Rightarrow> nat \<Rightarrow> struct_file" where
  "dup_files k p ft = (\<lambda>f. (ft f)\<lparr>f_ref := f_ref (ft f) + int (card (fds_of p k f))\<rparr>)"

lemma fork_files_Done:
  assumes run: "fork_files c np s = Done u t" and ne: "c \<noteq> np"
  shows "t = s\<lparr>ptable := (ptable s)(np := copied_files NOFILE (ptable s c) (ptable s np)),
    ftable := dup_files NOFILE (ptable s c) (ftable s)\<rparr>"
proof -
  define I where "I = (\<lambda>k v. v = s\<lparr>ptable := (ptable s)(np := copied_files k (ptable s c) (ptable s np)),
    ftable := dup_files k (ptable s c) (ftable s)\<rparr>)"
  have start: "I 0 s" by (simp add: I_def copied_files_def dup_files_def fds_of_def)
  have body: "I (Suc i) v'" if v: "I i v" and step: "kbind (kget (\<lambda>s. p_ofile (ptable s c) i)) (\<lambda>f. case f of
     None \<Rightarrow> kreturn ()
   | Some g \<Rightarrow> kbind (filedup g) (\<lambda>h. kmodify (upd_proc np (\<lambda>p. p\<lparr>p_ofile := (p_ofile p)(i := Some h)\<rparr>)))) v = Done () v'" for i v v'
  proof (cases "p_ofile (ptable s c) i")
    case None
    then have "v' = v" using step v ne by (simp add: I_def)
    moreover have "copied_files (Suc i) (ptable s c) q = copied_files i (ptable s c) q" for q
      using None by (auto simp: copied_files_def less_Suc_eq fun_eq_iff intro!: arg_cong [where f = "\<lambda>x. q\<lparr>p_ofile := x\<rparr>"])
    moreover have "dup_files (Suc i) (ptable s c) ft = dup_files i (ptable s c) ft" for ft
      using None by (simp add: dup_files_def card_fds_of_Suc)
    ultimately show ?thesis using v by (simp add: I_def)
  next
    case (Some g)
    then have v': "v' = upd_proc np (\<lambda>p. p\<lparr>p_ofile := (p_ofile p)(i := Some g)\<rparr>) (upd_file g (\<lambda>x. x\<lparr>f_ref := f_ref x + 1\<rparr>) v)"
      using step v ne by (auto simp: I_def filedup_def kbind_eq_Done kthen_eq_Done split: if_splits)
    have "(copied_files i (ptable s c) q)\<lparr>p_ofile := (p_ofile (copied_files i (ptable s c) q))(i := Some g)\<rparr>
      = copied_files (Suc i) (ptable s c) q" for q
      using Some by (auto simp: copied_files_def less_Suc_eq fun_eq_iff intro!: arg_cong [where f = "\<lambda>x. q\<lparr>p_ofile := x\<rparr>"])
    moreover have "(dup_files i (ptable s c) (ftable s))(g := (dup_files i (ptable s c) (ftable s) g)\<lparr>f_ref := f_ref (dup_files i (ptable s c) (ftable s) g) + 1\<rparr>)
      = dup_files (Suc i) (ptable s c) (ftable s)"
      using Some by (auto simp: dup_files_def card_fds_of_Suc fun_eq_iff)
    ultimately show ?thesis using v v' by (simp add: I_def upd_proc_def upd_file_def)
  qed
  have "I NOFILE t"
    by (rule kfor_Done_inv [where I = I, OF run [unfolded fork_files_def] start le0]) (rule body)
  then show ?thesis by (simp add: I_def)
qed

lemma kalloc_Done: "kalloc s = Done p t \<Longrightarrow> \<exists>x. t = s\<lparr>kmem_freelist := x\<rparr>"
  by (auto simp: kalloc_def kwhen_def kbind_eq_Done kthen_eq_Done split: if_splits intro: exI [of _ "kmem_freelist s"])

text \<open>The process table after allocproc().\<close>

definition allocated :: "nat option \<Rightarrow> 'z kmm_scheme \<Rightarrow> (nat \<Rightarrow> proc) \<Rightarrow> bool" where
  "allocated r s pt = (case r of
      None \<Rightarrow> pt = ptable s \<or> (\<exists>i. i < NPROC \<and> p_state (ptable s i) = UNUSED \<and>
        pt = (ptable s)(i := (ptable s i)\<lparr>p_pid := nextpid s, p_kstack := 0, p_state := UNUSED\<rparr>))
    | Some i \<Rightarrow> i < NPROC \<and> p_state (ptable s i) = UNUSED \<and> (\<exists>k. k \<noteq> 0 \<and>
        pt = (ptable s)(i := (ptable s i)\<lparr>p_state := EMBRYO, p_pid := nextpid s, p_kstack := k,
          p_context := kcontext_zero\<lparr>ctx_eip := k_forkret s\<rparr>\<rparr>)))"

lemma allocproc_Done:
  assumes "allocproc s = Done r t"
  shows "allocated r s (ptable t) \<and> ftable t = ftable s \<and> inodes t = inodes s \<and> cpu_proc t = cpu_proc s \<and> initproc t = initproc s"
proof -
  consider "find (\<lambda>i. p_state (ptable s i) = UNUSED) [0..<NPROC] = None" |
    i where "find (\<lambda>i. p_state (ptable s i) = UNUSED) [0..<NPROC] = Some i" "i < NPROC" "p_state (ptable s i) = UNUSED"
    by (cases "find (\<lambda>i. p_state (ptable s i) = UNUSED) [0..<NPROC]") (auto dest: find_Some_sat)
  then show ?thesis
  proof cases
    case 1
    then show ?thesis using assms by (auto simp: allocproc_def allocated_def kbind_eq_Done)
  next
    case 2
    then show ?thesis using assms
      by (auto simp: allocproc_def allocated_def kbind_eq_Done kthen_eq_Done store32_def upd_proc_def dest!: kalloc_Done split: if_splits)
  qed
qed

text \<open>
  The child \<open>q\<close> that fork() puts in the slot that held \<open>old\<close>, for the parent \<open>p\<close> in slot \<open>c\<close>.
\<close>

definition forked :: "nat \<Rightarrow> proc \<Rightarrow> proc \<Rightarrow> proc \<Rightarrow> bool" where
  "forked c p old q \<longleftrightarrow> p_state q = RUNNABLE \<and> p_parent q = Some c \<and> p_sz q = p_sz p \<and> p_pgdir q \<noteq> 0 \<and> p_kstack q \<noteq> 0 \<and>
     p_tf q = (p_tf p)\<lparr>tf_eax := 0\<rparr> \<and> p_cwd q = p_cwd p \<and> p_ofile q = p_ofile (copied_files NOFILE p old) \<and>
     p_killed q = p_killed old \<and> p_chan q = p_chan old"

text \<open>Nothing has changed but the contents of slots that are and stay unused.\<close>

definition same_procs :: "(nat \<Rightarrow> proc) \<Rightarrow> (nat \<Rightarrow> proc) \<Rightarrow> bool" where
  "same_procs pt pt' \<longleftrightarrow> (\<forall>i. pt' i = pt i \<or> i < NPROC \<and> p_state (pt i) = UNUSED \<and> p_state (pt' i) = UNUSED \<and>
     p_parent (pt' i) = p_parent (pt i))"

lemma same_procs_refl [simp]: "same_procs pt pt"
  by (simp add: same_procs_def)

lemma same_procs_upd:
  "i < NPROC \<Longrightarrow> p_state (pt i) = UNUSED \<Longrightarrow> p_state q = UNUSED \<Longrightarrow> p_parent q = p_parent (pt i) \<Longrightarrow> same_procs pt (pt(i := q))"
  by (simp add: same_procs_def)

lemma fork_fail_Done:
  assumes "kbind (kget (\<lambda>s. p_kstack (ptable s np))) (\<lambda>k. kthen (kfree k)
        (kthen (kmodify (upd_proc np (\<lambda>p. p\<lparr>p_kstack := 0, p_state := UNUSED\<rparr>))) (kreturn (-1)))) s = Done (r :: int) t"
  shows "r = -1 \<and> ptable t = (ptable s)(np := (ptable s np)\<lparr>p_kstack := 0, p_state := UNUSED\<rparr>) \<and>
    ftable t = ftable s \<and> inodes t = inodes s \<and> initproc t = initproc s"
proof -
  obtain u where u: "kfree (p_kstack (ptable s np)) s = Done () u"
    "t = upd_proc np (\<lambda>p. p\<lparr>p_kstack := 0, p_state := UNUSED\<rparr>) u" "r = -1"
    using assms by (auto simp: kthen_eq_Done)
  have "ptable u = ptable s" "ftable u = ftable s" "inodes u = inodes s" "initproc u = initproc s"
    using framesD [OF frames_mem(2) u(1)] beyond_mem_proc beyond_mem_file by metis+
  then show ?thesis using u by (simp add: upd_proc_def)
qed

lemma fork_Done:
  assumes run: "fork s = Done r t" and c: "cpu_proc s = Some c" "p_state (ptable s c) \<noteq> UNUSED"
  obtains (failed) "r = -1" "same_procs (ptable s) (ptable t)" "ftable t = ftable s" "inodes t = inodes s" "initproc t = initproc s"
  | (child) np q ip where "np < NPROC" "p_state (ptable s np) = UNUSED" "r = sint (nextpid s)" "p_pid q = nextpid s"
      "ptable t = (ptable s)(np := q)" "forked c (ptable s c) (ptable s np) q" "initproc t = initproc s"
      "ftable t = dup_files NOFILE (ptable s c) (ftable s)" "p_cwd (ptable s c) = Some ip"
      "inodes t = (inodes s)(ip := (inodes s ip)\<lparr>i_ref := i_ref (inodes s ip) + 1\<rparr>)"
proof -
  obtain a s1 where a: "allocproc s = Done a s1" using run c by (auto simp: fork_def with_curproc_eq kbind_eq_Done)
  note A = allocproc_Done [OF a]
  show ?thesis
  proof (cases a)
    case None
    then have "r = -1" "t = s1" using run a c by (simp_all add: fork_def with_curproc_eq kbind_eq_Done)
    then show ?thesis using A None by (intro failed) (auto simp: allocated_def intro!: same_procs_upd)
  next
    case (Some np)
    then obtain k where np: "np < NPROC" "p_state (ptable s np) = UNUSED" "k \<noteq> 0"
      "ptable s1 = (ptable s)(np := (ptable s np)\<lparr>p_state := EMBRYO, p_pid := nextpid s, p_kstack := k,
          p_context := kcontext_zero\<lparr>ctx_eip := k_forkret s\<rparr>\<rparr>)"
      using A by (auto simp: allocated_def)
    then have ne: "c \<noteq> np" using c by auto
    let ?p = "ptable s c"
    obtain d s2 where d: "copyuvm (p_pgdir ?p) (p_sz ?p) s1 = Done d s2"
      using run a c Some np ne by (auto simp: fork_def with_curproc_eq kbind_eq_Done)
    have f2: "ptable s2 = ptable s1" "ftable s2 = ftable s1" "inodes s2 = inodes s1" "initproc s2 = initproc s1"
      using framesD [OF frames_vm(3) d] beyond_mem_proc beyond_mem_file by metis+
    show ?thesis
    proof (cases "d = 0")
      case True
      then have "kbind (kget (\<lambda>s. p_kstack (ptable s np))) (\<lambda>k. kthen (kfree k)
        (kthen (kmodify (upd_proc np (\<lambda>p. p\<lparr>p_kstack := 0, p_state := UNUSED\<rparr>))) (kreturn (-1))))
          (upd_proc np (\<lambda>p. p\<lparr>p_pgdir := d\<rparr>) s2) = Done r t"
        using run a c Some np ne d by (simp add: fork_def with_curproc_eq kbind_Done)
      note F = fork_fail_Done [OF this]
      show ?thesis using F A np f2
        by (intro failed) (auto simp: upd_proc_def intro!: same_procs_upd)
    next
      case False
      let ?s3 = "upd_proc np (\<lambda>p. p\<lparr>p_sz := p_sz ?p, p_parent := Some c, p_tf := (p_tf ?p)\<lparr>tf_eax := 0\<rparr>\<rparr>)
        (upd_proc np (\<lambda>p. p\<lparr>p_pgdir := d\<rparr>) s2)"
      obtain u s4 ip where u: "fork_files c np ?s3 = Done u s4" and ip: "p_cwd ?p = Some ip"
        and r: "r = sint (p_pid (ptable s4 np))"
        and t: "t = upd_proc np (\<lambda>p. p\<lparr>p_state := RUNNABLE\<rparr>) (upd_proc np (set_name (cstring (p_name ?p)))
          (upd_proc np (\<lambda>p. p\<lparr>p_cwd := Some ip\<rparr>) (upd_inode ip (\<lambda>x. x\<lparr>i_ref := i_ref x + 1\<rparr>) s4)))"
        using run a c Some np ne d f2 False
        by (auto simp: fork_def with_curproc_eq kbind_Done kthen_eq_Done kbind_eq_Done idup_def upd_inode_def set_name_def Let_def
          split: option.splits)
      note files = fork_files_Done [OF u ne]
      show ?thesis
        by (rule child [of np "ptable t np" ip])
          (use np r t files A f2 ip False ne in \<open>auto simp: forked_def set_name_def Let_def upd_proc_def upd_inode_def copied_files_def fun_eq_iff\<close>)
    qed
  qed
qed

section \<open>exit and wait\<close>

text \<open>The process table after the first \<open>k\<close> rounds of the loop that passes children to init.\<close>

definition orphan_zombie :: "nat \<Rightarrow> nat \<Rightarrow> (nat \<Rightarrow> proc) \<Rightarrow> bool" where
  "orphan_zombie k c pt \<longleftrightarrow> (\<exists>j<k. p_parent (pt j) = Some c \<and> p_state (pt j) = ZOMBIE)"

definition adopt :: "nat \<Rightarrow> nat option \<Rightarrow> proc \<Rightarrow> proc" where
  "adopt c ini p = (if p_parent p = Some c then p\<lparr>p_parent := ini\<rparr> else p)"

definition woken :: "nat option \<Rightarrow> nat \<Rightarrow> proc \<Rightarrow> proc" where
  "woken p i q = (if i < NPROC \<and> p_state q = SLEEPING \<and> p \<noteq> None \<and> p_chan q = Some (ChanProc (the p))
     then q\<lparr>p_state := RUNNABLE\<rparr> else q)"

definition abandoned :: "nat \<Rightarrow> nat \<Rightarrow> nat option \<Rightarrow> (nat \<Rightarrow> proc) \<Rightarrow> nat \<Rightarrow> proc" where
  "abandoned k c ini pt = (\<lambda>i. (if orphan_zombie k c pt then woken ini i else id) (if i < k then adopt c ini (pt i) else pt i))"

lemma wakeup_proc_eq: "wakeup_proc p s = Done () (s\<lparr>ptable := (\<lambda>i. woken p i (ptable s i))\<rparr>)"
proof -
  have "wake_below NPROC (ChanProc j) pt = (\<lambda>i. woken (Some j) i (pt i))" for j pt
    by (auto simp: wake_below_def wake_proc_def woken_def)
  moreover have "(\<lambda>i. woken None i (pt i)) = pt" for pt by (simp add: woken_def)
  ultimately show ?thesis
    by (simp add: wakeup_proc_def wakeup_eq [unfolded wakeup_def] split: option.split)
qed

lemma woken_fields [simp]:
  "p_parent (woken p i q) = p_parent q" "p_killed (woken p i q) = p_killed q" "p_chan (woken p i q) = p_chan q"
  "p_state (woken p i q) = (if i < NPROC \<and> p_state q = SLEEPING \<and> p \<noteq> None \<and> p_chan q = Some (ChanProc (the p))
     then RUNNABLE else p_state q)"
  by (simp_all add: woken_def)

lemma woken_woken: "woken p i (woken p i q) = woken p i q"
  by (simp add: woken_def)

lemma woken_parent: "(woken p i q)\<lparr>p_parent := x\<rparr> = woken p i (q\<lparr>p_parent := x\<rparr>)"
  by (simp add: woken_def)

lemma adopt_fields [simp]:
  "p_state (adopt c ini p) = p_state p" "p_chan (adopt c ini p) = p_chan p" "p_killed (adopt c ini p) = p_killed p"
  "p_parent (adopt c ini p) = (if p_parent p = Some c then ini else p_parent p)"
  by (simp_all add: adopt_def)

lemma orphan_zombie_Suc:
  "orphan_zombie (Suc i) c pt \<longleftrightarrow> orphan_zombie i c pt \<or> p_parent (pt i) = Some c \<and> p_state (pt i) = ZOMBIE"
  by (auto simp: orphan_zombie_def less_Suc_eq)

lemma abandon_loop:
  assumes "k \<le> NPROC"
  shows "wp (kfor [0..<k] (\<lambda>i. kbind (kget (\<lambda>s. ptable s i)) (\<lambda>p.
     kwhen (p_parent p = Some c) (kbind (kget initproc) (\<lambda>ini.
       kthen (kmodify (upd_proc i (\<lambda>q. q\<lparr>p_parent := ini\<rparr>))) (kwhen (p_state p = ZOMBIE) (wakeup_proc ini)))))))
    (\<lambda>_ t. t = s\<lparr>ptable := abandoned k c (initproc s) (ptable s)\<rparr>) s"
proof (rule wp_kfor_upt [where I = "\<lambda>k t. t = s\<lparr>ptable := abandoned k c (initproc s) (ptable s)\<rparr>"], goal_cases)
  case 1
  then show ?case by (simp add: abandoned_def orphan_zombie_def)
next
  case (3 i t)
  let ?pt = "ptable s" and ?ini = "initproc s"
  let ?a = "abandoned i c ?ini ?pt"
  have p: "p_parent (?a i) = p_parent (?pt i)" "p_state (?a i) = ZOMBIE \<longleftrightarrow> p_state (?pt i) = ZOMBIE" by (auto simp: abandoned_def)
  have kid: "?a(i := (?a i)\<lparr>p_parent := ?ini\<rparr>) = (\<lambda>j. (if orphan_zombie i c ?pt then woken ?ini j else id)
      (if j < Suc i then adopt c ?ini (?pt j) else ?pt j))" if "p_parent (?pt i) = Some c"
    using that by (auto simp: abandoned_def fun_eq_iff less_Suc_eq adopt_def woken_parent)
  have no: "?a = abandoned (Suc i) c ?ini ?pt" if "p_parent (?pt i) \<noteq> Some c"
    using that by (auto simp: abandoned_def fun_eq_iff less_Suc_eq adopt_def orphan_zombie_Suc)
  show ?case
  proof (cases "p_parent (?pt i) = Some c")
    case False
    then show ?thesis using 3 no p by simp
  next
    case True
    then show ?thesis using 3 kid p
      by (auto simp: wp_def wakeup_proc_eq upd_proc_def abandoned_def orphan_zombie_Suc kwhen_def kthen_def kbind_def woken_woken
        intro!: arg_cong [where f = "\<lambda>x. s\<lparr>ptable := x\<rparr>"])
  qed
qed simp

definition exited :: "nat \<Rightarrow> nat option \<Rightarrow> (nat \<Rightarrow> proc) \<Rightarrow> nat \<Rightarrow> proc" where
  "exited c ini pt = (let pt' = abandoned NPROC c ini (\<lambda>i. woken (p_parent (pt c)) i (pt i)) in pt'(c := (pt' c)\<lparr>p_state := ZOMBIE\<rparr>))"

lemma abandon_children_eq: "abandon_children c s = Done () (s\<lparr>ptable := abandoned NPROC c (initproc s) (ptable s)\<rparr>)"
  using abandon_loop [OF order_refl, of c s] by (auto simp: wp_iff abandon_children_def)

lemma exit_zombie_eq: "exit_zombie c s = Done () (s\<lparr>ptable := exited c (initproc s) (ptable s)\<rparr>)"
  by (simp add: exit_zombie_def kthen_Done [of "wakeup_proc _", OF wakeup_proc_eq] kthen_Done [of "abandon_children _", OF abandon_children_eq]
    exited_def Let_def upd_proc_def)

text \<open>
  The calls that processes make on the table, interleaved in any order. \<open>other\<close> stands for all
  code that changes neither the state nor the parent, the channel or the killed flag of a process.
\<close>

definition runs_in :: "nat \<Rightarrow> 'z kproc_scheme \<Rightarrow> bool" where
  "runs_in i s \<longleftrightarrow> i < NPROC \<and> p_state (ptable s i) = RUNNING"

definition same_status :: "proc \<Rightarrow> proc \<Rightarrow> bool" where
  "same_status p q \<longleftrightarrow> p_state q = p_state p \<and> p_parent q = p_parent p \<and> p_chan q = p_chan p \<and> p_killed q = p_killed p"

inductive proc_step :: "kfile \<Rightarrow> kfile \<Rightarrow> bool" where
  fork: "runs_in i s \<Longrightarrow> fork (s\<lparr>cpu_proc := Some i\<rparr>) = Done r t \<Longrightarrow> proc_step s t"
| exit: "runs_in i s \<Longrightarrow> initproc s \<noteq> Some i \<Longrightarrow> exit_zombie i (s\<lparr>cpu_proc := Some i\<rparr>) = Done () t \<Longrightarrow> proc_step s t"
| reap: "runs_in i s \<Longrightarrow> wait (s\<lparr>cpu_proc := Some i\<rparr>) = Done r t \<Longrightarrow> proc_step s t"
| wait: "runs_in i s \<Longrightarrow> wait (s\<lparr>cpu_proc := Some i\<rparr>) = Block c t \<Longrightarrow> proc_step s t"
| kill: "kill pid s = Done r t \<Longrightarrow> proc_step s t"
| sleep: "runs_in i s \<Longrightarrow> (\<And>j. c \<noteq> ChanProc j) \<Longrightarrow> sleep c (s\<lparr>cpu_proc := Some i\<rparr>) = (Block c t :: (unit, kfile) outcome) \<Longrightarrow> proc_step s t"
| wakeup: "wakeup c s = Done () t \<Longrightarrow> proc_step s t"
| switch: "i < NPROC \<Longrightarrow> p_state (ptable s i) = RUNNABLE \<Longrightarrow> sched_in i s = Done () t \<Longrightarrow> proc_step s t"
| yield: "runs_in i s \<Longrightarrow> yield (s\<lparr>cpu_proc := Some i\<rparr>) = Done () t \<Longrightarrow> proc_step s t"
| other: "initproc t = initproc s \<Longrightarrow> (\<And>i. same_status (ptable s i) (ptable t i)) \<Longrightarrow> proc_step s t"

definition proc_initial :: "kfile \<Rightarrow> bool" where
  "proc_initial s \<longleftrightarrow> (\<exists>ini<NPROC. initproc s = Some ini \<and> p_state (ptable s ini) = RUNNABLE \<and> p_parent (ptable s ini) = None \<and>
     (\<forall>i. i \<noteq> ini \<longrightarrow> ptable s i = proc_zero))"

definition in_wait :: "nat \<Rightarrow> (nat \<Rightarrow> proc) \<Rightarrow> bool" where
  "in_wait c pt \<longleftrightarrow> p_state (pt c) = SLEEPING \<and> (\<exists>d. p_chan (pt c) = Some (ChanProc d))"

text \<open>A process asleep in wait() sleeps on itself and has reason to: a child, none a zombie, no kill.\<close>

definition wait_ok :: "nat \<Rightarrow> (nat \<Rightarrow> proc) \<Rightarrow> bool" where
  "wait_ok c pt \<longleftrightarrow> c < NPROC \<and> p_chan (pt c) = Some (ChanProc c) \<and> \<not> p_killed (pt c) \<and>
     (\<exists>i<NPROC. p_parent (pt i) = Some c) \<and> (\<forall>i<NPROC. p_parent (pt i) = Some c \<longrightarrow> p_state (pt i) \<noteq> ZOMBIE)"

definition family_ok :: "nat option \<Rightarrow> (nat \<Rightarrow> proc) \<Rightarrow> bool" where
  "family_ok ini pt \<longleftrightarrow> (\<exists>i<NPROC. ini = Some i \<and> p_parent (pt i) = None \<and> p_state (pt i) \<notin> {UNUSED, ZOMBIE}) \<and>
     (\<forall>i. p_state (pt i) = UNUSED \<longrightarrow> p_parent (pt i) = None) \<and> (\<forall>i. p_parent (pt i) \<noteq> Some i) \<and>
     (\<forall>i<NPROC. \<forall>c. p_parent (pt i) = Some c \<longrightarrow> c < NPROC \<and> p_state (pt c) \<notin> {UNUSED, ZOMBIE})"

definition proc_inv :: "kfile \<Rightarrow> bool" where
  "proc_inv s \<longleftrightarrow> family_ok (initproc s) (ptable s) \<and> (\<forall>c. in_wait c (ptable s) \<longrightarrow> wait_ok c (ptable s))"

lemma exited_fields:
  "p_parent (exited c ini pt i) = (if i < NPROC \<and> p_parent (pt i) = Some c then ini else p_parent (pt i))"
    "p_chan (exited c ini pt i) = p_chan (pt i)" "p_killed (exited c ini pt i) = p_killed (pt i)"
    "p_state (exited c ini pt i) = (if i = c then ZOMBIE else
       if i < NPROC \<and> p_state (pt i) = SLEEPING \<and> (p_parent (pt c) \<noteq> None \<and> p_chan (pt i) = Some (ChanProc (the (p_parent (pt c)))) \<or>
         orphan_zombie NPROC c pt \<and> ini \<noteq> None \<and> p_chan (pt i) = Some (ChanProc (the ini))) then RUNNABLE else p_state (pt i))"
proof -
  have "p_state (woken p i q) = ZOMBIE \<longleftrightarrow> p_state q = ZOMBIE" for p i q by (simp add: woken_def)
  then have z: "orphan_zombie k c (\<lambda>i. woken p i (pt i)) = orphan_zombie k c pt" for k p
    by (simp only: orphan_zombie_def woken_fields(1))
  show "p_parent (exited c ini pt i) = (if i < NPROC \<and> p_parent (pt i) = Some c then ini else p_parent (pt i))"
    "p_chan (exited c ini pt i) = p_chan (pt i)" "p_killed (exited c ini pt i) = p_killed (pt i)"
    by (simp_all add: exited_def Let_def abandoned_def z)
  show "p_state (exited c ini pt i) = (if i = c then ZOMBIE else
       if i < NPROC \<and> p_state (pt i) = SLEEPING \<and> (p_parent (pt c) \<noteq> None \<and> p_chan (pt i) = Some (ChanProc (the (p_parent (pt c)))) \<or>
         orphan_zombie NPROC c pt \<and> ini \<noteq> None \<and> p_chan (pt i) = Some (ChanProc (the ini))) then RUNNABLE else p_state (pt i))"
    by (cases "orphan_zombie NPROC c pt"; cases "i < NPROC"; cases "p_state (pt i) = SLEEPING"; cases ini; cases "p_parent (pt c)")
      (simp_all add: exited_def Let_def abandoned_def z)
qed

lemma exited_state:
  "p_state (exited c ini pt c) = ZOMBIE"
  "i \<noteq> c \<Longrightarrow> p_state (exited c ini pt i) = p_state (pt i) \<or> p_state (pt i) = SLEEPING \<and> p_state (exited c ini pt i) = RUNNABLE"
  by (simp_all add: exited_fields)

lemma exited_asleep:
  assumes "p_state (exited c ini pt d) = SLEEPING" "d < NPROC" "p_chan (pt d) = Some (ChanProc d)"
  shows "d \<noteq> c" "p_state (pt d) = SLEEPING" "p_parent (pt c) \<noteq> Some d" "orphan_zombie NPROC c pt \<Longrightarrow> ini \<noteq> Some d"
  using assms by (auto simp: exited_fields(4) split: if_splits)

lemma exit_family:
  assumes inv: "family_ok ini pt" and c: "c < NPROC" "ini \<noteq> Some c" "p_state (pt c) \<noteq> UNUSED"
  shows "family_ok ini (exited c ini pt)"
proof -
  obtain k where k: "k < NPROC" "ini = Some k" "p_parent (pt k) = None" "p_state (pt k) \<notin> {UNUSED, ZOMBIE}"
    and u: "\<And>i. p_state (pt i) = UNUSED \<Longrightarrow> p_parent (pt i) = None" and n: "\<And>i. p_parent (pt i) \<noteq> Some i"
    and l: "\<And>i c. i < NPROC \<Longrightarrow> p_parent (pt i) = Some c \<Longrightarrow> c < NPROC \<and> p_state (pt c) \<notin> {UNUSED, ZOMBIE}"
    using inv unfolding family_ok_def by blast
  have "k \<noteq> c" using k c by simp
  then have "p_state (exited c ini pt k) \<notin> {UNUSED, ZOMBIE}" using exited_state(2) [of k c ini pt] k(4) by auto
  moreover have "p_parent (exited c ini pt i) = None" if "p_state (exited c ini pt i) = UNUSED" for i
  proof -
    have "i \<noteq> c" using that exited_state(1) [of c ini pt] by auto
    then have "p_state (pt i) = UNUSED" using that exited_state(2) [of i c ini pt] by auto
    then show ?thesis using u [of i] by (simp add: exited_fields(1))
  qed
  moreover have "p_parent (exited c ini pt i) \<noteq> Some i" for i
    using n [of i] k(2,3) by (auto simp: exited_fields(1))
  moreover have "d < NPROC \<and> p_state (exited c ini pt d) \<notin> {UNUSED, ZOMBIE}" if "i < NPROC" "p_parent (exited c ini pt i) = Some d" for i d
  proof (cases "p_parent (pt i) = Some c")
    case True
    then show ?thesis using that k \<open>p_state (exited c ini pt k) \<notin> _\<close> by (simp add: exited_fields(1))
  next
    case False
    then have "p_parent (pt i) = Some d" "d \<noteq> c" using that by (auto simp: exited_fields(1))
    then show ?thesis using l [OF that(1)] exited_state(2) [of d c ini pt] by auto
  qed
  ultimately show ?thesis using k unfolding family_ok_def by (auto simp: exited_fields(1))
qed

lemma exit_inv:
  assumes inv: "family_ok ini pt" "\<And>c. in_wait c pt \<Longrightarrow> wait_ok c pt" and c: "c < NPROC" "p_state (pt c) = RUNNING" "ini \<noteq> Some c"
    and d: "in_wait d (exited c ini pt)"
  shows "wait_ok d (exited c ini pt)"
proof -
  have n: "p_parent (pt i) \<noteq> Some i" for i using inv(1) by (simp add: family_ok_def)
  have dc: "d \<noteq> c" using d by (auto simp: in_wait_def exited_state(1))
  then have "in_wait d pt" using d exited_state(2) [of d c ini pt] by (auto simp: in_wait_def exited_fields(2))
  then have w: "wait_ok d pt" by (rule inv(2))
  then have par: "p_parent (pt c) \<noteq> Some d" "orphan_zombie NPROC c pt \<Longrightarrow> ini \<noteq> Some d"
    using exited_asleep [of c ini pt d] d by (auto simp: in_wait_def wait_ok_def)
  obtain k where k: "k < NPROC" "p_parent (pt k) = Some d" using w by (auto simp: wait_ok_def)
  then have "p_parent (exited c ini pt k) = Some d" using dc by (simp add: exited_fields(1))
  moreover have "p_state (exited c ini pt i) \<noteq> ZOMBIE" if i: "i < NPROC" "p_parent (exited c ini pt i) = Some d" for i
  proof (cases "p_parent (pt i) = Some c")
    case True
    then have "ini = Some d" using i by (simp add: exited_fields(1))
    then have "p_state (pt i) \<noteq> ZOMBIE" "i \<noteq> c" using par(2) True i(1) n by (auto simp: orphan_zombie_def)
    then show ?thesis using exited_state(2) [of i c ini pt] by auto
  next
    case False
    then have "p_parent (pt i) = Some d" using i by (simp add: exited_fields(1))
    moreover from this have "i \<noteq> c" using par by auto
    ultimately show ?thesis using w i(1) exited_state(2) [of i c ini pt] by (auto simp: wait_ok_def)
  qed
  ultimately show ?thesis using w k(1) by (auto simp: wait_ok_def exited_fields(2,3))
qed

text \<open>Changes of one process that cannot make a sleeper's reason to sleep go away.\<close>

definition calm :: "proc \<Rightarrow> proc \<Rightarrow> bool" where
  "calm p q \<longleftrightarrow> p_parent q = p_parent p \<and> (p_state q = UNUSED \<longleftrightarrow> p_state p = UNUSED) \<and> (p_state q = ZOMBIE \<longleftrightarrow> p_state p = ZOMBIE) \<and>
     (p_state q = SLEEPING \<and> (\<exists>d. p_chan q = Some (ChanProc d)) \<longrightarrow>
       p_state p = SLEEPING \<and> p_chan q = p_chan p \<and> p_killed q = p_killed p)"

lemma calm_refl [simp]: "calm p p"
  by (simp add: calm_def)

lemma family_cong:
  assumes "\<And>i. p_parent (pt' i) = p_parent (pt i)" "\<And>i. p_state (pt' i) = UNUSED \<longleftrightarrow> p_state (pt i) = UNUSED"
    "\<And>i. p_state (pt' i) = ZOMBIE \<longleftrightarrow> p_state (pt i) = ZOMBIE"
  shows "family_ok ini pt' = family_ok ini pt"
  unfolding family_ok_def insert_iff empty_iff assms ..

lemma calm_inv:
  assumes c: "\<And>i. calm (pt i) (pt' i)" and inv: "family_ok ini pt" "\<And>c. in_wait c pt \<Longrightarrow> wait_ok c pt"
  shows "family_ok ini pt'" "in_wait d pt' \<Longrightarrow> wait_ok d pt'"
proof -
  have f: "p_parent (pt' i) = p_parent (pt i)" "p_state (pt' i) = UNUSED \<longleftrightarrow> p_state (pt i) = UNUSED"
    "p_state (pt' i) = ZOMBIE \<longleftrightarrow> p_state (pt i) = ZOMBIE" for i using c [of i] by (auto simp: calm_def)
  show "family_ok ini pt'" using inv(1) by (simp only: family_cong [of pt' pt, OF f])
  assume d: "in_wait d pt'"
  then have "in_wait d pt" "p_chan (pt' d) = p_chan (pt d)" "p_killed (pt' d) = p_killed (pt d)"
    using c [of d] by (auto simp: calm_def in_wait_def)
  then show "wait_ok d pt'" using inv(2) [of d] by (simp add: wait_ok_def f)
qed

lemma proc_invI:
  assumes "family_ok (initproc t) (ptable t)" "\<And>d. in_wait d (ptable t) \<Longrightarrow> wait_ok d (ptable t)"
  shows "proc_inv t"
  using assms by (simp add: proc_inv_def)

lemma calm_step:
  assumes "proc_inv s" "initproc t = initproc s" "\<And>i. calm (ptable s i) (ptable t i)"
  shows "proc_inv t"
  using calm_inv [of "ptable s" "ptable t" "initproc s"] assms by (auto simp: proc_inv_def)

text \<open>Operations that never put the caller to sleep.\<close>

named_theorems block_intros \<open>what never sleeps\<close>

definition no_block :: "('s, 'a) prog \<Rightarrow> bool" where
  "no_block m \<longleftrightarrow> (\<forall>s c t. m s \<noteq> Block c t)"

lemma no_block_base [block_intros]: "no_block (Done a)" "no_block (kget g)" "no_block (panic e)" "no_block (kfault e)" "no_block (kmodify h)"
  by (simp_all add: no_block_def)

lemma no_block_bind [block_intros]: "no_block m \<Longrightarrow> (\<And>a. no_block (k a)) \<Longrightarrow> no_block (kbind m k)"
  by (fastforce simp: no_block_def kbind_def split: outcome.splits)

lemma no_block_then [block_intros]: "no_block m \<Longrightarrow> no_block k \<Longrightarrow> no_block (kthen m k)"
  by (simp add: kthen_def no_block_bind)

lemma no_block_when [block_intros]: "no_block m \<Longrightarrow> no_block (kwhen b m)"
  by (simp add: kwhen_def no_block_base)

lemma no_block_if [block_intros]: "no_block m \<Longrightarrow> no_block k \<Longrightarrow> no_block (if b then m else k)"
  by simp

lemma no_block_for [block_intros]: "(\<And>x. no_block (m x)) \<Longrightarrow> no_block (kfor xs m)"
  by (induction xs) (simp_all add: no_block_base no_block_then)

lemma no_block_mem [block_intros]: "no_block (kfree p)" "no_block (walkpgdir d a False)"
  unfolding kfree_def walkpgdir_def load32_def Let_def kreturn_eq_Done by (simp_all add: block_intros)

lemma no_block_dealloc [block_intros]: "no_block (deallocuvm_loop d a old :: ('z kmm_scheme, unit) prog)"
proof (induction d a old rule: deallocuvm_loop.induct)
  case (1 d a old)
  have "no_block (dealloc_page d a :: ('z kmm_scheme, addr) prog)"
    unfolding dealloc_page_def load32_def store32_def kreturn_eq_Done by (intro block_intros)
  moreover have "no_block (if nxt \<le> a then kfault ''deallocuvm'' else deallocuvm_loop d nxt old :: ('z kmm_scheme, unit) prog)"
    if "a < old" for nxt
    using 1 [OF that] by (cases "nxt \<le> a") (simp_all add: no_block_base)
  ultimately show ?case
    by (subst deallocuvm_loop.simps) (auto intro: no_block_bind no_block_base)
qed

lemma no_block_reap: "no_block (reap i)"
  unfolding reap_def freevm_def deallocuvm_def load32_def kreturn_eq_Done by (intro block_intros)

lemma wait_Block:
  assumes "wait s = Block ch t" "cpu_proc s = Some c"
  shows "t = upd_proc c (\<lambda>q. q\<lparr>p_chan := Some (ChanProc c), p_state := SLEEPING\<rparr>) s" "\<not> p_killed (ptable s c)"
    "\<exists>i<NPROC. p_parent (ptable s i) = Some c"
    "\<forall>i<NPROC. p_parent (ptable s i) = Some c \<longrightarrow> p_state (ptable s i) \<noteq> ZOMBIE"
proof -
  have rp: "reap i s \<noteq> Block ch t" for i using no_block_reap [of i] by (auto simp: no_block_def)
  show "t = upd_proc c (\<lambda>q. q\<lparr>p_chan := Some (ChanProc c), p_state := SLEEPING\<rparr>) s" "\<not> p_killed (ptable s c)"
    "\<exists>i<NPROC. p_parent (ptable s i) = Some c"
    "\<forall>i<NPROC. p_parent (ptable s i) = Some c \<longrightarrow> p_state (ptable s i) \<noteq> ZOMBIE"
    using assms rp
    by (auto simp: wait_def with_curproc_eq sleep_def myproc_def find_None_iff list_ex_iff split: option.splits if_splits)
qed

lemma reap_Done:
  assumes "reap i s = Done r t"
  shows "\<exists>q. ptable t = (ptable s)(i := q) \<and> p_state q = UNUSED \<and> p_parent q = None" "initproc t = initproc s"
    "r = sint (p_pid (ptable s i))"
proof -
  obtain u v where u: "kfree (p_kstack (ptable s i)) s = Done () u"
    and v: "freevm (p_pgdir (ptable s i)) (upd_proc i (\<lambda>q. q\<lparr>p_kstack := 0\<rparr>) u) = Done () v"
    and t: "t = upd_proc i (\<lambda>q. q\<lparr>p_pid := 0, p_parent := None, p_name := (p_name q)[0 := 0], p_killed := False, p_state := UNUSED\<rparr>) v"
    and r: "r = sint (p_pid (ptable s i))"
    using assms by (auto simp: reap_def kthen_eq_Done)
  have "ptable u = ptable s" "initproc u = initproc s" using framesD [OF frames_mem(2) u] beyond_mem_proc by metis+
  moreover have "ptable v = ptable (upd_proc i (\<lambda>q. q\<lparr>p_kstack := 0\<rparr>) u)" "initproc v = initproc (upd_proc i (\<lambda>q. q\<lparr>p_kstack := 0\<rparr>) u)"
    using framesD [OF frames_vm(1) v] beyond_mem_proc by metis+
  ultimately show "\<exists>q. ptable t = (ptable s)(i := q) \<and> p_state q = UNUSED \<and> p_parent q = None" "initproc t = initproc s"
    "r = sint (p_pid (ptable s i))"
    using t r by auto
qed

lemma wait_Done:
  assumes "wait s = Done r t" "cpu_proc s = Some c"
  obtains (none) "r = -1" "t = s" | (child) i where "i < NPROC" "p_parent (ptable s i) = Some c" "p_state (ptable s i) = ZOMBIE" "reap i s = Done r t"
proof (cases "find (\<lambda>i. p_parent (ptable s i) = Some c \<and> p_state (ptable s i) = ZOMBIE) [0..<NPROC]")
  case None
  then show ?thesis using assms none by (auto simp: wait_def with_curproc_eq sleep_def myproc_def split: if_splits)
next
  case (Some i)
  then show ?thesis using assms child [of i] find_Some_sat [OF Some] by (auto simp: wait_def with_curproc_eq)
qed

lemma in_wait_upd:
  assumes inv: "\<And>c. in_wait c pt \<Longrightarrow> wait_ok c pt"
    and q: "\<not> in_wait i (pt(i := q))" "\<And>d. in_wait d pt \<Longrightarrow> p_parent (pt i) \<noteq> Some d" "\<And>d. in_wait d pt \<Longrightarrow> p_parent q \<noteq> Some d"
    and d: "in_wait d (pt(i := q))"
  shows "wait_ok d (pt(i := q))"
proof -
  have di: "d \<noteq> i" using d q(1) by auto
  then have "in_wait d pt" using d by (simp add: in_wait_def)
  then have w: "wait_ok d pt" and n: "p_parent (pt i) \<noteq> Some d" "p_parent q \<noteq> Some d" using inv q by blast+
  obtain k where "k < NPROC" "p_parent (pt k) = Some d" using w by (auto simp: wait_ok_def)
  moreover from this n have "k \<noteq> i" by auto
  ultimately show ?thesis using w n di by (auto simp: wait_ok_def)
qed

lemma same_procs_calm: "same_procs pt pt' \<Longrightarrow> calm (pt i) (pt' i)"
  by (drule spec [of _ i, OF iffD1 [OF same_procs_def]]) (auto simp: calm_def)

lemma family_upd:
  assumes f: "family_ok ini pt" and i: "ini \<noteq> Some i" "p_state q = UNUSED \<Longrightarrow> p_parent q = None" "p_parent q \<noteq> Some i"
    and par: "\<And>c. p_parent q = Some c \<Longrightarrow> c < NPROC \<and> p_state (pt c) \<notin> {UNUSED, ZOMBIE}"
    and kids: "\<And>j. j < NPROC \<Longrightarrow> p_parent (pt j) = Some i \<Longrightarrow> p_state q \<notin> {UNUSED, ZOMBIE}"
  shows "family_ok ini (pt(i := q))"
proof -
  obtain k where k: "k < NPROC" "ini = Some k" "p_parent (pt k) = None" "p_state (pt k) \<notin> {UNUSED, ZOMBIE}"
    and u: "\<And>i. p_state (pt i) = UNUSED \<Longrightarrow> p_parent (pt i) = None" and n: "\<And>i. p_parent (pt i) \<noteq> Some i"
    and l: "\<And>i c. i < NPROC \<Longrightarrow> p_parent (pt i) = Some c \<Longrightarrow> c < NPROC \<and> p_state (pt c) \<notin> {UNUSED, ZOMBIE}"
    using f unfolding family_ok_def by blast
  have "c < NPROC \<and> p_state ((pt(i := q)) c) \<notin> {UNUSED, ZOMBIE}" if "j < NPROC" "p_parent ((pt(i := q)) j) = Some c" for j c
  proof (cases "j = i")
    case True
    then have "p_parent q = Some c" using that by simp
    moreover from this i(3) have "c \<noteq> i" by auto
    ultimately show ?thesis using par by simp
  next
    case False
    then show ?thesis using that l [of j c] kids [of j] by (cases "c = i") auto
  qed
  moreover have "p_parent ((pt(i := q)) j) = None" if "p_state ((pt(i := q)) j) = UNUSED" for j
    using that u [of j] i(2) by (cases "j = i") auto
  moreover have "p_parent ((pt(i := q)) j) \<noteq> Some j" for j using n [of j] i(3) by simp
  moreover have "k \<noteq> i" using k(2) i(1) by simp
  then have "p_parent ((pt(i := q)) k) = None" "p_state ((pt(i := q)) k) \<notin> {UNUSED, ZOMBIE}" using k(3,4) by simp_all
  ultimately show ?thesis unfolding family_ok_def using k(1,2) by blast
qed

lemma family_okD:
  assumes "family_ok ini pt"
  shows "p_state (pt i) = UNUSED \<Longrightarrow> p_parent (pt i) = None" "p_parent (pt i) \<noteq> Some i"
    "i < NPROC \<Longrightarrow> p_parent (pt i) = Some c \<Longrightarrow> c < NPROC \<and> p_state (pt c) \<notin> {UNUSED, ZOMBIE}"
    "ini = Some k \<Longrightarrow> p_parent (pt k) = None \<and> p_state (pt k) \<notin> {UNUSED, ZOMBIE}"
  using assms unfolding family_ok_def by blast+

lemma inv_fork:
  assumes inv: "proc_inv s" and i: "runs_in i s" and run: "fork (s\<lparr>cpu_proc := Some i\<rparr>) = Done r t"
  shows "proc_inv t"
proof -
  have f: "family_ok (initproc s) (ptable s)" and w: "\<And>c. in_wait c (ptable s) \<Longrightarrow> wait_ok c (ptable s)"
    using inv by (auto simp: proc_inv_def)
  have "cpu_proc (s\<lparr>cpu_proc := Some i\<rparr>) = Some i" "p_state (ptable (s\<lparr>cpu_proc := Some i\<rparr>) i) \<noteq> UNUSED"
    using i by (simp_all add: runs_in_def)
  from run this show ?thesis
  proof (cases rule: fork_Done)
    case failed
    then show ?thesis by (intro calm_step [OF inv] same_procs_calm) simp_all
  next
    case (child np q ip)
    have q: "p_state q = RUNNABLE" "p_parent q = Some i" using child by (auto simp: forked_def)
    have ni: "np \<noteq> i" "\<not> in_wait i (ptable s)" using child i by (auto simp: runs_in_def in_wait_def)
    have u: "p_parent (ptable s np) = None" using family_okD(1) [OF f, of np] child by simp
    show ?thesis
    proof (rule proc_invI)
      have ri: "p_state (ptable s i) = RUNNING" "i < NPROC" using i by (auto simp: runs_in_def)
      have np: "p_state (ptable s np) = UNUSED" "ptable t = (ptable s)(np := q)" "initproc t = initproc s" using child by auto
      have "initproc s \<noteq> Some np" using family_okD(4) [OF f, of np] np(1) by auto
      then show "family_ok (initproc t) (ptable t)" unfolding np(2,3)
        by (intro family_upd [OF f]) (use q ri ni in auto)
      show "wait_ok d (ptable t)" if "in_wait d (ptable t)" for d
      proof -
        have "\<not> in_wait np ((ptable s)(np := q))" using q by (simp add: in_wait_def)
        then show ?thesis using that unfolding np(2) by (intro in_wait_upd [OF w]) (use u q ni in auto)
      qed
    qed
  qed
qed

lemma inv_reap:
  assumes inv: "proc_inv s" and i: "runs_in i s" and run: "wait (s\<lparr>cpu_proc := Some i\<rparr>) = Done r t"
  shows "proc_inv t"
proof -
  have f: "family_ok (initproc s) (ptable s)" and w: "\<And>c. in_wait c (ptable s) \<Longrightarrow> wait_ok c (ptable s)"
    using inv by (auto simp: proc_inv_def)
  have "cpu_proc (s\<lparr>cpu_proc := Some i\<rparr>) = Some i" by simp
  with run show ?thesis
  proof (cases rule: wait_Done)
    case none
    then show ?thesis using inv by (simp add: proc_inv_def)
  next
    case (child k)
    then obtain q where q: "ptable t = (ptable s)(k := q)" "p_state q = UNUSED" "p_parent q = None" "initproc t = initproc s"
      using reap_Done [of k "s\<lparr>cpu_proc := Some i\<rparr>" r t] by auto
    have ni: "\<not> in_wait i (ptable s)" using i by (auto simp: runs_in_def in_wait_def)
    show ?thesis
    proof (rule proc_invI)
      have "p_parent (ptable s j) \<noteq> Some k" if "j < NPROC" for j using family_okD(3) [OF f that] child by auto
      moreover have "initproc s \<noteq> Some k" using family_okD(4) [OF f] child by auto
      ultimately show "family_ok (initproc t) (ptable t)" unfolding q(1,4) using f q by (intro family_upd) auto
      show "wait_ok d (ptable t)" if "in_wait d (ptable t)" for d
      proof -
        have "\<not> in_wait k ((ptable s)(k := q))" using q by (simp add: in_wait_def)
        then show ?thesis using that unfolding q(1) by (intro in_wait_upd [OF w]) (use q ni child in auto)
      qed
    qed
  qed
qed

lemma inv_wait:
  assumes inv: "proc_inv s" and i: "runs_in i s" and run: "wait (s\<lparr>cpu_proc := Some i\<rparr>) = Block c t"
  shows "proc_inv t"
proof -
  have f: "family_ok (initproc s) (ptable s)" and w: "\<And>c. in_wait c (ptable s) \<Longrightarrow> wait_ok c (ptable s)"
    using inv by (auto simp: proc_inv_def)
  note b = wait_Block [OF run, simplified]
  let ?q = "(ptable s i)\<lparr>p_chan := Some (ChanProc i), p_state := SLEEPING\<rparr>"
  have t: "ptable t = (ptable s)(i := ?q)" "initproc t = initproc s" using b by (auto simp: upd_proc_def)
  have st: "i < NPROC" "p_state (ptable s i) = RUNNING" using i by (auto simp: runs_in_def)
  show ?thesis
  proof (rule proc_invI)
    have "family_ok (initproc s) (ptable t) = family_ok (initproc s) (ptable s)"
      using st by (intro family_cong) (simp_all add: t)
    then show "family_ok (initproc t) (ptable t)" using f by (simp add: t)
    show "wait_ok d (ptable t)" if d: "in_wait d (ptable t)" for d
    proof (cases "d = i")
      case True
      then show ?thesis using b st by (auto simp: wait_ok_def t)
    next
      case False
      then have "wait_ok d (ptable s)" using d w by (simp add: in_wait_def t)
      then show ?thesis using st False by (auto simp: wait_ok_def t)
    qed
  qed
qed

lemma inv_exit:
  assumes "proc_inv s" "runs_in i s" "initproc s \<noteq> Some i" and "exit_zombie i (s\<lparr>cpu_proc := Some i\<rparr>) = Done () t"
  shows "proc_inv t"
proof -
  have t: "ptable t = exited i (initproc s) (ptable s)" "initproc t = initproc s" using assms(4) by (auto simp: exit_zombie_eq)
  show ?thesis
    by (rule proc_invI; unfold t) (use assms in \<open>auto simp: proc_inv_def runs_in_def intro: exit_family exit_inv\<close>)
qed

lemma inv_kill:
  assumes "proc_inv s" "kill pid s = Done r t"
  shows "proc_inv t"
proof (cases "find (\<lambda>i. p_pid (ptable s i) = pid) [0..<NPROC]")
  case None
  then show ?thesis using assms by (simp add: kill_def)
next
  case (Some i)
  then show ?thesis using assms
    by (intro calm_step [OF assms(1)]) (auto simp: kill_def kwhen_def kthen_def kbind_def calm_def split: if_splits)
qed

lemma inv_calm:
  "proc_inv s \<Longrightarrow> wakeup c s = Done () t \<Longrightarrow> proc_inv t"
  "proc_inv s \<Longrightarrow> p_state (ptable s i) = RUNNABLE \<Longrightarrow> sched_in i s = Done () t \<Longrightarrow> proc_inv t"
  "proc_inv s \<Longrightarrow> runs_in i s \<Longrightarrow> yield (s\<lparr>cpu_proc := Some i\<rparr>) = Done () t \<Longrightarrow> proc_inv t"
  "proc_inv s \<Longrightarrow> runs_in i s \<Longrightarrow> (\<And>j. c \<noteq> ChanProc j) \<Longrightarrow> sleep c (s\<lparr>cpu_proc := Some i\<rparr>) = (Block c t :: (unit, kfile) outcome) \<Longrightarrow> proc_inv t"
  "proc_inv s \<Longrightarrow> initproc t = initproc s \<Longrightarrow> (\<And>i. same_status (ptable s i) (ptable t i)) \<Longrightarrow> proc_inv t"
  subgoal by (erule calm_step) (auto simp: wakeup_eq calm_def split: if_splits)
  subgoal by (erule calm_step) (auto simp: sched_in_def switchuvm_def kbind_def kthen_def calm_def split: if_splits)
  subgoal by (erule calm_step) (auto simp: yield_def sched_def with_curproc_eq kthen_def kbind_def calm_def runs_in_def split: if_splits)
  subgoal by (erule calm_step) (auto simp: sleep_def myproc_def calm_def runs_in_def split: if_splits)
  subgoal by (erule calm_step) (auto simp: same_status_def calm_def)
  done

interpretation pw: safe_system proc_initial proc_step proc_inv
proof
  show "proc_inv s" if init: "proc_initial s" for s
  proof -
    obtain ini where i: "ini < NPROC" "initproc s = Some ini" "p_state (ptable s ini) = RUNNABLE" "p_parent (ptable s ini) = None"
      "\<And>j. j \<noteq> ini \<Longrightarrow> ptable s j = proc_zero" using init by (auto simp: proc_initial_def)
    then have "p_parent (ptable s j) = None" "p_state (ptable s j) \<noteq> SLEEPING" for j by (cases "j = ini"; simp)+
    then show ?thesis using i by (auto simp: proc_inv_def family_ok_def in_wait_def)
  qed
  show "proc_inv t" if "proc_inv s" "proc_step s t" for s t
    using that(2,1) by (cases rule: proc_step.cases) (blast intro: inv_fork inv_exit inv_reap inv_wait inv_kill inv_calm)+
qed

text \<open>
  C21: exit() and wait() keep the process tree and lose no wakeup. In every interleaving of fork(),
  exit(), wait(), kill(), sleep, wakeup and scheduling, a process asleep in wait() sleeps on its
  own slot, has not been killed, has a child and has no zombie child to reap; and the parent of
  every process in the table is neither unused nor a zombie, so every zombie has somebody to wait for it.
\<close>

theorem exit_wait_no_lost_wakeup:
  assumes "reachable proc_initial proc_step s"
  shows "(p_state (ptable s c) = SLEEPING \<and> p_chan (ptable s c) = Some (ChanProc d) \<longrightarrow>
      d = c \<and> \<not> p_killed (ptable s c) \<and> (\<exists>i<NPROC. p_parent (ptable s i) = Some c) \<and>
      (\<forall>i<NPROC. p_parent (ptable s i) = Some c \<longrightarrow> p_state (ptable s i) \<noteq> ZOMBIE)) \<and>
    (\<forall>i<NPROC. p_parent (ptable s i) = Some c \<longrightarrow> p_state (ptable s c) \<notin> {UNUSED, ZOMBIE})"
proof -
  have inv: "proc_inv s" using assms by (rule pw.reachable_inv)
  then have "wait_ok c (ptable s)" if "in_wait c (ptable s)" using that by (simp add: proc_inv_def)
  moreover have "family_ok (initproc s) (ptable s)" using inv by (simp add: proc_inv_def)
  ultimately show ?thesis by (auto simp: in_wait_def wait_ok_def dest: family_okD(3))
qed

definition proc_demo :: kfile where
  "proc_demo = kmm.extend (kmm_demo\<lparr>ptable := (\<lambda>_. proc_zero)(0 := proc_zero\<lparr>p_state := RUNNABLE, p_pid := 1, p_kstack := 0x80300000,
     p_pgdir := 0x80200000\<rparr>), nextpid := 2, initproc := Some 0, kmem_freelist := 0x80400000\<rparr>) \<lparr>ftable = undefined, pipes = undefined\<rparr>"

lemma proc_demo_sel [simp]:
  "ptable proc_demo = (\<lambda>_. proc_zero)(0 := proc_zero\<lparr>p_state := RUNNABLE, p_pid := 1, p_kstack := 0x80300000, p_pgdir := 0x80200000\<rparr>)"
  "initproc proc_demo = Some 0" "kmem_freelist proc_demo = 0x80400000" "cpu_proc proc_demo = None" "nextpid proc_demo = 2"
  by (simp_all add: proc_demo_def kmm.defs kmm_demo_def)

theorem exit_wait_no_lost_wakeup_witness:
  "\<exists>s. reachable proc_initial proc_step s \<and> p_state (ptable s 0) = RUNNING \<and> (\<forall>i<NPROC. p_parent (ptable s i) = Some 0 \<longrightarrow> p_state (ptable s 0) \<notin> {UNUSED, ZOMBIE})"
proof -
  have "proc_initial proc_demo" by (auto simp: proc_initial_def NPROC_def)
  then have r: "reachable proc_initial proc_step proc_demo" by (rule reachable.start)
  obtain t where t: "sched_in 0 proc_demo = Done () t" "p_state (ptable t 0) = RUNNING"
    by (simp add: sched_in_def switchuvm_def)
  then have "proc_step proc_demo t" by (intro proc_step.switch [of 0]) (simp_all add: NPROC_def)
  with r have "reachable proc_initial proc_step t" by (rule reachable.step)
  then show ?thesis using t(2) exit_wait_no_lost_wakeup [of t 0 0] by blast
qed

section \<open>The scheduler\<close>

text \<open>Processes that may be chosen have what switchuvm() needs.\<close>

definition sched_ready :: "(nat \<Rightarrow> proc) \<Rightarrow> bool" where
  "sched_ready pt \<longleftrightarrow> (\<forall>i. p_state (pt i) \<in> {RUNNABLE, RUNNING} \<longrightarrow> p_kstack (pt i) \<noteq> 0 \<and> p_pgdir (pt i) \<noteq> 0)"

text \<open>
  A process that has the CPU gives it back after a while. What it and the other CPUs do meanwhile is
  arbitrary, but that they keep the invariant \<open>sched_ready\<close>.
\<close>

definition gives_back :: "(nat \<Rightarrow> ('z kmm_scheme, unit) prog) \<Rightarrow> bool" where
  "gives_back run \<longleftrightarrow> (\<forall>i s. cpu_proc s = Some i \<and> p_state (ptable s i) = RUNNING \<and> sched_ready (ptable s) \<longrightarrow>
     wp (run i) (\<lambda>_ t. sched_ready (ptable t)) s)"

text \<open>
  \<open>vs j\<close> is the process table when the scan of a round reaches entry \<open>j\<close>. The scan goes on at
  once from an entry that is not runnable, and otherwise after the process has run.
\<close>

definition runnable :: "(nat \<Rightarrow> proc) \<Rightarrow> nat \<Rightarrow> bool" where
  "runnable pt j \<longleftrightarrow> p_state (pt j) = RUNNABLE"

definition scanned :: "(nat \<Rightarrow> ('z kmm_scheme, unit) prog) \<Rightarrow> nat set \<Rightarrow> (nat \<Rightarrow> nat \<Rightarrow> proc) \<Rightarrow> nat \<Rightarrow> bool" where
  "scanned run A vs j \<longleftrightarrow> (j \<in> A \<longleftrightarrow> runnable (vs j) j) \<and>
     (if j \<in> A then \<exists>u v. cpu_proc u = Some j \<and> ptable u = (vs j)(j := (vs j j)\<lparr>p_state := RUNNING\<rparr>) \<and>
        run j u = Done () v \<and> ptable v = vs (Suc j)
      else vs (Suc j) = vs j)"

lemma sched_in_eq:
  assumes "p_kstack (ptable s i) \<noteq> 0" "p_pgdir (ptable s i) \<noteq> 0"
  shows "\<exists>t. sched_in i s = Done () t \<and> cpu_proc t = Some i \<and> ptable t = (ptable s)(i := (ptable s i)\<lparr>p_state := RUNNING\<rparr>)"
  using assms by (simp add: sched_in_def switchuvm_def kbind_def kthen_def upd_proc_def)

lemma scanned_cong: "(\<And>k. k \<ge> j \<Longrightarrow> vs k = ws k) \<Longrightarrow> (j \<in> A \<longleftrightarrow> j \<in> B) \<Longrightarrow> scanned run A vs j = scanned run B ws j"
  by (simp add: scanned_def)

lemma sched_step:
  assumes run: "gives_back run" and s: "sched_ready (ptable s)" "runnable (ptable s) i"
  obtains u v t where "sched_in i s = Done () u" "cpu_proc u = Some i" "ptable u = (ptable s)(i := (ptable s i)\<lparr>p_state := RUNNING\<rparr>)"
    "run i u = Done () v" "sched_ready (ptable v)" "sched_out v = Done () t" "ptable t = ptable v"
proof -
  have "p_kstack (ptable s i) \<noteq> 0" "p_pgdir (ptable s i) \<noteq> 0" using s by (auto simp: sched_ready_def runnable_def)
  then obtain u where u: "sched_in i s = Done () u" "cpu_proc u = Some i" "ptable u = (ptable s)(i := (ptable s i)\<lparr>p_state := RUNNING\<rparr>)"
    using sched_in_eq by blast
  have "sched_ready (ptable u)" "p_state (ptable u i) = RUNNING" using s u(3) by (auto simp: sched_ready_def runnable_def)
  then have "wp (run i) (\<lambda>_ t. sched_ready (ptable t)) u" using run u(2) unfolding gives_back_def by blast
  then obtain v where v: "run i u = Done () v" "sched_ready (ptable v)" by (auto simp: wp_iff)
  moreover obtain t where "sched_out v = Done () t" "ptable t = ptable v" by (simp add: sched_out_def switchkvm_def)
  ultimately show ?thesis using u that by blast
qed

lemma sched_round_scan:
  assumes run: "gives_back run" and "sched_ready (ptable s)" "a \<le> b"
  shows "\<exists>ran t vs. sched_round run [a..<b] s = Done ran t \<and> sched_ready (ptable t) \<and> sorted_wrt (<) ran \<and> set ran \<subseteq> {a..<b} \<and>
    vs a = ptable s \<and> vs b = ptable t \<and> (\<forall>j\<in>{a..<b}. scanned run (set ran) vs j)"
  using assms(2,3)
proof (induction "b - a" arbitrary: a s)
  case 0
  then show ?case by (auto intro!: exI [of _ "\<lambda>_. ptable s"])
next
  case (Suc n)
  then have ab: "a < b" "n = b - Suc a" "[a..<b] = a # [Suc a..<b]" by (auto simp: upt_conv_Cons)
  show ?case
  proof (cases "runnable (ptable s) a")
    case False
    obtain ran t vs where r: "sched_round run [Suc a..<b] s = Done ran t" "sched_ready (ptable t)" "sorted_wrt (<) ran" "set ran \<subseteq> {Suc a..<b}"
      "vs (Suc a) = ptable s" "vs b = ptable t" "\<forall>j\<in>{Suc a..<b}. scanned run (set ran) vs j"
      using Suc.hyps(1) [OF ab(2) Suc.prems(1)] ab(1) by auto
    let ?vs = "vs(a := ptable s)"
    have "scanned run (set ran) ?vs a" using r(4,5) False by (auto simp: scanned_def)
    moreover have "scanned run (set ran) ?vs j" if "j \<in> {Suc a..<b}" for j
      using r(7) that scanned_cong [of j vs ?vs "set ran" "set ran" run] by auto
    moreover have "j = a \<or> j \<in> {Suc a..<b}" if "j \<in> {a..<b}" for j using that by auto
    ultimately have "\<forall>j\<in>{a..<b}. scanned run (set ran) ?vs j" by blast
    moreover have "sched_round run [a..<b] s = Done ran t" using ab(3) False r(1) by (simp add: runnable_def)
    ultimately show ?thesis using r(2-4,6) ab(1) by (intro exI [of _ ran] exI [of _ t] exI [of _ ?vs]) auto
  next
    case True
    obtain u v s' where c: "sched_in a s = Done () u" "cpu_proc u = Some a" "ptable u = (ptable s)(a := (ptable s a)\<lparr>p_state := RUNNING\<rparr>)"
      "run a u = Done () v" "sched_ready (ptable v)" "sched_out v = Done () s'" "ptable s' = ptable v"
      by (rule sched_step [OF run Suc.prems(1) True])
    obtain ran t vs where r: "sched_round run [Suc a..<b] s' = Done ran t" "sched_ready (ptable t)" "sorted_wrt (<) ran" "set ran \<subseteq> {Suc a..<b}"
      "vs (Suc a) = ptable s'" "vs b = ptable t" "\<forall>j\<in>{Suc a..<b}. scanned run (set ran) vs j"
      using Suc.hyps(1) [OF ab(2), of s'] c(5,7) ab(1) by auto
    let ?vs = "vs(a := ptable s)" and ?ran = "a # ran"
    have "scanned run (set ?ran) ?vs a" using c r(5) True by (auto simp: scanned_def)
    moreover have "scanned run (set ?ran) ?vs j" if "j \<in> {Suc a..<b}" for j
      using r(7) that scanned_cong [of j vs ?vs "set ran" "set ?ran" run] by auto
    moreover have "j = a \<or> j \<in> {Suc a..<b}" if "j \<in> {a..<b}" for j using that by auto
    ultimately have "\<forall>j\<in>{a..<b}. scanned run (set ?ran) ?vs j" by blast
    moreover have "sched_round run [a..<b] s = Done ?ran t"
      using ab(3) True c(1,4,6) r(1) by (simp add: runnable_def kthen_Done kbind_Done)
    moreover have "sorted_wrt (<) ?ran" using r(3,4) by auto
    ultimately show ?thesis using r(2,4,6) ab(1) by (intro exI [of _ ?ran] exI [of _ t] exI [of _ ?vs]) auto
  qed
qed

text \<open>A process that is runnable at first and not when the scan reaches it changed while an earlier one ran.\<close>

lemma scan_taken:
  assumes "\<forall>j<n. scanned run A vs j" "runnable (vs 0) j" "\<not> runnable (vs i) j" "i \<le> n"
  shows "\<exists>k<i. k \<in> A \<and> runnable (vs k) j \<and> \<not> runnable (vs (Suc k)) j"
  using assms(3,4)
proof (induction i)
  case (Suc i)
  show ?case
  proof (cases "runnable (vs i) j")
    case True
    then have "vs (Suc i) \<noteq> vs i" using Suc.prems by auto
    moreover have "scanned run A vs i" using assms(1) Suc.prems(2) by simp
    ultimately have "i \<in> A" by (simp add: scanned_def split: if_splits)
    then show ?thesis using True Suc.prems(1) by blast
  qed (use Suc in \<open>auto intro: less_SucI\<close>)
qed (use assms(2) in simp)

text \<open>
  C23: The scheduler is fair. Let every process that gets the CPU give it back, in a system that keeps the
  invariant that a runnable process has a kernel stack and a page table; what the process, and other
  CPUs with their own schedulers, do to the table meanwhile is arbitrary. Then each round of scheduler() ends. It
  visits the entries in order and gives the CPU to exactly those that are runnable when
  it reaches them. So a process that was runnable when the round began has run in it, unless it
  stopped being runnable while a process before it in the table had the CPU, as when another CPU has taken it.
\<close>

theorem scheduler_fair:
  assumes "gives_back run" and "sched_ready (ptable s)"
  shows "wp (scheduler_round run) (\<lambda>ran t. \<exists>vs. sorted_wrt (<) ran \<and> set ran \<subseteq> {..<NPROC} \<and> vs 0 = ptable s \<and> vs NPROC = ptable t \<and>
    (\<forall>j<NPROC. scanned run (set ran) vs j \<and>
      (runnable (ptable s) j \<longrightarrow> j \<in> set ran \<or> (\<exists>k<j. k \<in> set ran \<and> runnable (vs k) j \<and> \<not> runnable (vs (Suc k)) j)))) s"
proof -
  obtain ran t vs where r: "sched_round run [0..<NPROC] s = Done ran t" "sorted_wrt (<) ran" "set ran \<subseteq> {0..<NPROC}"
    "vs 0 = ptable s" "vs NPROC = ptable t" "\<forall>j\<in>{0..<NPROC}. scanned run (set ran) vs j"
    using sched_round_scan [OF assms, of 0 NPROC] by auto
  have sc: "\<forall>j<NPROC. scanned run (set ran) vs j" using r(6) by simp
  have "\<exists>k<j. k \<in> set ran \<and> runnable (vs k) j \<and> \<not> runnable (vs (Suc k)) j" if "j < NPROC" "runnable (ptable s) j" "j \<notin> set ran" for j
    using scan_taken [OF sc, of j j] that r(4) sc by (auto simp: scanned_def)
  then show ?thesis unfolding scheduler_round_def
    using r(2-5) sc by (intro wpI [of "sched_round run [0..<NPROC]", OF r(1)] exI [of _ vs]) (auto simp: lessThan_atLeast0)
qed

theorem scheduler_fair_witness:
  "wp (scheduler_round (\<lambda>_. yield)) (\<lambda>ran _. 0 \<in> set ran) proc_demo"
proof -
  have g: "gives_back (\<lambda>_. yield :: (kfile, unit) prog)"
    by (auto simp: gives_back_def yield_def sched_def sched_ready_def)
  have "sched_ready (ptable proc_demo)" by (simp add: sched_ready_def)
  from scheduler_fair [OF g this] show ?thesis
    by (rule wp_mono) (auto simp: NPROC_def runnable_def dest!: spec [of _ 0])
qed

end
