(* ===== verification/VmFork.thy ===== *)
theory VmFork
  imports VmSpec
begin

text \<open>
  The address spaces that setupkvm() and copyuvm() build: every page directory maps the kernel
  in the same way, and the copy that fork() makes has the contents and the permissions of the
  original in pages of its own.
\<close>

section \<open>Free pages and page tables\<close>

lemma good_range:
  assumes "good_page e p"
  shows "unat p + 4096 \<le> 0x8E000000" "p \<noteq> 0" "p mod PGSIZE = 0"
proof -
  obtain k where k: "unat p = 4096 * k" using assms by (auto simp: good_page_def aligned_iff)
  have "V2P p < PHYSTOP" using assms by (simp add: good_page_def)
  then have "unat (p - 0x80000000) < 0xE000000" by (simp add: V2P_def KERNBASE_def PHYSTOP_def word_less_nat_alt)
  then have "unat p < 0x8E000000" by (simp add: unat_sub_if' split: if_splits)
  then show "unat p + 4096 \<le> 0x8E000000" using k by simp
  show "p \<noteq> 0" "p mod PGSIZE = 0" using assms by (simp_all add: good_page_def)
qed

lemma mappages_ok:
  assumes "vm_ok s d ps" "va mod PGSIZE = 0" "0 < n" "n < 2 ^ 20" "unat va + 4096 * n \<le> 2 ^ 32"
    and need: "card (absents (mem s) d) \<le> length ps \<or> n = 1 \<and> ps \<noteq> []"
    and np: "\<And>x. x \<in> va_range va n \<Longrightarrow> \<not> present (vm_entry (mem s) d x)"
  obtains t qs where "mappages d va (of_nat (4096 * n)) pa perm s = Done 0 t" "vm_steps d s ps t qs"
    "length ps + card (absents (mem t) d) = length qs + card (absents (mem s) d)"
    "\<And>x. vm_entry (mem t) d x = (if x \<in> va_range va n then (pa + (PGROUNDDOWN x - va)) OR perm OR PTE_P else vm_entry (mem s) d x)"
proof -
  have "tables_needed (mem s) d va n \<le> length ps"
    using need tables_needed_absents [of "mem s" d va n] tables_needed_one [OF assms(2), of "mem s" d] assms(5) by (cases ps) auto
  then show ?thesis
    using mappages_loop_spec [OF assms(1,2,5) _ np, of pa perm] mappages_count [OF assms(2-5)] that by metis
qed

text \<open>A zeroed page is an empty page directory.\<close>

lemma fresh_dir:
  assumes "free_list s (p # ps)"
  defines "t \<equiv> s\<lparr>kmem_freelist := rd32 (mem s) p, mem := memset (mem s) p 0 PGSIZE\<rparr>"
  shows "vm_ok t p ps" "vm_entry (mem t) p va = 0" "card (absents (mem t) p) \<le> 1024" "vm_pages (mem t) p = {p}"
    "\<And>q x. q mod PGSIZE = 0 \<Longrightarrow> q \<noteq> p \<Longrightarrow> x \<in> span q 4096 \<Longrightarrow> mem t x = mem s x"
proof -
  have p: "good_page (k_end s) p" "p \<notin> set ps" "p mod PGSIZE = 0" using assms(1) by (auto simp: free_list_def good_page_def)
  have np: "\<not> present (pde (mem t) p i)" if "unat i < 1024" for i
    using memset_entry [OF p(3) that] by (simp add: t_def pde_def present_def)
  show fr: "mem t x = mem s x" if "q mod PGSIZE = 0" "q \<noteq> p" "x \<in> span q 4096" for q x
    using memset_page [OF p(3) that] by (simp add: t_def)
  have "free_list (s\<lparr>kmem_freelist := rd32 (mem s) p\<rparr>) ps" by (rule kalloc_page(2) [OF assms(1)])
  then have "free_list t ps"
  proof (rule free_list_frame)
    fix q x assume q: "q \<in> set ps" "x \<in> span q 4096"
    then have "q mod PGSIZE = 0" "q \<noteq> p" using assms(1) p(2) by (auto simp: free_list_def good_page_def)
    then show "mem t x = mem (s\<lparr>kmem_freelist := rd32 (mem s) p\<rparr>) x" using fr q(2) by simp
  qed (simp_all add: t_def)
  then show "vm_ok t p ps" using p np by (auto simp: vm_ok_def t_def)
  show "vm_entry (mem t) p va = 0" using np [OF PDX_bound] by (simp add: vm_entry_def)
  show "vm_pages (mem t) p = {p}" using np by (auto simp: vm_pages_def)
  have "absents (mem t) p \<subseteq> of_nat ` {..<1024}"
    unfolding absents_def by (auto intro!: image_eqI [where x = "unat _"])
  then have "card (absents (mem t) p) \<le> card (of_nat ` {..<1024} :: uint set)" by (intro card_mono) auto
  also have "\<dots> \<le> 1024" using card_image_le [of "{..<1024}" "of_nat :: nat \<Rightarrow> uint"] by simp
  finally show "card (absents (mem t) p) \<le> 1024" .
qed

section \<open>The kernel's mappings\<close>

definition kernel_pte :: "addr \<Rightarrow> addr \<Rightarrow> uint" where
  "kernel_pte data va =
     (if KERNBASE \<le> va \<and> va < KERNLINK then (PGROUNDDOWN va - KERNBASE) OR PTE_W OR PTE_P
      else if KERNLINK \<le> va \<and> va < data then (PGROUNDDOWN va - KERNBASE) OR PTE_P
      else if data \<le> va \<and> va < P2V PHYSTOP then (PGROUNDDOWN va - KERNBASE) OR PTE_W OR PTE_P
      else if DEVSPACE \<le> va then PGROUNDDOWN va OR PTE_W OR PTE_P else 0)"

text \<open>The linker script aligns the symbol data to a page, after the kernel's code.\<close>

definition data_ok :: "addr \<Rightarrow> bool" where
  "data_ok data \<longleftrightarrow> data mod PGSIZE = 0 \<and> KERNLINK < data \<and> data < P2V PHYSTOP"

lemma region_ranges:
  assumes "data_ok data"
  obtains n2 n3 where "V2P data - V2P KERNLINK = of_nat (4096 * n2)" "0 < n2" "n2 < 2 ^ 20" "unat KERNLINK + 4096 * n2 \<le> 2 ^ 32"
    "PHYSTOP - V2P data = of_nat (4096 * n3)" "0 < n3" "n3 < 2 ^ 20" "unat data + 4096 * n3 \<le> 2 ^ 32"
    "\<And>va. va \<in> va_range KERNLINK n2 \<longleftrightarrow> KERNLINK \<le> va \<and> va < data" "\<And>va. va \<in> va_range data n3 \<longleftrightarrow> data \<le> va \<and> va < P2V PHYSTOP"
proof -
  obtain k where k: "unat data = 4096 * k" using assms by (auto simp: data_ok_def aligned_iff)
  have b: "0x80100000 < 4096 * k" "4096 * k < 0x8E000000"
    using assms k by (auto simp: data_ok_def KERNLINK_def KERNBASE_def P2V_def PHYSTOP_def EXTMEM_def word_less_nat_alt)
  let ?n2 = "k - 0x80100" and ?n3 = "0x8E000 - k"
  have d: "data = of_nat (4096 * k)" using k b unat_of_nat_small [of "4096 * k"] by (simp only: word_unat_eq_iff) simp
  have e2: "V2P data - V2P KERNLINK = of_nat (4096 * ?n2)"
    using b unfolding d by (simp add: V2P_def KERNLINK_def KERNBASE_def EXTMEM_def right_diff_distrib' of_nat_diff)
  have e3: "PHYSTOP - V2P data = of_nat (4096 * ?n3)"
    using b unfolding d by (simp add: V2P_def KERNBASE_def PHYSTOP_def right_diff_distrib' of_nat_diff)
  have r2: "va \<in> va_range KERNLINK ?n2 \<longleftrightarrow> KERNLINK \<le> va \<and> va < data" for va
    using b k by (auto simp: va_range_def word_less_nat_alt KERNLINK_def KERNBASE_def EXTMEM_def)
  have r3: "va \<in> va_range data ?n3 \<longleftrightarrow> data \<le> va \<and> va < P2V PHYSTOP" for va
    using b k by (auto simp: va_range_def word_less_nat_alt P2V_def PHYSTOP_def KERNBASE_def)
  show ?thesis
    by (rule that [OF e2 _ _ _ e3 _ _ _ r2 r3]) (use b k in \<open>auto simp: KERNLINK_def KERNBASE_def EXTMEM_def\<close>)
qed

text \<open>One entry of kmap, with a free page for every directory entry that is still absent.\<close>

definition region_done :: "addr \<Rightarrow> addr \<Rightarrow> nat \<Rightarrow> addr \<Rightarrow> uint \<Rightarrow> 'z kmm_scheme \<Rightarrow> addr list \<Rightarrow> 'z kmm_scheme \<Rightarrow> addr list \<Rightarrow> bool" where
  "region_done d va n pst perm s ps t qs \<longleftrightarrow> vm_steps d s ps t qs \<and> card (absents (mem t) d) \<le> length qs \<and>
     length ps + card (absents (mem t) d) = length qs + card (absents (mem s) d) \<and>
     (\<forall>x. vm_entry (mem t) d x = (if x \<in> va_range va n then (pst + (PGROUNDDOWN x - va)) OR perm OR PTE_P else vm_entry (mem s) d x))"

lemma map_region:
  assumes "vm_ok s d ps" "card (absents (mem s) d) \<le> length ps" "va mod PGSIZE = 0" "0 < n" "n < 2 ^ 20" "unat va + 4096 * n \<le> 2 ^ 32"
    and "pe - pst = of_nat (4096 * n)" and "\<And>x. x \<in> va_range va n \<Longrightarrow> vm_entry (mem s) d x = 0"
  shows "\<exists>t qs. setupkvm_loop d ((va, pst, pe, perm) # ks) s = setupkvm_loop d ks t \<and> region_done d va n pst perm s ps t qs"
proof -
  have np: "\<not> present (vm_entry (mem s) d x)" if "x \<in> va_range va n" for x using assms(8) [OF that] by (simp add: present_def)
  obtain t qs where t: "mappages d va (pe - pst) pst perm s = Done 0 t" "vm_steps d s ps t qs"
    "length ps + card (absents (mem t) d) = length qs + card (absents (mem s) d)"
    "\<And>x. vm_entry (mem t) d x = (if x \<in> va_range va n then (pst + (PGROUNDDOWN x - va)) OR perm OR PTE_P else vm_entry (mem s) d x)"
    using mappages_ok [OF assms(1,3-6) disjI1 [OF assms(2)] np, of pst perm] unfolding assms(7) by blast
  have "setupkvm_loop d ((va, pst, pe, perm) # ks) s = setupkvm_loop d ks t"
    by (simp add: kbind_Done [of "mappages _ _ _ _ _", OF t(1)])
  then show ?thesis using t assms(2) unfolding region_done_def by (intro exI [of _ t] exI [of _ qs]) auto
qed

lemma region_doneD:
  assumes "region_done d va n pst perm s ps t qs"
  shows "vm_ok t d qs" "card (absents (mem t) d) \<le> length qs" "vm_steps d s ps t qs"
    "length ps + card (absents (mem t) d) = length qs + card (absents (mem s) d)"
    "vm_entry (mem t) d x = (if x \<in> va_range va n then (pst + (PGROUNDDOWN x - va)) OR perm OR PTE_P else vm_entry (mem s) d x)"
  using assms vm_stepsD(1) [of d s ps t qs] by (auto simp: region_done_def)

text \<open>The four regions of kmap one after the other.\<close>

lemma setupkvm_loop_spec:
  fixes s :: "'z kmm_scheme"
  assumes ok: "vm_ok s d ps" and len: "card (absents (mem s) d) \<le> length ps" and data: "data_ok data" and z: "\<And>x. vm_entry (mem s) d x = 0"
  shows "\<exists>t qs. setupkvm_loop d (kmap data) s = Done d t \<and> vm_steps d s ps t qs \<and>
    length ps + card (absents (mem t) d) = length qs + card (absents (mem s) d) \<and> (\<forall>va. vm_entry (mem t) d va = kernel_pte data va)"
proof -
  obtain n2 n3 where R: "V2P data - V2P KERNLINK = of_nat (4096 * n2)" "0 < n2" "n2 < 2 ^ 20" "unat KERNLINK + 4096 * n2 \<le> 2 ^ 32"
    "PHYSTOP - V2P data = of_nat (4096 * n3)" "0 < n3" "n3 < 2 ^ 20" "unat data + 4096 * n3 \<le> 2 ^ 32"
    and r2: "\<And>va. va \<in> va_range KERNLINK n2 \<longleftrightarrow> KERNLINK \<le> va \<and> va < data"
    and r3: "\<And>va. va \<in> va_range data n3 \<longleftrightarrow> data \<le> va \<and> va < P2V PHYSTOP"
    using region_ranges [OF data] by metis
  have r1: "va \<in> va_range KERNBASE 256 \<longleftrightarrow> KERNBASE \<le> va \<and> va < KERNLINK"
    and r4: "va \<in> va_range DEVSPACE 8192 \<longleftrightarrow> DEVSPACE \<le> va" for va
    using unat_bound [of va] by (auto simp: va_range_def KERNBASE_def KERNLINK_def EXTMEM_def DEVSPACE_def word_less_nat_alt)
  have al: "KERNBASE mod PGSIZE = 0" "KERNLINK mod PGSIZE = 0" "DEVSPACE mod PGSIZE = 0" "data mod PGSIZE = 0"
    using data by (simp_all add: PGSIZE_def KERNBASE_def KERNLINK_def EXTMEM_def DEVSPACE_def data_ok_def)
  have fit: "unat KERNBASE + 4096 * 256 \<le> 2 ^ 32" "unat DEVSPACE + 4096 * 8192 \<le> 2 ^ 32"
    by (simp_all add: KERNBASE_def DEVSPACE_def)
  have sz: "EXTMEM - 0 = of_nat (4096 * 256)" "0 - DEVSPACE = of_nat (4096 * 8192)" by (simp_all add: EXTMEM_def DEVSPACE_def)
  have dd: "KERNLINK < data" "data < P2V PHYSTOP" "KERNBASE < KERNLINK" "P2V PHYSTOP < DEVSPACE"
    using data by (simp_all add: data_ok_def KERNBASE_def KERNLINK_def EXTMEM_def P2V_def PHYSTOP_def DEVSPACE_def)
  have n: "0 < (256 :: nat)" "(256 :: nat) < 2 ^ 20" "0 < (8192 :: nat)" "(8192 :: nat) < 2 ^ 20" by simp_all
  obtain t1 q1 where t1: "setupkvm_loop d (kmap data) s = setupkvm_loop d (tl (kmap data)) t1" "region_done d KERNBASE 256 0 PTE_W s ps t1 q1"
    using map_region [OF ok len al(1) n(1,2) fit(1) sz(1) z] unfolding kmap_def list.sel by blast
  note D1 = region_doneD [OF t1(2)]
  have z1: "vm_entry (mem t1) d x = 0" if "KERNLINK \<le> x" for x using D1(5) [of x] z [of x] that by (auto simp: r1)
  obtain t2 q2 where t2: "setupkvm_loop d (tl (kmap data)) t1 = setupkvm_loop d (tl (tl (kmap data))) t2" "region_done d KERNLINK n2 (V2P KERNLINK) 0 t1 q1 t2 q2"
    using map_region [OF D1(1,2) al(2) R(2,3,4,1)] z1 r2 unfolding kmap_def list.sel by blast
  note D2 = region_doneD [OF t2(2)]
  have z2: "vm_entry (mem t2) d x = 0" if "data \<le> x" for x using D2(5) [of x] z1 [of x] that dd by (auto simp: r2)
  obtain t3 q3 where t3: "setupkvm_loop d (tl (tl (kmap data))) t2 = setupkvm_loop d (tl (tl (tl (kmap data)))) t3" "region_done d data n3 (V2P data) PTE_W t2 q2 t3 q3"
    using map_region [OF D2(1,2) al(4) R(6,7,8,5)] z2 r3 unfolding kmap_def list.sel by blast
  note D3 = region_doneD [OF t3(2)]
  have z3: "vm_entry (mem t3) d x = 0" if "DEVSPACE \<le> x" for x using D3(5) [of x] z2 [of x] that dd by (auto simp: r3)
  obtain t4 q4 where t4: "setupkvm_loop d (tl (tl (tl (kmap data)))) t3 = setupkvm_loop d [] t4" "region_done d DEVSPACE 8192 DEVSPACE PTE_W t3 q3 t4 q4"
    using map_region [OF D3(1,2) al(3) n(3,4) fit(2) sz(2)] z3 r4 unfolding kmap_def list.sel by blast
  note D4 = region_doneD [OF t4(2)]
  have "vm_steps d s ps t4 q4" by (rule vm_steps_trans [OF vm_steps_trans [OF vm_steps_trans [OF D1(3) D2(3)] D3(3)] D4(3)])
  moreover have "vm_entry (mem t4) d va = kernel_pte data va" for va
    using D1(5) [of va] D2(5) [of va] D3(5) [of va] D4(5) [of va] z [of va] dd
    unfolding r1 r2 r3 r4 kernel_pte_def by (auto simp: V2P_def)
  ultimately show ?thesis using t1(1) t2(1) t3(1) t4(1) D1(4) D2(4) D3(4) D4(4)
    by (intro exI [of _ t4] exI [of _ q4]) auto
qed

lemma setupkvm_spec:
  assumes fl: "free_list s (d # ps)" and len: "1024 \<le> length ps" and data: "data_ok (k_data s)"
  shows "\<exists>t qs. setupkvm s = Done d t \<and> vm_ok t d qs \<and> k_end t = k_end s \<and> set qs \<subseteq> set ps \<and> vm_pages (mem t) d \<subseteq> insert d (set ps) \<and>
    length ps + card (absents (mem t) d) \<le> length qs + 1024 \<and>
    (\<forall>q x. q mod PGSIZE = 0 \<longrightarrow> q \<notin> insert d (set ps) \<longrightarrow> x \<in> span q 4096 \<longrightarrow> mem t x = mem s x) \<and>
    (\<forall>va. vm_entry (mem t) d va = kernel_pte (k_data s) va)"
proof -
  let ?s0 = "s\<lparr>kmem_freelist := rd32 (mem s) d, mem := memset (mem s) d 0 PGSIZE\<rparr>"
  note f = fresh_dir [OF fl]
  have "card (absents (mem ?s0) d) \<le> length ps" using f(3) len by linarith
  then obtain t qs where t: "setupkvm_loop d (kmap (k_data s)) ?s0 = Done d t" "vm_steps d ?s0 ps t qs"
    "length ps + card (absents (mem t) d) = length qs + card (absents (mem ?s0) d)" "\<And>va. vm_entry (mem t) d va = kernel_pte (k_data s) va"
    using setupkvm_loop_spec [OF f(1) _ data f(2)] by blast
  have "d \<noteq> 0" using fl by (simp add: free_list_def good_page_def)
  moreover have "\<not> DEVSPACE < P2V PHYSTOP" by (simp add: P2V_def PHYSTOP_def KERNBASE_def DEVSPACE_def)
  ultimately have "setupkvm s = Done d t"
    using t(1) by (simp add: setupkvm_def kbind_Done [of kalloc, OF kalloc_page(1) [OF fl]] zero_page_def)
  moreover have "mem t x = mem s x" if "q mod PGSIZE = 0" "q \<notin> insert d (set ps)" "x \<in> span q 4096" for q x
  proof -
    have "q \<notin> vm_pages (mem ?s0) d \<union> set ps" "q \<noteq> d" unfolding f(4) using that(2) by auto
    then show ?thesis using vm_stepsD(5) [OF t(2) that(1) _ that(3)] f(5) [OF that(1) _ that(3)] by metis
  qed
  ultimately show ?thesis using vm_stepsD(1-4) [OF t(2)] t(3,4) f(3,4) by (intro exI [of _ t] exI [of _ qs]) auto
qed

section \<open>Page tables whose pages are left alone\<close>

lemma vm_same:
  assumes P: "P mod PGSIZE = 0" and same: "\<And>q x. q \<in> vm_pages m P \<Longrightarrow> x \<in> span q 4096 \<Longrightarrow> m' x = m x"
  shows "unat i < 1024 \<Longrightarrow> pde m' P i = pde m P i" "vm_entry m' P va = vm_entry m P va" "vm_pages m' P = vm_pages m P"
    "absents m' P = absents m P"
proof -
  show pd: "pde m' P i = pde m P i" if "unat i < 1024" for i
    unfolding pde_def by (intro entry_frame [OF P that] same [of P]) (simp_all add: vm_pages_def)
  show "vm_pages m' P = vm_pages m P" by (rule vm_pages_cong [OF pd])
  show "absents m' P = absents m P" using pd by (auto simp: absents_def)
  show "vm_entry m' P va = vm_entry m P va"
  proof (cases "present (pde m P (PDX va))")
    case True
    then have "table (pde m P (PDX va)) \<in> vm_pages m P" using PDX_bound by (auto simp: vm_pages_def)
    then have "rd32 m' (table (pde m P (PDX va)) + 4 * PTX va) = rd32 m (table (pde m P (PDX va)) + 4 * PTX va)"
      by (intro entry_frame [OF table_aligned PTX_bound] same)
    then show ?thesis using pd [OF PDX_bound] by (simp add: vm_entry_def)
  qed (simp add: vm_entry_def pd [OF PDX_bound])
qed

lemma vm_pages_aligned: "vm_ok s d ps \<Longrightarrow> q \<in> vm_pages (mem s) d \<Longrightarrow> q mod PGSIZE = 0 \<and> q \<notin> set ps"
proof -
  assume ok: "vm_ok s d ps" and "q \<in> vm_pages (mem s) d"
  then consider "q = d" | i where "unat i < 1024" "present (pde (mem s) d i)" "q = table (pde (mem s) d i)" by (auto simp: vm_pages_def)
  then show ?thesis using vm_okD(3,4,6) [OF ok] table_aligned by cases metis+
qed

text \<open>Taking a page from the free list and filling it.\<close>

lemma take_page:
  assumes ok: "vm_ok s d (p # ps)" and out: "\<forall>x. x \<notin> span p 4096 \<longrightarrow> M x = mem s x"
  defines "t \<equiv> s\<lparr>kmem_freelist := rd32 (mem s) p, mem := M\<rparr>"
  shows "vm_ok t d ps" "vm_entry (mem t) d va = vm_entry (mem s) d va" "vm_pages (mem t) d = vm_pages (mem s) d"
    "absents (mem t) d = absents (mem s) d"
proof -
  note D = vm_okD [OF ok]
  have p: "p mod PGSIZE = 0" "p \<notin> set ps" using D(1) by (auto simp: free_list_def good_page_def)
  have fr: "M x = mem s x" if "q mod PGSIZE = 0" "q \<noteq> p" "x \<in> span q 4096" for q x
    using out page_disjoint [OF that(1) p(1) that(2,3)] by blast
  have "M x = mem s x" if "q \<in> vm_pages (mem s) d" "x \<in> span q 4096" for q x
  proof (rule fr [OF _ _ that(2)])
    show "q mod PGSIZE = 0" "q \<noteq> p" using vm_pages_aligned [OF ok that(1)] by auto
  qed
  note V = vm_same [where m' = M, OF D(4) this]
  show "vm_entry (mem t) d va = vm_entry (mem s) d va" "vm_pages (mem t) d = vm_pages (mem s) d" "absents (mem t) d = absents (mem s) d"
    using V(2,3,4) by (simp_all add: t_def)
  have "free_list (s\<lparr>kmem_freelist := rd32 (mem s) p\<rparr>) ps" by (rule kalloc_page(2) [OF D(1)])
  then have "free_list t ps"
  proof (rule free_list_frame)
    fix q x assume q: "q \<in> set ps" "x \<in> span q 4096"
    then have "q mod PGSIZE = 0" "q \<noteq> p" using D(1) p(2) by (auto simp: free_list_def good_page_def)
    then show "mem t x = mem (s\<lparr>kmem_freelist := rd32 (mem s) p\<rparr>) x" using fr q(2) by (simp add: t_def)
  qed (simp_all add: t_def)
  moreover have "k_end t = k_end s" "mem t = M" by (simp_all add: t_def)
  ultimately show "vm_ok t d ps" using D(2,3,5-8) V(1) unfolding vm_ok_def by auto
qed

section \<open>copyuvm\<close>

text \<open>
  \<open>copied s P t d is ps qs\<close>: the pages of the addresses \<open>is\<close> in the address space \<open>P\<close> of \<open>s\<close> have been copied
  to the address space \<open>d\<close> of \<open>t\<close>, with the same permissions, into different pages that were free.
\<close>

definition copied :: "'z kmm_scheme \<Rightarrow> addr \<Rightarrow> 'z kmm_scheme \<Rightarrow> addr \<Rightarrow> addr list \<Rightarrow> addr set \<Rightarrow> bool" where
  "copied s P t d is F \<longleftrightarrow> inj_on (\<lambda>i. table (vm_entry (mem t) d i)) (set is) \<and>
     (\<forall>i\<in>set is. table (vm_entry (mem t) d i) \<in> F \<and> table (vm_entry (mem t) d i) \<notin> vm_pages (mem t) d \<and>
       PTE_FLAGS (vm_entry (mem t) d i) = PTE_FLAGS (vm_entry (mem s) P i) \<and>
       (\<forall>x<4096. mem t (table (vm_entry (mem t) d i) + of_nat x) = mem s (table (vm_entry (mem s) P i) + of_nat x)))"

lemma copy_pte:
  assumes "p mod PGSIZE = 0" "present e"
  shows "table (V2P p OR PTE_FLAGS e OR PTE_P) = p" "PTE_FLAGS (V2P p OR PTE_FLAGS e OR PTE_P) = PTE_FLAGS e" "present (V2P p OR PTE_FLAGS e OR PTE_P)"
proof -
  have b: "bit e 0" using assms(2) by (simp add: present_def PTE_P_def and_one_eq odd_iff_mod_2_eq_one bit_0)
  have e: "PTE_FLAGS e OR PTE_P = PTE_FLAGS e"
  proof (rule bit_word_eqI)
    fix n show "bit (PTE_FLAGS e OR PTE_P) n = bit (PTE_FLAGS e) n"
      using b by (cases "n = 0") (auto simp: PTE_FLAGS_def PTE_P_def bit_simps)
  qed
  have f: "PTE_FLAGS e AND NOT 0xFFF = 0" by (simp add: PTE_FLAGS_def and.assoc)
  note m = mk_pte [OF V2P_aligned [OF assms(1)] f]
  show "table (V2P p OR PTE_FLAGS e OR PTE_P) = p" "PTE_FLAGS (V2P p OR PTE_FLAGS e OR PTE_P) = PTE_FLAGS e"
    using m by (simp_all add: or.assoc e table_def)
  have "bit (V2P p OR PTE_FLAGS e OR PTE_P) 0" by (simp add: PTE_P_def bit_simps)
  then show "present (V2P p OR PTE_FLAGS e OR PTE_P)" by (auto simp: present_def PTE_P_def and_one_eq odd_iff_mod_2_eq_one bit_0)
qed

lemma page_move:
  assumes "good_page e p" "good_page e' q"
  shows "memmove m p q PGSIZE = (\<lambda>a. if a \<in> span p 4096 then m (q + (a - p)) else m a)"
  using memmove_spec [of q PGSIZE p m] good_range(1) [OF assms(1)] good_range(1) [OF assms(2)] by (simp add: PGSIZE_def)

lemma one_page: "i mod PGSIZE = 0 \<Longrightarrow> unat i + 4096 \<le> 2 ^ 32 \<Longrightarrow> x \<in> va_range i 1 \<longleftrightarrow> PGROUNDDOWN x = i"
  using page_of_range(3) [of i 0 x] by (auto simp: va_range_def word_le_nat_alt)

lemma copy_one:
  fixes s :: "'z kmm_scheme"
  assumes ok: "vm_ok s d (p # ps)" and bud: "card (absents (mem s) d) \<le> length ps"
    and i: "i mod PGSIZE = 0" "unat i + 4096 \<le> 2 ^ 32" "\<not> present (vm_entry (mem s) d i)"
    and par: "\<And>q. q \<in> vm_pages (mem s) P \<Longrightarrow> good_page (k_end s) q" and e: "present (vm_entry (mem s) P i)"
    and src: "good_page (k_end s) (table (vm_entry (mem s) P i))"
  defines "E \<equiv> vm_entry (mem s) P i"
  shows "\<exists>t qs. copyuvm_loop P d (i # is) s = copyuvm_loop P d is t \<and> vm_steps d s (p # ps) t qs \<and> p \<notin> set qs \<and> p \<notin> vm_pages (mem t) d \<and>
    set qs \<subseteq> set ps \<and> length ps + card (absents (mem t) d) = length qs + card (absents (mem s) d) \<and>
    (\<forall>va. vm_entry (mem t) d va = (if PGROUNDDOWN va = i then V2P p OR PTE_FLAGS E OR PTE_P else vm_entry (mem s) d va)) \<and>
    (\<forall>x<4096. mem t (p + of_nat x) = mem s (table E + of_nat x))"
proof -
  note D = vm_okD [OF ok]
  have p: "good_page (k_end s) p" "p \<notin> set ps" "p mod PGSIZE = 0" using D(1) by (auto simp: free_list_def good_page_def)
  have pe: "present (pde (mem s) P (PDX i))" using e by (auto simp: vm_entry_def present_def split: if_splits)
  let ?T = "table (pde (mem s) P (PDX i))" and ?G = "table E"
  have T: "?T \<in> vm_pages (mem s) P" using pe PDX_bound by (auto simp: vm_pages_def)
  have "0 < unat (?T + 4 * PTX i)"
    unfolding entry_nat [OF table_aligned PTX_bound] using good_range(2) [OF par [OF T]] by (simp add: unat_gt_0)
  then have nz: "?T + 4 * PTX i \<noteq> 0" by (auto simp del: unat_gt_0)
  define M where "M = (\<lambda>a. if a \<in> span p 4096 then mem s (?G + (a - p)) else mem s a)"
  define s1 where "s1 = s\<lparr>kmem_freelist := rd32 (mem s) p, mem := M\<rparr>"
  have mv: "memmove (mem s) p ?G PGSIZE = M" unfolding M_def E_def by (rule page_move [OF p(1) src])
  then have mv': "memmove (mem s) p ?G 4096 = M" by (simp add: PGSIZE_def)
  have out: "\<forall>x. x \<notin> span p 4096 \<longrightarrow> M x = mem s x" by (simp add: M_def)
  note K = take_page [OF ok out, folded s1_def]
  have np: "\<not> present (vm_entry (mem s1) d x)" if "x \<in> va_range i 1" for x
  proof -
    have "PGROUNDDOWN x = PGROUNDDOWN i" using that one_page [OF i(1,2)] PGROUNDDOWN_aligned [OF i(1)] by simp
    then have "vm_entry (mem s) d x = vm_entry (mem s) d i" using same_entry [of x i] by (simp add: vm_entry_def)
    then show ?thesis using i(3) K(2) by simp
  qed
  have b1: "card (absents (mem s1) d) \<le> length ps" using bud unfolding K(4) .
  have one: "(0 :: nat) < 1" "(1 :: nat) < 2 ^ 20" by simp_all
  have fit: "unat i + 4096 * 1 \<le> 2 ^ 32" using i(2) by simp
  obtain t qs where t: "mappages d i (of_nat (4096 * 1)) (V2P p) (PTE_FLAGS E) s1 = Done 0 t" "vm_steps d s1 ps t qs"
    "length ps + card (absents (mem t) d) = length qs + card (absents (mem s1) d)"
    "\<And>x. vm_entry (mem t) d x = (if x \<in> va_range i 1 then (V2P p + (PGROUNDDOWN x - i)) OR PTE_FLAGS E OR PTE_P else vm_entry (mem s1) d x)"
    using mappages_ok [OF K(1) i(1) one fit disjI1 [OF b1] np, of "V2P p" "PTE_FLAGS E"] by blast
  have "rd32 (mem s) (?T + 4 * PTX i) = E" using vm_entry_present [OF pe] by (simp add: E_def)
  then have "copyuvm_loop P d (i # is) s = copyuvm_loop P d is t"
    using e nz t(1) good_range(2) [OF p(1)]
    by (simp add: kbind_Done [of "walkpgdir P i False", OF walk_present [OF pe]] load32_def E_def [symmetric] present_def
      kbind_Done [of kalloc, OF kalloc_page(1) [OF D(1)]] copy_page_def mv' table_def [symmetric] s1_def [symmetric] PGSIZE_def kbind_Done [of "mappages _ _ _ _ _"])
  moreover have pp: "p \<notin> vm_pages (mem s) d" using vm_pages_aligned [OF ok] by auto
  have steps: "vm_steps d s (p # ps) t qs"
  proof -
    have "mem t x = mem s x" if "q mod PGSIZE = 0" "q \<notin> vm_pages (mem s) d \<union> set (p # ps)" "x \<in> span q 4096" for q x
    proof -
      have "q \<noteq> p" using that(2) by simp
      then have "M x = mem s x" using out page_disjoint [OF that(1) p(3) _ that(3)] by blast
      moreover have "mem t x = mem s1 x" using that(2) by (intro vm_stepsD(5) [OF t(2) that(1) _ that(3)]) (simp add: K(3))
      ultimately show ?thesis by (simp add: s1_def)
    qed
    then show ?thesis using vm_stepsD(1-4) [OF t(2)] unfolding vm_steps_def K(3) by (auto simp: s1_def)
  qed
  moreover have "mem t (p + of_nat x) = mem s (?G + of_nat x)" if "x < 4096" for x
  proof -
    have x: "p + of_nat x \<in> span p 4096" by (rule in_span [OF that])
    have "mem t (p + of_nat x) = mem s1 (p + of_nat x)"
      using pp p(2) by (intro vm_stepsD(5) [OF t(2) p(3) _ x]) (simp add: K(3))
    then show ?thesis using x by (simp add: s1_def M_def)
  qed
  moreover have "p \<notin> vm_pages (mem t) d" "p \<notin> set qs" using vm_stepsD(3,4) [OF t(2)] p(2) pp K(3) by auto
  moreover have "vm_entry (mem t) d va = (if PGROUNDDOWN va = i then V2P p OR PTE_FLAGS E OR PTE_P else vm_entry (mem s) d va)" for va
    using t(4) [of va] K(2) [of va] one_page [OF i(1,2)] by simp
  ultimately show ?thesis using t(3) K(4) vm_stepsD(3) [OF t(2)] by (intro exI [of _ t] exI [of _ qs]) simp
qed

text \<open>What the original address space consists of: its page tables and the pages it maps at \<open>is\<close>.\<close>

definition space_pages :: "mem \<Rightarrow> addr \<Rightarrow> addr list \<Rightarrow> addr set" where
  "space_pages m P is = vm_pages m P \<union> (\<lambda>i. table (vm_entry m P i)) ` set is"

lemma copied_Cons:
  assumes c: "copied t P u d is (set qs - set rs)" and sub: "set qs \<subseteq> set ps" "set rs \<subseteq> set qs" and i: "i \<notin> set is"
    and ent: "\<And>j. j \<in> set is \<Longrightarrow> vm_entry (mem t) P j = vm_entry (mem s) P j"
    and cont: "\<And>j x. j \<in> set is \<Longrightarrow> x < 4096 \<Longrightarrow> mem t (table (vm_entry (mem s) P j) + of_nat x) = mem s (table (vm_entry (mem s) P j) + of_nat x)"
    and p: "table (vm_entry (mem u) d i) = p" "p \<in> set ps" "p \<notin> set qs" "p \<notin> vm_pages (mem u) d"
      "PTE_FLAGS (vm_entry (mem u) d i) = PTE_FLAGS (vm_entry (mem s) P i)"
      "\<And>x. x < 4096 \<Longrightarrow> mem u (p + of_nat x) = mem s (table (vm_entry (mem s) P i) + of_nat x)"
  shows "copied s P u d (i # is) (set ps - set rs)"
proof -
  note C = c [unfolded copied_def]
  have "inj_on (\<lambda>i. table (vm_entry (mem u) d i)) (set (i # is))"
    using C p(1,3) i by auto
  moreover have "PTE_FLAGS (vm_entry (mem u) d j) = PTE_FLAGS (vm_entry (mem s) P j)" if "j \<in> set is" for j
    using C ent [OF that] that by auto
  moreover have "mem u (table (vm_entry (mem u) d j) + of_nat x) = mem s (table (vm_entry (mem s) P j) + of_nat x)" if "j \<in> set is" "x < 4096" for j x
    using C ent [OF that(1)] cont [OF that] that by simp
  ultimately show ?thesis unfolding copied_def using C p sub by auto
qed

lemma copy_loop:
  fixes s :: "'z kmm_scheme"
  assumes "vm_ok s d ps" and "card (absents (mem s) d) + length is \<le> length ps"
    and "\<And>q. q \<in> space_pages (mem s) P is \<Longrightarrow> good_page (k_end s) q"
    and "space_pages (mem s) P is \<inter> (vm_pages (mem s) d \<union> set ps) = {}"
    and "distinct is" and "\<And>i. i \<in> set is \<Longrightarrow> i mod PGSIZE = 0 \<and> unat i + 4096 \<le> 2 ^ 32"
    and "\<And>i. i \<in> set is \<Longrightarrow> present (vm_entry (mem s) P i) \<and> \<not> present (vm_entry (mem s) d i)"
  shows "\<exists>t qs. copyuvm_loop P d is s = Done d t \<and> vm_steps d s ps t qs \<and> copied s P t d is (set ps - set qs) \<and>
    (\<forall>va. PGROUNDDOWN va \<notin> set is \<longrightarrow> vm_entry (mem t) d va = vm_entry (mem s) d va)"
  using assms
proof (induction "is" arbitrary: s ps)
  case Nil
  then show ?case using vm_steps_refl [of s d ps] by (intro exI [of _ s] exI [of _ ps]) (simp add: copied_def)
next
  case (Cons i "is")
  obtain p ps' where ps: "ps = p # ps'" using Cons.prems(2) by (cases ps) auto
  note good = Cons.prems(3)
  have "i mod PGSIZE = 0" "unat i + 4096 \<le> 2 ^ 32" "\<not> present (vm_entry (mem s) d i)" "present (vm_entry (mem s) P i)"
    using Cons.prems(6,7) [of i] by auto
  note i = this
  have gp: "\<And>q. q \<in> vm_pages (mem s) P \<Longrightarrow> good_page (k_end s) q" "good_page (k_end s) (table (vm_entry (mem s) P i))"
    using good by (auto simp: space_pages_def)
  let ?E = "vm_entry (mem s) P i"
  have bud: "card (absents (mem s) d) \<le> length ps'" using Cons.prems(2) ps by simp
  obtain t qs where t: "copyuvm_loop P d (i # is) s = copyuvm_loop P d is t" "vm_steps d s ps t qs" "p \<notin> set qs" "p \<notin> vm_pages (mem t) d"
    "set qs \<subseteq> set ps'" "length ps' + card (absents (mem t) d) = length qs + card (absents (mem s) d)"
    "\<And>va. vm_entry (mem t) d va = (if PGROUNDDOWN va = i then V2P p OR PTE_FLAGS ?E OR PTE_P else vm_entry (mem s) d va)"
    "\<And>x. x < 4096 \<Longrightarrow> mem t (p + of_nat x) = mem s (table ?E + of_nat x)"
    using copy_one [OF Cons.prems(1) [unfolded ps] bud i(1-3) gp(1) i(4) gp(2), of "is"] unfolding ps by blast
  have quiet: "mem t x = mem s x" if "q \<in> space_pages (mem s) P (i # is)" "x \<in> span q 4096" for q x
    using Cons.prems(4) that(1) good_range(3) [OF good [OF that(1)]] by (intro vm_stepsD(5) [OF t(2) _ _ that(2)]) auto
  have P: "P mod PGSIZE = 0" using good_range(3) [OF gp(1) [of P]] by (simp add: vm_pages_def)
  have "mem t x = mem s x" if "q \<in> vm_pages (mem s) P" "x \<in> span q 4096" for q x
    using that by (intro quiet [of q]) (simp_all add: space_pages_def)
  note S = vm_same [where m' = "mem t", OF P this]
  have sp: "space_pages (mem t) P is \<subseteq> space_pages (mem s) P (i # is)" using S(2,3) by (auto simp: space_pages_def)
  have nd: "i \<notin> set is" "distinct is" using Cons.prems(5) by simp_all
  have nx: "vm_entry (mem t) d j = vm_entry (mem s) d j" if "j \<in> set is" for j
    using t(7) [of j] PGROUNDDOWN_aligned [of j] Cons.prems(6) [of j] that nd(1) by auto
  obtain u rs where u: "copyuvm_loop P d is t = Done d u" "vm_steps d t qs u rs" "copied t P u d is (set qs - set rs)"
    "\<And>va. PGROUNDDOWN va \<notin> set is \<Longrightarrow> vm_entry (mem u) d va = vm_entry (mem t) d va"
  proof -
    have "good_page (k_end t) q" if "q \<in> space_pages (mem t) P is" for q
      using good sp that vm_stepsD(2) [OF t(2)] by auto
    moreover have "space_pages (mem t) P is \<inter> (vm_pages (mem t) d \<union> set qs) = {}"
      using Cons.prems(4) sp vm_stepsD(3,4) [OF t(2)] by blast
    moreover have "card (absents (mem t) d) + length is \<le> length qs" using t(6) Cons.prems(2) ps by simp
    moreover have "present (vm_entry (mem t) P j) \<and> \<not> present (vm_entry (mem t) d j)" if "j \<in> set is" for j
      using Cons.prems(7) [of j] S(2) nx that by simp
    ultimately have "\<exists>u rs. copyuvm_loop P d is t = Done d u \<and> vm_steps d t qs u rs \<and> copied t P u d is (set qs - set rs) \<and>
      (\<forall>va. PGROUNDDOWN va \<notin> set is \<longrightarrow> vm_entry (mem u) d va = vm_entry (mem t) d va)"
      using nd(2) Cons.prems(6) by (intro Cons.IH [OF vm_stepsD(1) [OF t(2)]]) (blast | simp)+
    then show thesis using that by blast
  qed
  have ui: "vm_entry (mem u) d i = V2P p OR PTE_FLAGS ?E OR PTE_P"
    using u(4) [of i] t(7) [of i] nd(1) PGROUNDDOWN_aligned [OF i(1)] by simp
  have pa: "p mod PGSIZE = 0" "p \<in> set ps" using vm_okD(1) [OF Cons.prems(1)] ps by (auto simp: free_list_def good_page_def)
  note cp = copy_pte [OF pa(1) i(4)]
  have "copied s P u d (i # is) (set ps - set rs)"
  proof (rule copied_Cons [OF u(3)])
    show "set qs \<subseteq> set ps" "set rs \<subseteq> set qs" "p \<in> set ps" "p \<notin> set qs" "i \<notin> set is"
      using t(3,5) vm_stepsD(3) [OF u(2)] pa nd ps by auto
    show "table (vm_entry (mem u) d i) = p" "PTE_FLAGS (vm_entry (mem u) d i) = PTE_FLAGS ?E" using ui cp by simp_all
    show "p \<notin> vm_pages (mem u) d" using vm_stepsD(4) [OF u(2)] t(3,4) by auto
    show "mem u (p + of_nat x) = mem s (table ?E + of_nat x)" if "x < 4096" for x
      using vm_stepsD(5) [OF u(2) pa(1) _ in_span [OF that]] t(3,4) t(8) [OF that] by simp
    show "mem t (table (vm_entry (mem s) P j) + of_nat x) = mem s (table (vm_entry (mem s) P j) + of_nat x)" if "j \<in> set is" "x < 4096" for j x
      using that by (intro quiet [OF _ in_span [OF that(2)]]) (simp add: space_pages_def)
  qed (simp add: S(2))
  moreover have "vm_steps d s ps u rs" by (rule vm_steps_trans [OF t(2) u(2)])
  moreover have "vm_entry (mem u) d va = vm_entry (mem s) d va" if "PGROUNDDOWN va \<notin> set (i # is)" for va
    using u(4) [of va] t(7) [of va] that by auto
  ultimately show ?case using t(1) u(1) by (intro exI [of _ u] exI [of _ rs]) auto
qed

end
