(* ===== verification/VmCopy.thy ===== *)
theory VmCopy
  imports VmFork
begin

text \<open>
  copyuvm() as a whole: the address space that fork() gives to the child.
\<close>

text \<open>
  A user address space: the first \<open>sz\<close> bytes are mapped, and neither the page tables nor the
  mapped pages are on the free list \<open>ps\<close>.
\<close>

definition user_space :: "'z kmm_scheme \<Rightarrow> addr \<Rightarrow> uint \<Rightarrow> addr list \<Rightarrow> bool" where
  "user_space s P sz ps \<longleftrightarrow> sz \<le> KERNBASE \<and>
     (\<forall>q\<in>space_pages (mem s) P (page_addrs 0 sz). good_page (k_end s) q \<and> q \<notin> set ps) \<and>
     (\<forall>i\<in>set (page_addrs 0 sz). present (vm_entry (mem s) P i))"

lemma page_addrs_user:
  assumes "sz \<le> KERNBASE"
  shows "distinct (page_addrs 0 sz)" "\<And>i. i \<in> set (page_addrs 0 sz) \<Longrightarrow> i mod PGSIZE = 0 \<and> unat i + 4096 \<le> 2 ^ 31 \<and> i < KERNBASE"
proof -
  have sz: "(unat sz + 4095) div 4096 \<le> 0x80000" using assms by (simp add: KERNBASE_def word_le_nat_alt)
  have u: "unat (of_nat (4096 * i) :: addr) = 4096 * i" if "i < 0x80000" for i
    using that by (intro unat_of_nat_small) simp
  have "inj_on (\<lambda>i. of_nat (4096 * i) :: addr) {0..<(unat sz + 4095) div 4096}"
  proof (rule inj_onI)
    fix i j assume ij: "i \<in> {0..<(unat sz + 4095) div 4096}" "j \<in> {0..<(unat sz + 4095) div 4096}" "of_nat (4096 * i) = (of_nat (4096 * j) :: addr)"
    then have "i < 0x80000" "j < 0x80000" using sz by auto
    then have "4096 * i = 4096 * j" using u [of i] u [of j] ij(3) by metis
    then show "i = j" by simp
  qed
  then show "distinct (page_addrs 0 sz)" by (simp add: page_addrs_def distinct_map)
  fix i assume "i \<in> set (page_addrs 0 sz)"
  then obtain k where "k < (unat sz + 4095) div 4096" "i = of_nat (4096 * k)" by (auto simp: page_addrs_def)
  then have k: "k < 0x80000" "i = of_nat (4096 * k)" using sz by simp_all
  then show "i mod PGSIZE = 0 \<and> unat i + 4096 \<le> 2 ^ 31 \<and> i < KERNBASE"
    using u [OF k(1)] unfolding aligned_iff word_less_nat_alt k(2) by (auto simp: KERNBASE_def simp del: of_nat_mult)
qed

lemma kernel_pte_user: "data_ok data \<Longrightarrow> va < KERNBASE \<Longrightarrow> kernel_pte data va = 0"
  unfolding kernel_pte_def data_ok_def KERNBASE_def KERNLINK_def EXTMEM_def P2V_def PHYSTOP_def DEVSPACE_def
    word_less_nat_alt word_le_nat_alt by simp

lemma copyuvm_spec:
  fixes s :: "'z kmm_scheme"
  assumes fl: "free_list s ps" and len: "1025 + length (page_addrs 0 sz) \<le> length ps" and data: "data_ok (k_data s)"
    and us: "user_space s P sz ps"
  shows "\<exists>d t qs. copyuvm P sz s = Done d t \<and> d \<in> set ps \<and> vm_ok t d qs \<and> k_end t = k_end s \<and> set qs \<subseteq> set ps \<and> vm_pages (mem t) d \<subseteq> set ps \<and>
    copied s P t d (page_addrs 0 sz) (set ps - set qs) \<and>
    (\<forall>va. PGROUNDDOWN va \<notin> set (page_addrs 0 sz) \<longrightarrow> vm_entry (mem t) d va = kernel_pte (k_data s) va) \<and>
    (\<forall>q x. q mod PGSIZE = 0 \<longrightarrow> q \<notin> set ps \<longrightarrow> x \<in> span q 4096 \<longrightarrow> mem t x = mem s x)"
proof -
  let ?is = "page_addrs 0 sz"
  note pa = page_addrs_user [of sz]
  obtain d ps' where ps: "ps = d # ps'" using len by (cases ps) auto
  obtain u rs where u: "setupkvm s = Done d u" "vm_ok u d rs" "k_end u = k_end s" "set rs \<subseteq> set ps'" "vm_pages (mem u) d \<subseteq> set ps"
    "length ps' + card (absents (mem u) d) \<le> length rs + 1024"
    "\<And>q x. q mod PGSIZE = 0 \<Longrightarrow> q \<notin> set ps \<Longrightarrow> x \<in> span q 4096 \<Longrightarrow> mem u x = mem s x"
    "\<And>va. vm_entry (mem u) d va = kernel_pte (k_data s) va"
    using setupkvm_spec [OF fl [unfolded ps] _ data] len unfolding ps by auto
  have d: "d \<noteq> 0" using fl ps by (simp add: free_list_def good_page_def)
  have szb: "sz \<le> KERNBASE" and sp: "\<And>q. q \<in> space_pages (mem s) P ?is \<Longrightarrow> good_page (k_end s) q \<and> q \<notin> set ps"
    and pr: "\<And>i. i \<in> set ?is \<Longrightarrow> present (vm_entry (mem s) P i)" using us by (auto simp: user_space_def)
  have quiet: "mem u x = mem s x" if "q \<in> space_pages (mem s) P ?is" "x \<in> span q 4096" for q x
    using u(7) [OF _ _ that(2)] sp [OF that(1)] good_range(3) by blast
  have P: "P mod PGSIZE = 0" using sp [of P] by (simp add: space_pages_def vm_pages_def good_page_def)
  have "mem u x = mem s x" if "q \<in> vm_pages (mem s) P" "x \<in> span q 4096" for q x
    using that by (intro quiet [of q]) (simp_all add: space_pages_def)
  then have S: "vm_entry (mem u) P va = vm_entry (mem s) P va" "vm_pages (mem u) P = vm_pages (mem s) P" for va
    using vm_same(2,3) [OF P] by metis+
  have spu: "space_pages (mem u) P ?is = space_pages (mem s) P ?is" using S by (simp add: space_pages_def)
  have "card (absents (mem u) d) + length ?is \<le> length rs" using u(6) len ps by simp
  moreover have "good_page (k_end u) q" if "q \<in> space_pages (mem u) P ?is" for q using sp that u(3) spu by simp
  moreover have "space_pages (mem u) P ?is \<inter> (vm_pages (mem u) d \<union> set rs) = {}" using sp u(4,5) ps unfolding spu by auto
  moreover have "i mod PGSIZE = 0 \<and> unat i + 4096 \<le> 2 ^ 32" if "i \<in> set ?is" for i using pa(2) [OF szb that] by simp
  moreover have "present (vm_entry (mem u) P i) \<and> \<not> present (vm_entry (mem u) d i)" if "i \<in> set ?is" for i
    using pr [OF that] S(1) pa(2) [OF szb that] u(8) [of i] kernel_pte_user [OF data, of i] by (simp add: present_def)
  ultimately obtain t qs where t: "copyuvm_loop P d ?is u = Done d t" "vm_steps d u rs t qs" "copied u P t d ?is (set rs - set qs)"
    "\<And>va. PGROUNDDOWN va \<notin> set ?is \<Longrightarrow> vm_entry (mem t) d va = vm_entry (mem u) d va"
    using copy_loop [OF u(2), of ?is P] pa(1) [OF szb] by blast
  note V = vm_stepsD [OF t(2)]
  have "copyuvm P sz s = Done d t" using d t(1) by (simp add: copyuvm_def kbind_Done [of setupkvm, OF u(1)])
  moreover have "copied s P t d ?is (set ps - set qs)"
  proof -
    have "mem u (table (vm_entry (mem s) P i) + of_nat x) = mem s (table (vm_entry (mem s) P i) + of_nat x)" if "i \<in> set ?is" "x < 4096" for i x
      using that by (intro quiet [OF _ in_span [OF that(2)]]) (simp add: space_pages_def)
    then show ?thesis using t(3) u(4) ps unfolding copied_def S(1) by auto
  qed
  moreover have "mem t x = mem s x" if "q mod PGSIZE = 0" "q \<notin> set ps" "x \<in> span q 4096" for q x
    using V(5) [OF that(1) _ that(3)] u(7) [OF that] u(4,5) that(2) ps by auto
  ultimately show ?thesis using V(1-4) u(3,4,5,8) t(4) ps by (intro exI [of _ d] exI [of _ t] exI [of _ qs]) auto
qed

text \<open>
  C19: copyuvm() gives the child a copy of the parent's memory that is its own. With enough free pages it
  succeeds; the new page tables are well-formed and map every page of the parent below sz, with the
  same permissions, to a page with the same contents; no two of these are the same page, and no
  page of the child's address space (tables included) is one of the parent's or still on the free list. Every other
  address is mapped as setupkvm() maps the kernel, and no byte of the parent's address space has changed.
\<close>

theorem copyuvm_isolates:
  fixes s :: "'z kmm_scheme"
  assumes "free_list s ps" and "1025 + length (page_addrs 0 sz) \<le> length ps" and "data_ok (k_data s)" and us: "user_space s P sz ps"
  shows "wp (copyuvm P sz) (\<lambda>d t. \<exists>qs. vm_ok t d qs \<and> copied s P t d (page_addrs 0 sz) (set ps - set qs) \<and>
      space_pages (mem t) d (page_addrs 0 sz) \<inter> (space_pages (mem s) P (page_addrs 0 sz) \<union> set qs) = {} \<and>
      (\<forall>va. PGROUNDDOWN va \<notin> set (page_addrs 0 sz) \<longrightarrow> vm_entry (mem t) d va = kernel_pte (k_data s) va) \<and>
      (\<forall>q\<in>space_pages (mem s) P (page_addrs 0 sz). \<forall>x\<in>span q 4096. mem t x = mem s x)) s"
proof -
  let ?is = "page_addrs 0 sz"
  obtain d t qs where t: "copyuvm P sz s = Done d t" "vm_ok t d qs" "vm_pages (mem t) d \<subseteq> set ps" "copied s P t d ?is (set ps - set qs)"
    "\<forall>va. PGROUNDDOWN va \<notin> set ?is \<longrightarrow> vm_entry (mem t) d va = kernel_pte (k_data s) va"
    "\<And>q x. q mod PGSIZE = 0 \<Longrightarrow> q \<notin> set ps \<Longrightarrow> x \<in> span q 4096 \<Longrightarrow> mem t x = mem s x"
    using copyuvm_spec [OF assms] by blast
  have sp: "q mod PGSIZE = 0" "q \<notin> set ps" if "q \<in> space_pages (mem s) P ?is" for q
    using us that unfolding user_space_def good_page_def by blast+
  have "space_pages (mem t) d ?is \<subseteq> set ps - set qs"
    using t(3,4) vm_pages_aligned [OF t(2)] unfolding space_pages_def copied_def by blast
  moreover have "mem t x = mem s x" if "q \<in> space_pages (mem s) P ?is" "x \<in> span q 4096" for q x
    using t(6) [OF sp [OF that(1)] that(2)] .
  ultimately show ?thesis using t(1,2,4,5) sp(2) by (intro wpI [of _ _ d t]) blast+
qed

subsection \<open>A user address space of one page, and eleven hundred free pages\<close>

lemma freed_pages:
  fixes s :: "'z kmm_scheme"
  assumes "free_list s ps" and "distinct qs" and "set qs \<inter> set ps = {}" and "\<forall>p\<in>set qs. good_page (k_end s) p"
  shows "free_list (fold freed_page qs s) (rev qs @ ps) \<and> k_end (fold freed_page qs s) = k_end s \<and> k_data (fold freed_page qs s) = k_data s \<and>
    (\<forall>q x. q mod PGSIZE = 0 \<longrightarrow> q \<notin> set qs \<longrightarrow> x \<in> span q 4096 \<longrightarrow> mem (fold freed_page qs s) x = mem s x)"
  using assms
proof (induction qs arbitrary: s ps)
  case (Cons p qs)
  let ?s = "freed_page p s" and ?t = "fold freed_page (p # qs) s"
  have f: "free_list ?s (p # ps)" "k_end ?s = k_end s" "k_data ?s = k_data s"
    using Cons.prems by (simp_all add: freed_page_list) (simp_all add: freed_page_def)
  have t: "free_list ?t (rev (p # qs) @ ps)" "k_end ?t = k_end s" "k_data ?t = k_data s"
    "\<forall>q x. q mod PGSIZE = 0 \<longrightarrow> q \<notin> set qs \<longrightarrow> x \<in> span q 4096 \<longrightarrow> mem ?t x = mem ?s x"
    using Cons.IH [OF f(1)] Cons.prems f(2,3) by auto
  have "mem ?s x = mem s x" if "q mod PGSIZE = 0" "q \<noteq> p" "x \<in> span q 4096" for q x
    using page_disjoint [OF that(1) _ that(2,3)] Cons.prems(4) by (intro freed_page_mem) (auto simp: good_page_def)
  then show ?case using t by (metis list.set_intros)
qed simp

definition demo_mem :: mem where
  "demo_mem = wr32 (wr32 ((\<lambda>_. 0)(0x80202005 := 7)) 0x80200000 0x201007) 0x80201000 0x202007"

definition demo_pages :: "addr list" where
  "demo_pages = map (\<lambda>i. of_nat (4096 * (0x80400 + i))) [0..<1100]"

definition demo_free :: "'z kmm_scheme \<Rightarrow> 'z kmm_scheme" where
  "demo_free s = fold freed_page demo_pages (s\<lparr>mem := demo_mem, kmem_freelist := 0\<rparr>)"

lemma demo_pages_nat: "p \<in> set demo_pages \<Longrightarrow> \<exists>i<1100. unat p = 4096 * (0x80400 + i)"
proof -
  assume "p \<in> set demo_pages"
  then obtain i where i: "i < 1100" "p = of_nat (4096 * (0x80400 + i))" by (auto simp: demo_pages_def simp del: of_nat_mult)
  moreover have "4096 * (0x80400 + i) < 2 ^ 32" using i(1) by simp
  ultimately have "unat p = 4096 * (0x80400 + i)" by (simp only: unat_of_nat_small)
  then show ?thesis using i(1) by blast
qed

lemma demo_pages_ok: "distinct demo_pages" "length demo_pages = 1100" "p \<in> set demo_pages \<Longrightarrow> good_page 0x80115000 p"
proof -
  have u: "unat (of_nat (4096 * (0x80400 + i)) :: addr) = 4096 * (0x80400 + i)" if "i < 1100" for i
    using that by (intro unat_of_nat_small) simp
  have "inj_on (\<lambda>i. of_nat (4096 * (0x80400 + i)) :: addr) {0..<1100}"
  proof (rule inj_onI)
    fix i j assume ij: "i \<in> {0..<1100}" "j \<in> {0..<1100}" "of_nat (4096 * (0x80400 + i)) = (of_nat (4096 * (0x80400 + j)) :: addr)"
    then have "4096 * (0x80400 + i) = 4096 * (0x80400 + j)" using u [of i] u [of j] by (metis atLeastLessThan_iff)
    then show "i = j" by simp
  qed
  then show "distinct demo_pages" by (simp add: demo_pages_def distinct_map del: of_nat_mult)
  show "length demo_pages = 1100" by (simp add: demo_pages_def)
  assume "p \<in> set demo_pages"
  then obtain i where i: "i < 1100" "unat p = 4096 * (0x80400 + i)" using demo_pages_nat by blast
  then have "unat (V2P p) < 0xE000000" by (simp add: V2P_def KERNBASE_def unat_sub_if')
  then show "good_page 0x80115000 p"
    using i unfolding good_page_def aligned_iff word_le_nat_alt word_less_nat_alt PHYSTOP_def by (auto simp: unat_gt_0 [symmetric] simp del: unat_gt_0)
qed

lemma demo_mem_frame:
  assumes "q mod PGSIZE = 0" "x \<in> span q 4096" "q \<noteq> 0x80200000" "q \<noteq> 0x80201000"
  shows "demo_mem x = ((\<lambda>_. 0)(0x80202005 := 7)) x"
  using wr32_page [of "0x80201000" 0 q x] wr32_page [of "0x80200000" 0 q x] assms by (simp add: demo_mem_def PGSIZE_def)

lemma demo_mem_pde:
  assumes "unat i < 1024"
  shows "pde demo_mem 0x80200000 i = (if i = 0 then 0x201007 else 0)"
proof -
  let ?m0 = "(\<lambda>_. 0)(0x80202005 := 7) :: mem"
  have al: "(0x80200000 :: addr) mod PGSIZE = 0" "(0x80201000 :: addr) mod PGSIZE = 0" "(0x80202000 :: addr) mod PGSIZE = 0" by (simp_all add: PGSIZE_def)
  have "pde demo_mem 0x80200000 i = rd32 (wr32 ?m0 0x80200000 0x201007) (0x80200000 + 4 * i)"
    unfolding pde_def demo_mem_def using wr32_page [OF al(2) _ al(1), of 0] by (intro entry_frame [OF al(1) assms]) simp
  moreover have "rd32 (wr32 ?m0 0x80200000 0x201007) (0x80200000 + 4 * i) = rd32 ?m0 (0x80200000 + 4 * i)" if "i \<noteq> 0"
    using entry_aligned [OF al(1) assms] entry_inj(2) [OF al(1) al(1) assms, of 0] that by (intro rd32_wr32_other) auto
  moreover have "rd32 ?m0 (0x80200000 + 4 * i) = rd32 (\<lambda>_. 0) (0x80200000 + 4 * i)"
    using page_disjoint [OF al(1) al(3)] in_span [of 5 4096 "0x80202000"] by (intro entry_frame [OF al(1) assms]) auto
  moreover have "rd32 (\<lambda>_. 0) (0x80200000 + 4 * i) = 0" by (simp add: rd32_def)
  ultimately show ?thesis by (cases "i = 0") simp_all
qed

lemma demo_mem_entry: "vm_entry demo_mem 0x80200000 0 = 0x202007" "demo_mem 0x80202005 = 7"
proof -
  have "PDX 0 = 0" "PTX 0 = 0" by (simp_all add: PDX_def PTX_def)
  moreover have "table 0x201007 = 0x80201000" by (simp add: table_def PTE_ADDR_def P2V_def KERNBASE_def)
  ultimately show "vm_entry demo_mem 0x80200000 0 = 0x202007"
    using demo_mem_pde [of 0] by (simp add: vm_entry_def present_def PTE_P_def) (simp add: demo_mem_def)
  show "demo_mem 0x80202005 = 7" using in_span [of 5 4096 "0x80202000"] by (subst demo_mem_frame [of "0x80202000"]) (simp_all add: PGSIZE_def)
qed

lemma demo_space:
  fixes s :: "'z kmm_scheme"
  assumes "k_end s = 0x80115000" "k_data s = 0x80108000"
  shows "free_list (demo_free s) (rev demo_pages)" "data_ok (k_data (demo_free s))" "user_space (demo_free s) 0x80200000 100 (rev demo_pages)"
    "vm_entry (mem (demo_free s)) 0x80200000 0 = 0x202007" "mem (demo_free s) 0x80202005 = 7"
    "x \<in> span 0x80202000 4096 \<Longrightarrow> x \<noteq> 0x80202005 \<Longrightarrow> mem (demo_free s) x = 0"
proof -
  let ?t = "demo_free s" and ?P = "0x80200000 :: addr"
  have "free_list (s\<lparr>mem := demo_mem, kmem_freelist := 0\<rparr>) []" by (simp add: free_list_def)
  from freed_pages [OF this demo_pages_ok(1)] demo_pages_ok(3) assms
  have t: "free_list ?t (rev demo_pages)" "k_end ?t = 0x80115000" "k_data ?t = 0x80108000"
    "\<And>q x. q mod PGSIZE = 0 \<Longrightarrow> q \<notin> set demo_pages \<Longrightarrow> x \<in> span q 4096 \<Longrightarrow> mem ?t x = demo_mem x"
    by (simp_all add: demo_free_def)
  show "free_list ?t (rev demo_pages)" by fact
  show "data_ok (k_data ?t)" using t(3) by (simp add: data_ok_def KERNLINK_def KERNBASE_def EXTMEM_def P2V_def PHYSTOP_def PGSIZE_def)
  have low: "q \<notin> set demo_pages" if "unat q < 0x80400000" for q using demo_pages_nat [of q] that by auto
  have tb: "table 0x201007 = 0x80201000" "table 0x202007 = 0x80202000" by (simp_all add: table_def PTE_ADDR_def P2V_def KERNBASE_def)
  have vp: "vm_pages demo_mem ?P = {?P, 0x80201000}"
    unfolding vm_pages_def using demo_mem_pde [of 0] tb demo_mem_pde
    by (auto simp: present_def PTE_P_def image_iff split: if_splits intro: exI [of _ 0])
  have al: "(0x80200000 :: addr) mod PGSIZE = 0" "(0x80201000 :: addr) mod PGSIZE = 0" "(0x80202000 :: addr) mod PGSIZE = 0" by (simp_all add: PGSIZE_def)
  have "mem ?t x = demo_mem x" if "q \<in> vm_pages demo_mem ?P" "x \<in> span q 4096" for q x
    using that by (intro t(4) [OF _ low that(2)]) (auto simp: vp PGSIZE_def)
  then have S: "vm_entry (mem ?t) ?P va = vm_entry demo_mem ?P va" "vm_pages (mem ?t) ?P = vm_pages demo_mem ?P" for va
    using vm_same(2,3) [OF al(1)] by metis+
  show e: "vm_entry (mem ?t) ?P 0 = 0x202007" using S(1) demo_mem_entry(1) by simp
  show "mem ?t 0x80202005 = 7"
    using t(4) [OF al(3) low, of "0x80202005"] in_span [of 5 4096 "0x80202000"] demo_mem_entry(2) by simp
  show "mem ?t x = 0" if "x \<in> span 0x80202000 4096" "x \<noteq> 0x80202005" for x
    using t(4) [OF al(3) low that(1)] demo_mem_frame [OF al(3) that(1)] that(2) by simp
  have pg: "page_addrs 0 100 = [0]" by (simp add: page_addrs_def)
  have "space_pages (mem ?t) ?P [0] = {?P, 0x80201000, 0x80202000}" unfolding space_pages_def S(2) vp using e tb by auto
  then show "user_space ?t ?P 100 (rev demo_pages)"
    using t(2) e low unfolding user_space_def pg good_page_def
    by (auto simp: KERNBASE_def present_def PTE_P_def V2P_def PHYSTOP_def PGSIZE_def)
qed

theorem copyuvm_isolates_witness:
  "wp (copyuvm 0x80200000 100) (\<lambda>d t. d \<noteq> 0x80200000 \<and> mem t (table (vm_entry (mem t) d 0) + 5) = 7) (demo_free kmm_demo)"
proof -
  note D = demo_space [OF kmm_demo_sel(3,4)]
  have pg: "page_addrs 0 100 = [0]" by (simp add: page_addrs_def)
  have tb: "table 0x202007 = 0x80202000" by (simp add: table_def PTE_ADDR_def P2V_def KERNBASE_def)
  have "1025 + length (page_addrs 0 100) \<le> length (rev demo_pages)" by (simp add: pg demo_pages_ok(2))
  from copyuvm_isolates [OF D(1) this D(2,3)] show ?thesis
  proof (rule wp_mono, elim exE conjE)
    fix d t qs assume c: "copied (demo_free kmm_demo) 0x80200000 t d (page_addrs 0 100) (set (rev demo_pages) - set qs)"
      and n: "space_pages (mem t) d (page_addrs 0 100) \<inter> (space_pages (mem (demo_free kmm_demo)) 0x80200000 (page_addrs 0 100) \<union> set qs) = {}"
    have "d \<noteq> 0x80200000" using n by (auto simp: space_pages_def vm_pages_def)
    moreover have "mem t (table (vm_entry (mem t) d 0) + of_nat 5) = mem (demo_free kmm_demo) (table 0x202007 + of_nat 5)"
      using c unfolding copied_def pg D(4) [symmetric] by (simp del: of_nat_numeral)
    ultimately show "d \<noteq> 0x80200000 \<and> mem t (table (vm_entry (mem t) d 0) + 5) = 7" using D(5) tb by simp
  qed
qed

end
