(* ===== verification/ForkSpec.thy ===== *)
theory ForkSpec
  imports ProcSpec VmCopy
begin

text \<open>
  fork() as a whole: with a free slot and enough free memory it makes a child whose memory,
  open files and registers are copies of the parent's.
\<close>

lemma vm_ok_cong: "mem t = mem s \<Longrightarrow> kmem_freelist t = kmem_freelist s \<Longrightarrow> k_end t = k_end s \<Longrightarrow> vm_ok t d ps = vm_ok s d ps"
  by (simp add: vm_ok_def free_list_def)

lemma copied_cong: "mem t' = mem t \<Longrightarrow> copied s P t' d is F = copied s P t d is F"
  by (simp add: copied_def)

text \<open>Another page of the free list may be written without touching an address space.\<close>

lemma space_frame:
  assumes us: "user_space s P sz (k # ps)" and k: "k mod PGSIZE = 0" and out: "\<forall>x. x \<notin> span k 4096 \<longrightarrow> mem t x = mem s x" and e: "k_end t = k_end s"
  shows "user_space t P sz ps" "space_pages (mem t) P (page_addrs 0 sz) = space_pages (mem s) P (page_addrs 0 sz)"
    "vm_entry (mem t) P va = vm_entry (mem s) P va"
    "\<And>q x. q \<in> space_pages (mem s) P (page_addrs 0 sz) \<Longrightarrow> x \<in> span q 4096 \<Longrightarrow> mem t x = mem s x"
proof -
  let ?is = "page_addrs 0 sz"
  have sp: "good_page (k_end s) q" "q \<noteq> k" "q \<notin> set ps" if "q \<in> space_pages (mem s) P ?is" for q
    using us that unfolding user_space_def by auto
  show quiet: "mem t x = mem s x" if "q \<in> space_pages (mem s) P ?is" "x \<in> span q 4096" for q x
    using out page_disjoint [OF _ k sp(2) [OF that(1)] that(2)] sp(1) [OF that(1)] by (simp add: good_page_def)
  have P: "P mod PGSIZE = 0" using sp(1) [of P] by (simp add: space_pages_def vm_pages_def good_page_def)
  have "mem t x = mem s x" if "q \<in> vm_pages (mem s) P" "x \<in> span q 4096" for q x
    using that by (intro quiet [of q]) (simp_all add: space_pages_def)
  then have S: "vm_entry (mem t) P va = vm_entry (mem s) P va" "vm_pages (mem t) P = vm_pages (mem s) P" for va
    using vm_same(2,3) [OF P] by metis+
  show "vm_entry (mem t) P va = vm_entry (mem s) P va" by (rule S)
  show spe: "space_pages (mem t) P ?is = space_pages (mem s) P ?is" using S by (simp add: space_pages_def)
  show "user_space t P sz ps" using us sp unfolding user_space_def spe S e by auto
qed

lemma copied_frame:
  assumes "copied s' P t d is F" "F \<subseteq> G" and "\<And>va. vm_entry (mem s') P va = vm_entry (mem s) P va"
    and "\<And>q x. q \<in> space_pages (mem s) P is \<Longrightarrow> x \<in> span q 4096 \<Longrightarrow> mem s' x = mem s x"
  shows "copied s P t d is G"
proof -
  have "mem s' (table (vm_entry (mem s) P i) + of_nat x) = mem s (table (vm_entry (mem s) P i) + of_nat x)" if "i \<in> set is" "x < 4096" for i x
    using that by (intro assms(4) [OF _ in_span]) (simp_all add: space_pages_def)
  then show ?thesis using assms(1,2) unfolding copied_def assms(3) by auto
qed

section \<open>allocproc and the files\<close>

lemma allocproc_eq:
  fixes s :: "'z kfile_scheme"
  assumes np: "find (\<lambda>i. p_state (ptable s i) = UNUSED) [0..<NPROC] = Some np" and fl: "free_list s (k # ps)"
  shows "\<exists>t. allocproc s = Done (Some np) t \<and> ptable t = (ptable s)(np := (ptable s np)\<lparr>p_state := EMBRYO, p_pid := nextpid s, p_kstack := k,
      p_context := kcontext_zero\<lparr>ctx_eip := k_forkret s\<rparr>\<rparr>) \<and> free_list t ps \<and> k_end t = k_end s \<and> k_data t = k_data s \<and> cpu_proc t = cpu_proc s \<and>
      ftable t = ftable s \<and> inodes t = inodes s \<and> (\<forall>x. x \<notin> span k 4096 \<longrightarrow> mem t x = mem s x)"
proof -
  define s1 where "s1 = (upd_proc np (\<lambda>p. p\<lparr>p_state := EMBRYO, p_pid := nextpid s\<rparr>) s)\<lparr>nextpid := nextpid s + 1\<rparr>"
  define s2 where "s2 = s1\<lparr>kmem_freelist := rd32 (mem s1) k\<rparr>"
  define t where "t = upd_proc np (\<lambda>p. p\<lparr>p_kstack := k, p_context := kcontext_zero\<lparr>ctx_eip := k_forkret s\<rparr>\<rparr>)
    (s2\<lparr>mem := wr32 (mem s2) (k + KSTACKSIZE - 76 - 4) (k_trapret s)\<rparr>)"
  have f1: "free_list s1 (k # ps)" using fl by (simp add: free_list_def s1_def upd_proc_def)
  have k: "k \<noteq> 0" "k mod PGSIZE = 0" "k \<notin> set ps" using fl by (auto simp: free_list_def good_page_def)
  have kal: "kalloc s1 = Done k s2" unfolding s2_def by (rule kalloc_page(1) [OF f1])
  have "allocproc s = Done (Some np) t"
    by (simp add: allocproc_def np s1_def [symmetric] kbind_Done [of kalloc, OF kal] k(1) store32_def)
      (simp add: t_def s2_def s1_def upd_proc_def)
  moreover have out: "mem t x = mem s x" if "x \<notin> span k 4096" for x
  proof -
    have e: "k + KSTACKSIZE - 76 - 4 = k + 4 * 1004" by (simp add: KSTACKSIZE_def)
    have "span (k + KSTACKSIZE - 76 - 4) 4 \<subseteq> span k 4096" unfolding e by (rule entry_in_page [OF k(2)]) simp
    then have "wr32 (mem s2) (k + KSTACKSIZE - 76 - 4) (k_trapret s) x = mem s2 x" using that by (intro wr32_other) blast
    then show ?thesis by (simp add: t_def s2_def s1_def upd_proc_def)
  qed
  moreover have "free_list t ps"
  proof (rule free_list_frame [OF kalloc_page(2) [OF f1]])
    fix q x assume q: "q \<in> set ps" "x \<in> span q 4096"
    then have "q mod PGSIZE = 0" "q \<noteq> k" using fl k(3) by (auto simp: free_list_def good_page_def)
    then show "mem t x = mem (s1\<lparr>kmem_freelist := rd32 (mem s1) k\<rparr>) x"
      using out page_disjoint [OF _ k(2) _ q(2)] by (simp add: s1_def upd_proc_def)
  qed (simp_all add: t_def s2_def upd_proc_def)
  ultimately show ?thesis by (intro exI [of _ t]) (auto simp: t_def s2_def s1_def upd_proc_def)
qed

lemma fork_files_total:
  fixes s :: "'z kfile_scheme"
  assumes ne: "c \<noteq> np" and refs: "\<forall>i<NOFILE. \<forall>f. p_ofile (ptable s c) i = Some f \<longrightarrow> 1 \<le> f_ref (ftable s f)"
  shows "fork_files c np s = Done () (s\<lparr>ptable := (ptable s)(np := copied_files NOFILE (ptable s c) (ptable s np)),
    ftable := dup_files NOFILE (ptable s c) (ftable s)\<rparr>)"
proof -
  have "wp (fork_files c np) (\<lambda>_ t. ptable t c = ptable s c) s"
    unfolding fork_files_def
  proof (rule wp_kfor_upt [where I = "\<lambda>_ t. ptable t c = ptable s c \<and> (\<forall>f. f_ref (ftable s f) \<le> f_ref (ftable t f))", THEN wp_mono], goal_cases)
    case (3 i v)
    show ?case
    proof (cases "p_ofile (ptable s c) i")
      case (Some f)
      then have "1 \<le> f_ref (ftable s f)" "f_ref (ftable s f) \<le> f_ref (ftable v f)" using 3 refs by auto
      then have "1 \<le> f_ref (ftable v f)" "f_ref (ftable s f) \<le> f_ref (ftable v f) + 1" by linarith+
      then show ?thesis using Some 3 ne by (auto simp: wp_seq wp_base filedup_def upd_proc_def upd_file_def wp_def)
    qed (use 3 in simp)
  qed simp_all
  then obtain t where "fork_files c np s = Done () t" by (auto simp: wp_iff)
  then show ?thesis using fork_files_Done [OF _ ne] by simp
qed

section \<open>fork\<close>

text \<open>What fork() needs: a slot, a working directory, open files that are in use, and memory.\<close>

definition can_fork :: "nat \<Rightarrow> 'z kfile_scheme \<Rightarrow> addr list \<Rightarrow> bool" where
  "can_fork c s ps \<longleftrightarrow> cpu_proc s = Some c \<and> p_state (ptable s c) \<noteq> UNUSED \<and> (\<exists>i<NPROC. p_state (ptable s i) = UNUSED) \<and>
     p_cwd (ptable s c) \<noteq> None \<and> (\<forall>i<NOFILE. \<forall>f. p_ofile (ptable s c) i = Some f \<longrightarrow> 1 \<le> f_ref (ftable s f)) \<and>
     free_list s ps \<and> 1026 + length (page_addrs 0 (p_sz (ptable s c))) \<le> length ps \<and> data_ok (k_data s) \<and>
     user_space s (p_pgdir (ptable s c)) (p_sz (ptable s c)) ps"

lemma fork_run:
  fixes s :: "'z kfile_scheme"
  assumes c: "cpu_proc s = Some c" and a: "allocproc s = Done (Some np) s1" and p: "ptable s1 c = p" "c \<noteq> np" "p_cwd p = Some ip"
    and d: "copyuvm (p_pgdir p) (p_sz p) s1 = Done d s2" "d \<noteq> 0" and same: "ptable s2 = ptable s1" and k: "p_kstack (ptable s1 np) \<noteq> 0"
    and refs: "\<forall>i<NOFILE. \<forall>f. p_ofile p i = Some f \<longrightarrow> 1 \<le> f_ref (ftable s2 f)"
  shows "\<exists>t q. fork s = Done (sint (p_pid (ptable s1 np))) t \<and> mem t = mem s2 \<and> kmem_freelist t = kmem_freelist s2 \<and> k_end t = k_end s2 \<and>
    ptable t = (ptable s1)(np := q) \<and> forked c p (ptable s1 np) q \<and> p_pid q = p_pid (ptable s1 np) \<and> p_kstack q = p_kstack (ptable s1 np) \<and>
    p_pgdir q = d \<and> ftable t = dup_files NOFILE p (ftable s2) \<and> inodes t = (inodes s2)(ip := (inodes s2 ip)\<lparr>i_ref := i_ref (inodes s2 ip) + 1\<rparr>)"
proof -
  define s3 where "s3 = upd_proc np (\<lambda>q. q\<lparr>p_sz := p_sz p, p_parent := Some c, p_tf := (p_tf p)\<lparr>tf_eax := 0\<rparr>\<rparr>) (upd_proc np (\<lambda>q. q\<lparr>p_pgdir := d\<rparr>) s2)"
  define s4 where "s4 = s3\<lparr>ptable := (ptable s3)(np := copied_files NOFILE (ptable s3 c) (ptable s3 np)), ftable := dup_files NOFILE (ptable s3 c) (ftable s3)\<rparr>"
  define t where "t = upd_proc np (\<lambda>q. q\<lparr>p_state := RUNNABLE\<rparr>) (upd_proc np (set_name (cstring (p_name p)))
    (upd_proc np (\<lambda>q. q\<lparr>p_cwd := Some ip\<rparr>) (upd_inode ip (\<lambda>x. x\<lparr>i_ref := i_ref x + 1\<rparr>) s4)))"
  have s3: "ptable s3 c = p" "ftable s3 = ftable s2" using p same by (simp_all add: s3_def upd_proc_def)
  have files: "fork_files c np s3 = Done () s4" unfolding s4_def using refs s3 by (intro fork_files_total [OF p(2)]) simp
  have "fork s = Done (sint (p_pid (ptable s1 np))) t"
    using p d(2) same
    by (simp add: fork_def with_curproc_eq [OF c] kbind_Done [of allocproc, OF a] kbind_Done [of "copyuvm _ _", OF d(1)] s3_def [symmetric]
      kthen_Done [of "fork_files c np", OF files] idup_def t_def [symmetric])
      (simp add: s4_def s3_def upd_inode_def upd_proc_def set_name_def Let_def copied_files_def)
  moreover have "forked c p (ptable s1 np) (ptable t np)"
    using p d(2) same k
    by (simp add: forked_def t_def s4_def s3_def upd_proc_def upd_inode_def set_name_def Let_def copied_files_def cong: if_cong)
  ultimately show ?thesis using p same s3
    by (intro exI [of _ t] exI [of _ "ptable t np"])
      (simp add: t_def s4_def s3_def upd_proc_def upd_inode_def set_name_def Let_def copied_files_def)
qed

text \<open>
  C20: fork() makes a copy of the calling process. With a free slot and enough free pages it succeeds
  and returns the pid of the child, which is runnable, has the caller as parent and the caller's
  registers except that its call returns 0; it shares the caller's open files and working directory, each
  with its reference counted; and its memory has the same contents and permissions in pages that were
  free, none of them its kernel stack. No byte of the caller's memory and no other process has changed.
\<close>

theorem fork_copies:
  fixes s :: "'z kfile_scheme"
  assumes "can_fork c s ps"
  defines "p \<equiv> ptable s c"
  shows "wp fork (\<lambda>r t. \<exists>np q ip qs. np < NPROC \<and> p_state (ptable s np) = UNUSED \<and> r = sint (p_pid q) \<and> p_pid q = nextpid s \<and>
      ptable t = (ptable s)(np := q) \<and> forked c p (ptable s np) q \<and> ftable t = dup_files NOFILE p (ftable s) \<and>
      p_cwd p = Some ip \<and> inodes t = (inodes s)(ip := (inodes s ip)\<lparr>i_ref := i_ref (inodes s ip) + 1\<rparr>) \<and>
      vm_ok t (p_pgdir q) qs \<and> copied s (p_pgdir p) t (p_pgdir q) (page_addrs 0 (p_sz p)) (set ps - set qs - {p_kstack q}) \<and>
      p_kstack q \<in> set ps - set qs \<and>
      (\<forall>x\<in>space_pages (mem s) (p_pgdir p) (page_addrs 0 (p_sz p)). \<forall>a\<in>span x 4096. mem t a = mem s a)) s"
proof -
  note A = assms(1) [unfolded can_fork_def, folded p_def]
  let ?is = "page_addrs 0 (p_sz p)" and ?P = "p_pgdir p"
  obtain np where np: "find (\<lambda>i. p_state (ptable s i) = UNUSED) [0..<NPROC] = Some np"
    using A by (cases "find (\<lambda>i. p_state (ptable s i) = UNUSED) [0..<NPROC]") (auto simp: find_None_iff)
  then have np': "np < NPROC" "p_state (ptable s np) = UNUSED" by (auto dest!: find_Some_sat)
  then have ne: "c \<noteq> np" using A p_def by auto
  obtain k ps' where ps: "ps = k # ps'" using A by (cases ps) auto
  have k: "k mod PGSIZE = 0" "k \<notin> set ps'" "k \<noteq> 0" using A ps by (auto simp: free_list_def good_page_def)
  obtain ip where ip: "p_cwd p = Some ip" using A by auto
  let ?q1 = "(ptable s np)\<lparr>p_state := EMBRYO, p_pid := nextpid s, p_kstack := k, p_context := kcontext_zero\<lparr>ctx_eip := k_forkret s\<rparr>\<rparr>"
  obtain s1 where s1: "allocproc s = Done (Some np) s1" "ptable s1 = (ptable s)(np := ?q1)" "free_list s1 ps'" "k_end s1 = k_end s"
    "k_data s1 = k_data s" "cpu_proc s1 = cpu_proc s" "ftable s1 = ftable s" "inodes s1 = inodes s" "\<forall>x. x \<notin> span k 4096 \<longrightarrow> mem s1 x = mem s x"
    using allocproc_eq [OF np, of k ps'] A ps by auto
  have us: "user_space s ?P (p_sz p) (k # ps')" using A ps by simp
  note F = space_frame [OF us k(1) s1(9,4)]
  obtain d s2 qs where s2: "copyuvm ?P (p_sz p) s1 = Done d s2" "d \<in> set ps'" "vm_ok s2 d qs" "k_end s2 = k_end s1" "set qs \<subseteq> set ps'"
    "copied s1 ?P s2 d ?is (set ps' - set qs)" "\<And>q x. q mod PGSIZE = 0 \<Longrightarrow> q \<notin> set ps' \<Longrightarrow> x \<in> span q 4096 \<Longrightarrow> mem s2 x = mem s1 x"
    using copyuvm_spec [OF s1(3) _ _ F(1)] A s1(5) ps by auto
  have d: "d \<noteq> 0" using s2(2) s1(3) by (auto simp: free_list_def good_page_def)
  have f2: "ptable s2 = ptable s1" "ftable s2 = ftable s1" "inodes s2 = inodes s1"
    using framesD [OF frames_vm(3) s2(1)] beyond_mem_proc beyond_mem_file by metis+
  have refs: "\<forall>i<NOFILE. \<forall>f. p_ofile p i = Some f \<longrightarrow> 1 \<le> f_ref (ftable s2 f)" using A f2 s1(7) by simp
  have pc: "ptable s1 c = p" "p_kstack (ptable s1 np) \<noteq> 0" using s1(2) ne k(3) by (simp_all add: p_def)
  have c: "cpu_proc s = Some c" using A by simp
  obtain t q where t: "fork s = Done (sint (nextpid s)) t" "mem t = mem s2" "kmem_freelist t = kmem_freelist s2" "k_end t = k_end s2"
    "ptable t = (ptable s1)(np := q)" "forked c p ?q1 q" "p_pid q = nextpid s" "p_kstack q = k" "p_pgdir q = d"
    "ftable t = dup_files NOFILE p (ftable s2)" "inodes t = (inodes s2)(ip := (inodes s2 ip)\<lparr>i_ref := i_ref (inodes s2 ip) + 1\<rparr>)"
    using fork_run [OF c s1(1) pc(1) ne ip s2(1) d f2(1) pc(2) refs] s1(2) by auto
  have "copied s ?P s2 d ?is (set ps - set qs - {k})"
    by (rule copied_frame [OF s2(6) _ F(3,4)]) (use ps k(2) in auto)
  then have "copied s ?P t d ?is (set ps - set qs - {k})" by (simp add: copied_cong [OF t(2)])
  moreover have "vm_ok t d qs" using s2(3) vm_ok_cong [OF t(2-4)] by simp
  moreover have "mem t a = mem s a" if "x \<in> space_pages (mem s) ?P ?is" "a \<in> span x 4096" for x a
    using s2(7) [of x a] F(4) [OF that] us that by (auto simp: t(2) user_space_def good_page_def)
  moreover have "forked c p (ptable s np) q" "ptable t = (ptable s)(np := q)" using t(5,6) s1(2) by (simp_all add: forked_def copied_files_def cong: if_cong)
  ultimately show ?thesis using np' t f2 s1(7,8) ip k(2) s2(5) ps
    by (intro wpI [of fork, OF t(1)] exI [of _ np] exI [of _ q] exI [of _ ip] exI [of _ qs]) auto
qed

definition fork_demo :: kfile where
  "fork_demo = demo_free (proc_demo\<lparr>cpu_proc := Some 0, ftable := (\<lambda>_. \<lparr>f_type = FD_NONE, f_ref = 1, f_readable = False, f_writable = False,
     f_pipe = 0, f_ip = None, f_off = 0\<rparr>), ptable := (ptable proc_demo)(0 := (ptable proc_demo 0)\<lparr>p_state := RUNNING, p_sz := 100,
     p_cwd := Some 1, p_ofile := (\<lambda>_. None)(0 := Some 0)\<rparr>)\<rparr>)"

lemma beyond_mem_freed: "beyond_mem f \<Longrightarrow> f (fold freed_page ps s) = f s"
  by (induction ps arbitrary: s) (simp_all add: beyond_mem_def freed_page_def)

lemma beyond_mem_demo_free: "beyond_mem f \<Longrightarrow> f (demo_free s) = f s"
  unfolding demo_free_def by (simp add: beyond_mem_freed) (simp add: beyond_mem_def)

lemma fork_demo_sel:
  "ptable fork_demo = (ptable proc_demo)(0 := (ptable proc_demo 0)\<lparr>p_state := RUNNING, p_sz := 100, p_cwd := Some 1, p_ofile := (\<lambda>_. None)(0 := Some 0)\<rparr>)"
  "cpu_proc fork_demo = Some 0" "nextpid fork_demo = 2" "f_ref (ftable fork_demo f) = 1"
  unfolding fork_demo_def by (simp_all add: beyond_mem_demo_free beyond_mem_proc beyond_mem_file)

lemma fork_demo_space:
  "free_list fork_demo (rev demo_pages)" "data_ok (k_data fork_demo)" "user_space fork_demo 0x80200000 100 (rev demo_pages)"
  "vm_entry (mem fork_demo) 0x80200000 0 = 0x202007" "mem fork_demo 0x80202005 = 7"
  unfolding fork_demo_def by (intro demo_space; simp add: proc_demo_def kmm.defs kmm_demo_def)+

lemma fork_demo_can: "can_fork 0 fork_demo (rev demo_pages)"
proof -
  have "\<exists>i<NPROC. p_state (ptable fork_demo i) = UNUSED" by (intro exI [of _ 1]) (simp add: fork_demo_sel NPROC_def)
  moreover have "page_addrs 0 100 = [0]" by (simp add: page_addrs_def)
  ultimately show ?thesis using fork_demo_space by (simp add: can_fork_def fork_demo_sel demo_pages_ok(2))
qed

theorem fork_copies_witness:
  "wp fork (\<lambda>r t. r = 2 \<and> (\<exists>np. p_parent (ptable t np) = Some 0 \<and> p_ofile (ptable t np) 0 = Some 0 \<and> f_ref (ftable t 0) = 2 \<and>
      mem t (table (vm_entry (mem t) (p_pgdir (ptable t np)) 0) + 5) = 7)) fork_demo"
  using fork_copies [OF fork_demo_can]
proof (rule wp_mono, elim exE conjE)
  fix r t np q ip qs
  assume r: "r = sint (p_pid q)" "p_pid q = nextpid fork_demo" and t: "ptable t = (ptable fork_demo)(np := q)"
    and f: "forked 0 (ptable fork_demo 0) (ptable fork_demo np) q" and ft: "ftable t = dup_files NOFILE (ptable fork_demo 0) (ftable fork_demo)"
    and c: "copied fork_demo (p_pgdir (ptable fork_demo 0)) t (p_pgdir q) (page_addrs 0 (p_sz (ptable fork_demo 0))) (set (rev demo_pages) - set qs - {p_kstack q})"
  have pg: "page_addrs 0 100 = [0]" by (simp add: page_addrs_def)
  have tb: "table 0x202007 = 0x80202000" by (simp add: table_def PTE_ADDR_def P2V_def KERNBASE_def)
  have "fds_of (ptable fork_demo 0) NOFILE 0 = {0}" by (auto simp: fds_of_def fork_demo_sel NOFILE_def split: if_splits)
  then have "f_ref (ftable t 0) = 2" by (simp add: ft dup_files_def fork_demo_sel)
  moreover have "mem t (table (vm_entry (mem t) (p_pgdir q) 0) + of_nat 5) = mem fork_demo (table 0x202007 + of_nat 5)"
    using c unfolding copied_def fork_demo_space(4) [symmetric] by (simp add: fork_demo_sel pg del: of_nat_numeral)
  moreover have "p_parent q = Some 0" "p_ofile q 0 = Some 0" using f by (simp_all add: forked_def copied_files_def fork_demo_sel NOFILE_def)
  ultimately show "r = 2 \<and> (\<exists>np. p_parent (ptable t np) = Some 0 \<and> p_ofile (ptable t np) 0 = Some 0 \<and> f_ref (ftable t 0) = 2 \<and>
      mem t (table (vm_entry (mem t) (p_pgdir (ptable t np)) 0) + 5) = 7)"
    using r fork_demo_sel(3) fork_demo_space(5) tb by (intro conjI exI [of _ np]) (simp_all add: t)
qed

end
