(* ===== verification/ArgSpec.thy ===== *)
theory ArgSpec
  imports ForkSpec
begin

text \<open>
  System call arguments. Whatever the user program puts in its registers and memory, fetching an
  argument neither faults nor changes anything, and reaches no byte outside the program's memory.
\<close>

definition user_byte :: "'z kmm_scheme \<Rightarrow> addr \<Rightarrow> byte" where
  "user_byte s va = mem s (the (translate (mem s) (P2V (cr3 s)) va))"

text \<open>The process that has the CPU runs in its own address space, which is mapped up to its size.\<close>

definition in_space :: "nat \<Rightarrow> 'z kmm_scheme \<Rightarrow> bool" where
  "in_space c s \<longleftrightarrow> cpu_proc s = Some c \<and> P2V (cr3 s) = p_pgdir (ptable s c) \<and>
     (\<exists>ps. user_space s (p_pgdir (ptable s c)) (p_sz (ptable s c)) ps)"

lemma page_addrs_cover:
  assumes "va < sz"
  shows "PGROUNDDOWN va \<in> set (page_addrs 0 sz)"
proof -
  have u: "unat (PGROUNDDOWN va) = 4096 * (unat va div 4096)" by (rule PGROUNDDOWN_nat)
  have "unat va div 4096 < (unat sz + 4095) div 4096" using assms by (simp add: word_less_nat_alt)
  moreover have "PGROUNDDOWN va = of_nat (4096 * (unat va div 4096))" unfolding u [symmetric] by simp
  ultimately show ?thesis by (auto simp: page_addrs_def simp del: of_nat_mult)
qed

lemma translate_entry:
  assumes "present (vm_entry m P va)"
  shows "translate m P va = Some (table (vm_entry m P va) + (va AND 0xFFF))"
  using assms by (auto simp: translate_def vm_entry_def pde_def present_def table_def Let_def split: if_splits)

lemma in_space_translate:
  assumes "in_space c s" and "va < p_sz (ptable s c)"
  shows "\<exists>a. translate (mem s) (P2V (cr3 s)) va = Some a"
proof -
  let ?P = "p_pgdir (ptable s c)"
  have "present (vm_entry (mem s) ?P (PGROUNDDOWN va))"
    using assms page_addrs_cover by (auto simp: in_space_def user_space_def)
  moreover have "vm_entry (mem s) ?P (PGROUNDDOWN va) = vm_entry (mem s) ?P va"
  proof -
    have "PGROUNDDOWN (PGROUNDDOWN va) = PGROUNDDOWN va" by (simp add: word_unat_eq_iff PGROUNDDOWN_nat)
    then show ?thesis using same_entry [of "PGROUNDDOWN va" va] by (simp add: vm_entry_def)
  qed
  ultimately show ?thesis using translate_entry assms(1) by (metis in_space_def)
qed

lemma user_load_eq: "in_space c s \<Longrightarrow> va < p_sz (ptable s c) \<Longrightarrow> user_load va s = Done (user_byte s va) s"
  using in_space_translate [of c s va] by (auto simp: user_load_def user_byte_def)

lemma in_space_bound: "in_space c s \<Longrightarrow> unat (p_sz (ptable s c)) \<le> 0x80000000"
  by (auto simp: in_space_def user_space_def KERNBASE_def word_le_nat_alt)

lemma user_bytes_eq:
  assumes "in_space c s" and "unat va + n \<le> unat (p_sz (ptable s c))"
  shows "user_bytes va n s = Done (map (\<lambda>i. user_byte s (va + of_nat i)) [0..<n]) s"
  using assms(2)
proof (induction n arbitrary: va)
  case (Suc n)
  have "unat (va + 1) = unat va + 1" using Suc.prems in_space_bound [OF assms(1)] by (simp add: unat_plus_if')
  then have "user_bytes (va + 1) n s = Done (map (\<lambda>i. user_byte s (va + 1 + of_nat i)) [0..<n]) s" using Suc.prems by (intro Suc.IH) simp
  moreover have "user_load va s = Done (user_byte s va) s"
    using Suc.prems by (intro user_load_eq [OF assms(1)]) (simp add: word_less_nat_alt)
  moreover have "map (\<lambda>i. user_byte s (va + of_nat i)) [0..<Suc n] = user_byte s va # map (\<lambda>i. user_byte s (va + 1 + of_nat i)) [0..<n]"
    by (simp only: upt_conv_Cons [of 0 "Suc n"] map_Suc_upt [symmetric]) (simp add: o_def add.assoc)
  ultimately show ?case by (simp add: kbind_Done [of "user_load va"] kbind_Done [of "user_bytes _ _"])
qed simp

section \<open>What the arguments are\<close>

text \<open>The bytes of the program's memory from \<open>a\<close> on, and the NUL-terminated string there.\<close>

definition user_mem :: "'z kmm_scheme \<Rightarrow> addr \<Rightarrow> nat \<Rightarrow> byte list" where
  "user_mem s a n = map (\<lambda>i. user_byte s (a + of_nat i)) [0..<n]"

definition user_string :: "'z kmm_scheme \<Rightarrow> uint \<Rightarrow> addr \<Rightarrow> byte list option" where
  "user_string s sz a = (let bs = user_mem s a (unat sz - unat a) in
     if 0 \<in> set bs then Some (takeWhile (\<lambda>b. b \<noteq> 0) bs) else None)"

definition arg_word :: "'z kmm_scheme \<Rightarrow> proc \<Rightarrow> uint \<Rightarrow> uint option" where
  "arg_word s p n = (let a = tf_esp (p_tf p) + 4 + 4 * n in
     if unat a + 4 \<le> unat (p_sz p) then Some (get32 (user_mem s a 4) 0) else None)"

lemma user_mem_Suc: "user_mem s a (Suc n) = user_byte s a # user_mem s (a + 1) n"
  unfolding user_mem_def by (simp only: upt_conv_Cons [of 0 "Suc n"] map_Suc_upt [symmetric]) (simp add: o_def add.assoc)

lemma fetchint_eq:
  assumes "in_space c s"
  shows "fetchint a s = Done (if unat a + 4 \<le> unat (p_sz (ptable s c)) then Some (get32 (user_mem s a 4) 0) else None) s"
proof -
  let ?sz = "p_sz (ptable s c)"
  have "a < ?sz \<Longrightarrow> unat (a + 4) = unat a + 4" using in_space_bound [OF assms] by (simp add: word_less_nat_alt unat_plus_if')
  then have g: "(a \<ge> ?sz \<or> a + 4 > ?sz) \<longleftrightarrow> \<not> unat a + 4 \<le> unat ?sz" unfolding word_less_nat_alt word_le_nat_alt by linarith
  have "cur_sz s = Done ?sz s" using assms by (simp add: cur_sz_def in_space_def with_curproc_eq)
  then show ?thesis using user_bytes_eq [OF assms, of a 4] unfolding fetchint_def user_mem_def by (simp add: kbind_Done [of cur_sz] kbind_Done [of "user_bytes a 4"] g)
qed

lemma fetchstr_loop_eq:
  assumes "in_space c s" and "sz = p_sz (ptable s c)"
  shows "fetchstr_loop a sz s = Done (user_string s sz a) s"
  using assms
proof (induction a sz rule: fetchstr_loop.induct)
  case (1 a sz)
  show ?case
  proof (cases "a < sz")
    case True
    then have u: "unat (a + 1) = unat a + 1" "unat sz - unat a = Suc (unat sz - unat (a + 1))"
      using in_space_bound [OF "1.prems"(1)] "1.prems"(2) by (simp_all add: word_less_nat_alt unat_plus_if')
    have l: "user_load a s = Done (user_byte s a) s" using True "1.prems" by (intro user_load_eq) auto
    show ?thesis
    proof (cases "user_byte s a = 0")
      case False
      then have "fetchstr_loop (a + 1) sz s = Done (user_string s sz (a + 1)) s" using "1.IH" [OF True] "1.prems" by blast
      then show ?thesis using False True l u
        by (subst fetchstr_loop.simps) (simp add: kbind_Done [of "user_load a"] kbind_Done [of "fetchstr_loop _ _"] user_string_def user_mem_Suc Let_def)
    qed (use True l u in \<open>subst fetchstr_loop.simps, simp add: kbind_Done [of "user_load a"] user_string_def user_mem_Suc Let_def\<close>)
  next
    case False
    then have "unat sz - unat a = 0" by (simp add: word_less_nat_alt)
    then show ?thesis using False by (subst fetchstr_loop.simps) (simp add: user_string_def user_mem_def)
  qed
qed

lemma fetchstr_eq:
  assumes "in_space c s"
  shows "fetchstr a s = Done (user_string s (p_sz (ptable s c)) a) s"
proof -
  let ?sz = "p_sz (ptable s c)"
  have "cur_sz s = Done ?sz s" using assms by (simp add: cur_sz_def in_space_def with_curproc_eq)
  moreover have "user_string s ?sz a = None" if "a \<ge> ?sz" using that by (simp add: user_string_def user_mem_def word_le_nat_alt)
  ultimately show ?thesis using fetchstr_loop_eq [OF assms refl, of a] unfolding fetchstr_def by (simp add: kbind_Done [of cur_sz])
qed

text \<open>
  C22: Fetching system call arguments is safe for any stack pointer, argument number and memory
  contents. It never faults and changes nothing. A word argument is the four bytes at its place
  on the user stack, if all of them are inside the program's memory; a pointer argument is accepted
  exactly when the whole buffer lies below the program's size, without wrapping around; a string argument
  is accepted exactly when it ends with a NUL below that size.
\<close>

theorem syscall_args_safe:
  assumes "in_space c s" and "len < 2 ^ 31"
  defines "p \<equiv> ptable s c"
  shows "argint n s = Done (arg_word s p n) s \<and>
    argptr n len s = Done (case arg_word s p n of None \<Rightarrow> None
      | Some a \<Rightarrow> if 0 \<le> len \<and> a < p_sz p \<and> uint a + len \<le> uint (p_sz p) then Some a else None) s \<and>
    argstr n s = Done (Option.bind (arg_word s p n) (user_string s (p_sz p))) s"
proof -
  let ?sz = "p_sz p"
  have c: "cpu_proc s = Some c" "cur_sz s = Done ?sz s" using assms by (simp_all add: in_space_def cur_sz_def with_curproc_eq)
  have i: "argint n s = Done (arg_word s p n) s"
    using fetchint_eq [OF assms(1)] by (simp add: argint_def with_curproc_eq [OF c(1)] arg_word_def p_def Let_def)
  have g: "(len < 0 \<or> a \<ge> ?sz \<or> a + word_of_int len > ?sz) \<longleftrightarrow> \<not> (0 \<le> len \<and> a < ?sz \<and> uint a + len \<le> uint ?sz)" for a
  proof (cases "0 \<le> len \<and> a < ?sz")
    case True
    have l: "0 \<le> len" "len < 0x80000000" "a < ?sz" using True assms(2) by simp_all
    have sz: "unat ?sz \<le> 0x80000000" using in_space_bound [OF assms(1)] unfolding p_def .
    have n: "unat (word_of_int len :: uint) = nat len" using l(1,2) by (simp add: unat_eq_nat_uint uint_word_of_int_eq take_bit_int_eq_self)
    have "unat (a + word_of_int len) = unat a + nat len" using l sz n unfolding word_less_nat_alt by (subst unat_plus_if') auto
    then show ?thesis using l unfolding word_less_nat_alt word_le_nat_alt uint_nat by linarith
  qed auto
  have "argptr n len s = Done (case arg_word s p n of None \<Rightarrow> None
      | Some a \<Rightarrow> if 0 \<le> len \<and> a < ?sz \<and> uint a + len \<le> uint ?sz then Some a else None) s"
    by (cases "arg_word s p n") (simp_all only: argptr_def kbind_Done [of "argint n", OF i] kbind_Done [of cur_sz, OF c(2)] g option.simps if_not_P if_P,
      simp_all)
  moreover have "argstr n s = Done (Option.bind (arg_word s p n) (user_string s ?sz)) s"
    unfolding argstr_def using fetchstr_eq [OF assms(1)] by (simp add: kbind_Done [of "argint n", OF i] p_def split: option.split)
  ultimately show ?thesis using i by blast
qed

definition arg_demo :: kmm where
  "arg_demo = demo_free (kmm_demo\<lparr>cr3 := 0x200000, cpu_proc := Some 0, ptable := (\<lambda>_. proc_zero)(0 := proc_zero\<lparr>p_state := RUNNING,
     p_pgdir := 0x80200000, p_sz := 100, p_tf := trapframe_zero\<lparr>tf_esp := 1\<rparr>\<rparr>)\<rparr>)"

lemma arg_demo_sel:
  "cpu_proc arg_demo = Some 0" "cr3 arg_demo = 0x200000"
  "ptable arg_demo = (\<lambda>_. proc_zero)(0 := proc_zero\<lparr>p_state := RUNNING, p_pgdir := 0x80200000, p_sz := 100, p_tf := trapframe_zero\<lparr>tf_esp := 1\<rparr>\<rparr>)"
proof -
  have "beyond_mem (cr3 :: kmm \<Rightarrow> _)" by (simp add: beyond_mem_def)
  then show "cpu_proc arg_demo = Some 0" "cr3 arg_demo = 0x200000"
    "ptable arg_demo = (\<lambda>_. proc_zero)(0 := proc_zero\<lparr>p_state := RUNNING, p_pgdir := 0x80200000, p_sz := 100, p_tf := trapframe_zero\<lparr>tf_esp := 1\<rparr>\<rparr>)"
    unfolding arg_demo_def by (simp_all add: beyond_mem_demo_free beyond_mem_proc)
qed

lemma arg_demo_space:
  "user_space arg_demo 0x80200000 100 (rev demo_pages)" "vm_entry (mem arg_demo) 0x80200000 0 = 0x202007" "mem arg_demo 0x80202005 = 7"
  "x \<in> span 0x80202000 4096 \<Longrightarrow> x \<noteq> 0x80202005 \<Longrightarrow> mem arg_demo x = 0"
  unfolding arg_demo_def by (intro demo_space; simp)+

lemma arg_demo_byte:
  assumes "va < 4096"
  shows "user_byte arg_demo va = (if va = 5 then 7 else 0)"
proof -
  have u: "unat va < 4096" using assms by (simp add: word_less_nat_alt)
  then have "PGROUNDDOWN va = PGROUNDDOWN 0" by (simp add: word_unat_eq_iff PGROUNDDOWN_nat)
  then have "vm_entry (mem arg_demo) 0x80200000 va = vm_entry (mem arg_demo) 0x80200000 0" using same_entry [of va 0] by (simp add: vm_entry_def)
  then have e: "vm_entry (mem arg_demo) 0x80200000 va = 0x202007" using arg_demo_space(2) by simp
  have "va AND 0xFFF = va"
  proof -
    have "take_bit 12 va = va" using u by (simp add: word_unat_eq_iff unsigned_take_bit_eq take_bit_nat_eq_self)
    then have "va AND mask 12 = va" by (simp only: take_bit_eq_mask)
    then show ?thesis by (simp add: mask_eq_exp_minus_1)
  qed
  moreover have "table 0x202007 = 0x80202000" by (simp add: table_def PTE_ADDR_def P2V_def KERNBASE_def)
  ultimately have "translate (mem arg_demo) 0x80200000 va = Some (0x80202000 + va)"
    using translate_entry [of "mem arg_demo" "0x80200000" va] e by (simp add: present_def PTE_P_def)
  moreover have "P2V (cr3 arg_demo) = 0x80200000" by (simp add: arg_demo_sel P2V_def KERNBASE_def)
  ultimately have b: "user_byte arg_demo va = mem arg_demo (0x80202000 + va)" by (simp add: user_byte_def)
  have "0x80202000 + va \<in> span 0x80202000 4096" using in_span [of "unat va" 4096 "0x80202000"] u by simp
  then show ?thesis using b arg_demo_space(3,4) by (cases "va = 5") auto
qed

theorem syscall_args_safe_witness: "argptr 0 10 arg_demo = Done (Some 7) arg_demo \<and> argstr 0 arg_demo = Done (Some []) arg_demo"
proof -
  have sp: "in_space 0 arg_demo"
    using arg_demo_space(1) by (auto simp: in_space_def arg_demo_sel P2V_def KERNBASE_def)
  have "user_mem arg_demo 5 4 = [7, 0, 0, 0]" by (simp add: user_mem_def arg_demo_byte upt_rec)
  then have w: "arg_word arg_demo (ptable arg_demo 0) 0 = Some 7"
    by (simp add: arg_word_def arg_demo_sel Let_def get32_def)
  have "user_mem arg_demo 7 93 = 0 # user_mem arg_demo 8 92"
    using user_mem_Suc [of arg_demo 7 92] by (simp add: arg_demo_byte)
  then have "user_string arg_demo 100 7 = Some []" by (simp add: user_string_def Let_def)
  then show ?thesis using syscall_args_safe [OF sp, of 10 0] w by (simp add: arg_demo_sel)
qed

end
