(* ===== verification/Sh.thy ===== *)
theory Sh
  imports CStrings Sysfile
begin

text \<open>
  The shell's parser. A command line is the bytes before its NUL; the pointers into it are
  positions, and reading at the end gives the NUL. malloc() is taken to succeed. The recursive functions
  of the parser take fuel, of which parsecmd() supplies what the length of the line needs.
\<close>

section \<open>Commands\<close>

text \<open>
  The words of a command (arguments and file names) are pairs of positions, where the word
  begins and where it ends, until they are NUL-terminated.
\<close>

type_synonym span_pos = "nat \<times> nat"

datatype 'w cmd =
    EXEC "'w list"
  | REDIR "'w cmd" 'w uint nat
  | PIPE "'w cmd" "'w cmd"
  | LIST "'w cmd" "'w cmd"
  | BACK "'w cmd"

type_synonym pcmd = "span_pos cmd"

definition MAXARGS :: nat where "MAXARGS = 10"

datatype sh_error = NoFuel | ShPanic string | Leftovers "byte list"

section \<open>Tokens\<close>

definition whitespace :: "byte list" where
  "whitespace = [0x20, 0x09, 0x0D, 0x0A, 0x0B]"

definition symbols :: "byte list" where
  "symbols = [0x3C, 0x7C, 0x3E, 0x26, 0x3B, 0x28, 0x29]"

definition char_at :: "byte list \<Rightarrow> nat \<Rightarrow> byte" where
  "char_at buf s = (if s < length buf then buf ! s else 0)"

text \<open>The two scanning loops: \<open>while(s < es && P(*s)) s++\<close>.\<close>

definition scan_while :: "(byte \<Rightarrow> bool) \<Rightarrow> byte list \<Rightarrow> nat \<Rightarrow> nat" where
  "scan_while P buf s = s + length (takeWhile P (drop s buf))"

definition skip_ws :: "byte list \<Rightarrow> nat \<Rightarrow> nat" where
  "skip_ws = scan_while (\<lambda>c. c \<in> set whitespace)"

definition word_char :: "byte \<Rightarrow> bool" where
  "word_char c \<longleftrightarrow> c \<notin> set whitespace \<and> c \<notin> set symbols"

definition token_at :: "byte list \<Rightarrow> nat \<Rightarrow> byte \<times> nat" where
  "token_at buf q = (let c = char_at buf q in
     if c = 0 then (0, q)
     else if c = 0x3E then if char_at buf (q + 1) = 0x3E then (0x2B, q + 2) else (c, q + 1)
     else if c \<in> set symbols then (c, q + 1)
     else (0x61, scan_while word_char buf q))"

definition gettoken :: "byte list \<Rightarrow> nat \<Rightarrow> byte \<times> span_pos \<times> nat" where
  "gettoken buf ps = (let q = skip_ws buf ps; (ret, e) = token_at buf q in (ret, (q, e), skip_ws buf e))"

definition peek :: "byte list \<Rightarrow> nat \<Rightarrow> byte list \<Rightarrow> bool \<times> nat" where
  "peek buf ps toks = (let s = skip_ws buf ps; c = char_at buf s in (c \<noteq> 0 \<and> c \<in> set toks, s))"

lemma scan_while_bounds: "s \<le> scan_while P buf s" "s \<le> length buf \<Longrightarrow> scan_while P buf s \<le> length buf"
proof -
  show "s \<le> scan_while P buf s" by (simp add: scan_while_def)
  have "length (takeWhile P (drop s buf)) \<le> length buf - s" using length_takeWhile_le [of P "drop s buf"] by simp
  then show "s \<le> length buf \<Longrightarrow> scan_while P buf s \<le> length buf" by (simp add: scan_while_def)
qed

lemma skip_ws_bounds: "s \<le> skip_ws buf s" "s \<le> length buf \<Longrightarrow> skip_ws buf s \<le> length buf"
  unfolding skip_ws_def by (rule scan_while_bounds)+

lemma char_at_less: "char_at buf s \<noteq> 0 \<Longrightarrow> s < length buf"
  by (simp add: char_at_def split: if_splits)

lemma scan_while_step: "s < length buf \<Longrightarrow> P (buf ! s) \<Longrightarrow> s < scan_while P buf s"
  by (simp add: scan_while_def Cons_nth_drop_Suc [symmetric])

lemma scan_while_stop: "scan_while P buf s < length buf \<Longrightarrow> s \<le> length buf \<Longrightarrow> \<not> P (buf ! scan_while P buf s)"
  using nth_length_takeWhile [of P "drop s buf"] by (simp add: scan_while_def)

lemma scan_while_in: "s \<le> i \<Longrightarrow> i < scan_while P buf s \<Longrightarrow> i < length buf \<and> P (buf ! i)"
proof -
  assume i: "s \<le> i" "i < scan_while P buf s"
  then have j: "i - s < length (takeWhile P (drop s buf))" by (simp add: scan_while_def)
  moreover have "length (takeWhile P (drop s buf)) \<le> length buf - s" using length_takeWhile_le [of P "drop s buf"] by simp
  ultimately have "i - s < length buf - s" by simp
  moreover have "P (takeWhile P (drop s buf) ! (i - s))" using j set_takeWhileD nth_mem by metis
  then have "P (drop s buf ! (i - s))" using j by (simp add: takeWhile_nth)
  ultimately show ?thesis using i by simp
qed

lemma skip_ws_stop: "s \<le> length buf \<Longrightarrow> char_at buf (skip_ws buf s) \<notin> set whitespace"
  using scan_while_stop [of "\<lambda>c. c \<in> set whitespace" buf s] by (simp add: skip_ws_def char_at_def) (simp add: whitespace_def)

text \<open>What a token is: nothing at the end of the line, a symbol, or a longest word.\<close>

lemma gettokenD:
  assumes "gettoken buf s = (t, (q, e), s')"
  shows "q = skip_ws buf s" "token_at buf q = (t, e)" "s' = skip_ws buf e"
  using assms by (cases "token_at buf (skip_ws buf s)"; auto simp: gettoken_def Let_def)+

lemma token_at_symbol:
  assumes "token_at buf q = (t, e)" "char_at buf q \<noteq> 0" "char_at buf q \<in> set symbols"
  shows "q < e" "e \<le> length buf" "t \<in> {buf ! q, 0x2B}"
proof -
  have q: "q < length buf" "char_at buf q = buf ! q" using char_at_less [OF assms(2)] by (simp_all add: char_at_def)
  have "char_at buf (q + 1) = 0x3E \<Longrightarrow> q + 1 < length buf" by (intro char_at_less) simp
  then show "q < e" "e \<le> length buf" "t \<in> {buf ! q, 0x2B}" using assms q by (auto simp: token_at_def Let_def split: if_splits)
qed

lemma gettoken_cases:
  assumes "gettoken buf s = (t, (q, e), s')" "s \<le> length buf"
  obtains (eof) "t = 0" "q = e" "char_at buf q = 0"
  | (symbol) "q < length buf" "buf ! q \<in> set symbols" "t \<in> {buf ! q, 0x2B}" "q < e" "e \<le> length buf"
  | (word) "t = 0x61" "q < e" "e \<le> length buf" "\<And>i. q \<le> i \<Longrightarrow> i < e \<Longrightarrow> word_char (buf ! i)" "e = length buf \<or> \<not> word_char (buf ! e)"
proof -
  have q: "q = skip_ws buf s" "token_at buf q = (t, e)" using gettokenD [OF assms(1)] by blast+
  have ql: "q \<le> length buf" using skip_ws_bounds(2) [OF assms(2)] q by simp
  let ?c = "char_at buf q"
  consider "?c = 0" | "?c \<noteq> 0" "?c \<in> set symbols" | "?c \<noteq> 0" "?c \<notin> set symbols" by blast
  then show thesis
  proof cases
    case 1
    then have "token_at buf q = (0, q)" by (simp add: token_at_def)
    then have "t = 0" "q = e" using q(2) by (metis prod.inject)+
    then show ?thesis using 1 by (rule eof)
  next
    case 2
    then have "q < length buf" by (intro char_at_less)
    moreover have "buf ! q \<in> set symbols" using 2 \<open>q < length buf\<close> by (simp add: char_at_def)
    ultimately show ?thesis using token_at_symbol [OF q(2) 2] by (intro symbol)
  next
    case 3
    have ql': "q < length buf" using 3(1) by (rule char_at_less)
    then have w: "word_char (buf ! q)" using 3 skip_ws_stop [OF assms(2)] q(1) by (simp add: word_char_def char_at_def)
    have "?c \<noteq> 0x3E" using 3(2) by (auto simp: symbols_def)
    then have "token_at buf q = (0x61, scan_while word_char buf q)" using 3 by (simp add: token_at_def)
    then have te: "t = 0x61" "e = scan_while word_char buf q" using q(2) by (metis prod.inject)+
    show ?thesis
    proof (rule word [OF te(1)])
      show "q < e" using scan_while_step [OF ql', of word_char] w te by simp
      show "e \<le> length buf" using scan_while_bounds(2) [OF ql] te by simp
      show "word_char (buf ! i)" if "q \<le> i" "i < e" for i using scan_while_in that te by blast
      show "e = length buf \<or> \<not> word_char (buf ! e)"
        using scan_while_stop [of word_char buf q] scan_while_bounds(2) [OF ql, of word_char] ql te by fastforce
    qed
  qed
qed

lemma gettoken_bounds:
  assumes "gettoken buf s = (t, (q, e), s')" "s \<le> length buf"
  shows "s \<le> q" "q \<le> e" "e \<le> s'" "s' \<le> length buf" "t \<noteq> 0 \<Longrightarrow> q < e"
proof -
  have q: "q = skip_ws buf s" "s' = skip_ws buf e" using gettokenD [OF assms(1)] by blast+
  have ql: "q \<le> length buf" using skip_ws_bounds(2) [OF assms(2)] q by simp
  have "q \<le> e \<and> e \<le> length buf \<and> (t \<noteq> 0 \<longrightarrow> q < e)"
    by (cases rule: gettoken_cases [OF assms]) (use ql in auto)
  then show "s \<le> q" "q \<le> e" "e \<le> s'" "s' \<le> length buf" "t \<noteq> 0 \<Longrightarrow> q < e"
    using q skip_ws_bounds by auto
qed

lemma skip_ws_idem: "s \<le> length buf \<Longrightarrow> skip_ws buf (skip_ws buf s) = skip_ws buf s"
proof -
  assume "s \<le> length buf"
  then have "\<not> (skip_ws buf s < length buf \<and> buf ! skip_ws buf s \<in> set whitespace)" using skip_ws_stop [of s buf] by (auto simp: char_at_def)
  then have "takeWhile (\<lambda>c. c \<in> set whitespace) (drop (skip_ws buf s) buf) = []"
    by (cases "skip_ws buf s < length buf") (simp_all add: Cons_nth_drop_Suc [symmetric])
  then show ?thesis by (simp add: skip_ws_def scan_while_def)
qed

lemma peek_eq: "peek buf s toks = (b, s1) \<longleftrightarrow> s1 = skip_ws buf s \<and> b = (char_at buf s1 \<noteq> 0 \<and> char_at buf s1 \<in> set toks)"
  by (auto simp: peek_def Let_def)

lemma peek_bounds: "peek buf s toks = (b, s1) \<Longrightarrow> s \<le> s1" "peek buf s toks = (b, s1) \<Longrightarrow> s \<le> length buf \<Longrightarrow> s1 \<le> length buf"
  using skip_ws_bounds by (auto simp: peek_eq)

lemma past_end: "length buf \<le> s \<Longrightarrow> char_at buf (skip_ws buf s) = 0"
  by (simp add: skip_ws_def scan_while_def char_at_def)

lemma peek_True:
  assumes "peek buf s toks = (True, s1)"
  shows "s < length buf" "s \<le> s1" "s1 < length buf" "buf ! s1 \<in> set toks" "skip_ws buf s1 = s1" "char_at buf s1 \<noteq> 0"
proof -
  have p: "s1 = skip_ws buf s" "char_at buf s1 \<noteq> 0" "char_at buf s1 \<in> set toks" using assms by (auto simp: peek_eq)
  show "s < length buf" using past_end [of buf s] p by (metis not_le)
  show "s1 < length buf" using p(2) by (rule char_at_less)
  then show "buf ! s1 \<in> set toks" using p(3) by (simp add: char_at_def)
  show "s \<le> s1" using skip_ws_bounds(1) p by simp
  show "skip_ws buf s1 = s1" using skip_ws_idem [of s buf] \<open>s < length buf\<close> p(1) by simp
  show "char_at buf s1 \<noteq> 0" by (rule p(2))
qed

lemma peek_advance:
  assumes "peek buf s toks = (True, s1)" "gettoken buf s1 = (t, w, s2)"
  shows "s < s2" "s2 \<le> length buf"
proof -
  note P = peek_True [OF assms(1)]
  obtain q e where w: "w = (q, e)" by (cases w)
  note g = assms(2) [unfolded w]
  have l: "s1 \<le> length buf" using P(3) by simp
  have "char_at buf q \<noteq> 0" using gettokenD(1) [OF g] P(5,6) by simp
  then have "q < e" by (cases rule: gettoken_cases [OF g l]) auto
  then show "s < s2" "s2 \<le> length buf" using gettoken_bounds [OF g l] P(2) by auto
qed

lemma gettoken_advance:
  assumes "gettoken buf s = (t, w, s2)" "t \<noteq> 0"
  shows "s < s2" "s2 \<le> length buf"
proof -
  obtain q e where w: "w = (q, e)" by (cases w)
  note g = assms(1) [unfolded w]
  have "char_at buf q \<noteq> 0" using gettokenD(2) [OF g] assms(2) by (auto simp: token_at_def)
  then have "s < length buf" using past_end [of buf s] gettokenD(1) [OF g] by (metis not_le)
  then show "s < s2" "s2 \<le> length buf" using gettoken_bounds [OF g] assms(2) by auto
qed

section \<open>The loops of the parser\<close>

lemma back_advance: "(True, s) = peek buf ps toks \<Longrightarrow> (tok, u, s1) = gettoken buf s \<Longrightarrow> ps < s1 \<and> s1 \<le> length buf"
  using peek_advance [of buf ps toks s tok u s1] by simp

lemma redir_advance:
  "(True, s) = peek buf ps toks \<Longrightarrow> (tok, u, s1) = gettoken buf s \<Longrightarrow> (0x61, f, s2) = gettoken buf s1 \<Longrightarrow> ps < s2 \<and> s2 \<le> length buf"
  using back_advance [of s buf ps toks tok u s1] gettoken_advance [of buf s1 "0x61" f s2] by simp

definition redir_mode :: "byte \<Rightarrow> uint \<times> nat" where
  "redir_mode tok = (if tok = 0x3C then (O_RDONLY, 0) else (O_WRONLY OR O_CREATE, 1))"

function parseredirs :: "byte list \<Rightarrow> pcmd \<Rightarrow> nat \<Rightarrow> sh_error + pcmd \<times> nat" where
  "parseredirs buf cmd ps = (case peek buf ps [0x3C, 0x3E] of (b, s) \<Rightarrow> if \<not> b then Inr (cmd, s)
     else case gettoken buf s of (tok, _, s1) \<Rightarrow> case gettoken buf s1 of (t2, f, s2) \<Rightarrow>
       if t2 \<noteq> 0x61 then Inl (ShPanic ''missing file for redirection'')
       else parseredirs buf (REDIR cmd f (fst (redir_mode tok)) (snd (redir_mode tok))) s2)"
  by pat_completeness auto
termination
  by (relation "measure (\<lambda>(buf, _, s). length buf - s)") (auto dest!: redir_advance)

declare parseredirs.simps [simp del]

function parsebacks :: "byte list \<Rightarrow> pcmd \<Rightarrow> nat \<Rightarrow> pcmd \<times> nat" where
  "parsebacks buf cmd ps = (case peek buf ps [0x26] of (b, s) \<Rightarrow> if \<not> b then (cmd, s)
     else case gettoken buf s of (_, _, s1) \<Rightarrow> parsebacks buf (BACK cmd) s1)"
  by pat_completeness auto
termination
  by (relation "measure (\<lambda>(buf, _, s). length buf - s)") (auto dest!: back_advance)

declare parsebacks.simps [simp del]

lemma parseredirs_cases:
  obtains (finished) s where "peek buf ps [0x3C, 0x3E] = (False, s)" "parseredirs buf cmd ps = Inr (cmd, s)"
  | (bad) "parseredirs buf cmd ps = Inl (ShPanic ''missing file for redirection'')"
  | (more) s tok u s1 f s2 where "peek buf ps [0x3C, 0x3E] = (True, s)" "gettoken buf s = (tok, u, s1)" "gettoken buf s1 = (0x61, f, s2)"
      "parseredirs buf cmd ps = parseredirs buf (REDIR cmd f (fst (redir_mode tok)) (snd (redir_mode tok))) s2"
proof -
  obtain b s where p: "peek buf ps [0x3C, 0x3E] = (b, s)" by fastforce
  obtain tok u s1 where g1: "gettoken buf s = (tok, u, s1)" by (metis prod_cases3)
  obtain t2 f s2 where g2: "gettoken buf s1 = (t2, f, s2)" by (metis prod_cases3)
  note R = parseredirs.simps [of buf cmd ps, unfolded p prod.case g1 g2]
  show thesis
  proof (cases b)
    case True
    then show ?thesis using bad more p g1 g2 R by (cases "t2 = 0x61") simp_all
  qed (use finished p R in simp)
qed

lemma parseredirs_bounds: "parseredirs buf cmd ps = Inr (c, s) \<Longrightarrow> ps \<le> s \<and> (ps \<le> length buf \<longrightarrow> s \<le> length buf)"
proof (induction "length buf - ps" arbitrary: cmd ps rule: less_induct)
  case less
  show ?case
  proof (cases rule: parseredirs_cases [of buf ps cmd])
    case (finished s0)
    then show ?thesis using less.prems peek_bounds [of buf ps _ False s0] by auto
  next
    case (more s0 tok u s1 f s2)
    have a: "ps < s2" "s2 \<le> length buf" using redir_advance [OF more(1-3) [symmetric]] by simp_all
    then have "s2 \<le> s \<and> (s2 \<le> length buf \<longrightarrow> s \<le> length buf)" using more(4) less.prems by (intro less.hyps) auto
    then show ?thesis using a by simp
  qed (use less.prems in simp)
qed

text \<open>The assignments to argv reach the execcmd inside the redirections around it.\<close>

primrec add_arg :: "'w \<Rightarrow> 'w cmd \<Rightarrow> 'w cmd" where
  "add_arg w (EXEC ws) = EXEC (ws @ [w])"
| "add_arg w (REDIR c f m fd) = REDIR (add_arg w c) f m fd"
| "add_arg w (PIPE l r) = PIPE l r"
| "add_arg w (LIST l r) = LIST l r"
| "add_arg w (BACK c) = BACK c"

lemma args_advance:
  assumes "parseredirs buf c s1 = Inr (ret', s2)" "(0x61, w, s1) = gettoken buf s" "(False, s) = peek buf ps toks"
  shows "ps < s2 \<and> s2 \<le> length buf"
  using parseredirs_bounds [OF assms(1)] gettoken_advance [of buf s "0x61" w s1] peek_bounds(1) [of buf ps toks False s] assms(2,3) by simp

function parseargs :: "byte list \<Rightarrow> pcmd \<Rightarrow> nat \<Rightarrow> nat \<Rightarrow> sh_error + pcmd \<times> nat" where
  "parseargs buf ret argc ps = (case peek buf ps [0x7C, 0x29, 0x26, 0x3B] of (b, s) \<Rightarrow> if b then Inr (ret, s)
     else case gettoken buf s of (tok, w, s1) \<Rightarrow>
       if tok = 0 then Inr (ret, s1)
       else if tok \<noteq> 0x61 then Inl (ShPanic ''syntax'')
       else if argc + 1 \<ge> MAXARGS then Inl (ShPanic ''too many args'')
       else case parseredirs buf (add_arg w ret) s1 of Inl err \<Rightarrow> Inl err
         | Inr (ret', s2) \<Rightarrow> parseargs buf ret' (argc + 1) s2)"
  by pat_completeness auto
termination
  by (relation "measure (\<lambda>(buf, _, _, s). length buf - s)") (auto dest!: args_advance)

declare parseargs.simps [simp del]

section \<open>The parser\<close>

definition sh_bind :: "sh_error + 'a \<Rightarrow> ('a \<Rightarrow> sh_error + 'b) \<Rightarrow> sh_error + 'b" where
  "sh_bind r f = (case r of Inl err \<Rightarrow> Inl err | Inr x \<Rightarrow> f x)"

lemma sh_bind_simps [simp]: "sh_bind (Inl err) f = Inl err" "sh_bind (Inr x) f = f x"
  by (simp_all add: sh_bind_def)

lemma sh_bind_cong [fundef_cong]: "r = r' \<Longrightarrow> (\<And>x. r' = Inr x \<Longrightarrow> f x = g x) \<Longrightarrow> sh_bind r f = sh_bind r' g"
  by (simp add: sh_bind_def split: sum.split)

text \<open>The position after the next token, where the source passes null pointers for its ends.\<close>

definition next_pos :: "byte list \<Rightarrow> nat \<Rightarrow> nat" where
  "next_pos buf s = snd (snd (gettoken buf s))"

fun parseline :: "nat \<Rightarrow> byte list \<Rightarrow> nat \<Rightarrow> sh_error + pcmd \<times> nat"
  and parsepipe :: "nat \<Rightarrow> byte list \<Rightarrow> nat \<Rightarrow> sh_error + pcmd \<times> nat"
  and parseexec :: "nat \<Rightarrow> byte list \<Rightarrow> nat \<Rightarrow> sh_error + pcmd \<times> nat"
  and parseblock :: "nat \<Rightarrow> byte list \<Rightarrow> nat \<Rightarrow> sh_error + pcmd \<times> nat" where
  "parseline 0 buf ps = Inl NoFuel"
| "parseline (Suc n) buf ps = sh_bind (parsepipe n buf ps) (\<lambda>(c, s). case parsebacks buf c s of (c, s) \<Rightarrow>
     case peek buf s [0x3B] of (b, s) \<Rightarrow>
       if b then sh_bind (parseline n buf (next_pos buf s)) (\<lambda>(r, s). Inr (LIST c r, s)) else Inr (c, s))"
| "parsepipe 0 buf ps = Inl NoFuel"
| "parsepipe (Suc n) buf ps = sh_bind (parseexec n buf ps) (\<lambda>(c, s). case peek buf s [0x7C] of (b, s) \<Rightarrow>
     if b then sh_bind (parsepipe n buf (next_pos buf s)) (\<lambda>(r, s). Inr (PIPE c r, s)) else Inr (c, s))"
| "parseexec 0 buf ps = Inl NoFuel"
| "parseexec (Suc n) buf ps = (case peek buf ps [0x28] of (b, s) \<Rightarrow>
     if b then parseblock n buf s
     else sh_bind (parseredirs buf (EXEC []) s) (\<lambda>(ret, s). parseargs buf ret 0 s))"
| "parseblock 0 buf ps = Inl NoFuel"
| "parseblock (Suc n) buf ps = (case peek buf ps [0x28] of (b, s) \<Rightarrow>
     if \<not> b then Inl (ShPanic ''parseblock'')
     else sh_bind (parseline n buf (next_pos buf s)) (\<lambda>(c, s). case peek buf s [0x29] of (b, s) \<Rightarrow>
       if \<not> b then Inl (ShPanic ''syntax - missing )'')
       else parseredirs buf c (next_pos buf s)))"

text \<open>Writing at the end of the line, where the NUL already is, changes nothing.\<close>

primrec nulterminate :: "pcmd \<Rightarrow> byte list \<Rightarrow> byte list" where
  "nulterminate (EXEC ws) buf = fold (\<lambda>(q, e) b. b[e := 0]) ws buf"
| "nulterminate (REDIR c f m fd) buf = (nulterminate c buf)[snd f := 0]"
| "nulterminate (PIPE l r) buf = nulterminate r (nulterminate l buf)"
| "nulterminate (LIST l r) buf = nulterminate r (nulterminate l buf)"
| "nulterminate (BACK c) buf = nulterminate c buf"

definition sh_fuel :: "byte list \<Rightarrow> nat" where
  "sh_fuel buf = 4 * length buf + 4"

definition parsecmd :: "byte list \<Rightarrow> sh_error + pcmd \<times> byte list" where
  "parsecmd buf = sh_bind (parseline (sh_fuel buf) buf 0) (\<lambda>(c, s).
     if snd (peek buf s []) \<noteq> length buf then Inl (Leftovers (drop (snd (peek buf s [])) buf)) else Inr (c, nulterminate c buf))"

end
