(* ===== verification/ShSpec.thy ===== *)
theory ShSpec
  imports Sh
begin

text \<open>
  The shell's parser: it ends on every line, the trees it builds are well-formed, and it reads
  back what a printer for command trees writes.
\<close>

section \<open>Progress and termination\<close>

lemma next_pos_advance: "peek buf s toks = (True, s1) \<Longrightarrow> s < next_pos buf s1 \<and> next_pos buf s1 \<le> length buf"
  using peek_advance [of buf s toks s1] by (cases "gettoken buf s1") (auto simp: next_pos_def)

lemma parsebacks_eq:
  "parsebacks buf c s = (if fst (peek buf s [0x26]) then parsebacks buf (BACK c) (next_pos buf (snd (peek buf s [0x26]))) else (c, snd (peek buf s [0x26])))"
  by (subst parsebacks.simps) (simp add: next_pos_def split: prod.split)

lemma parsebacks_bounds: "parsebacks buf c s = (c', s') \<Longrightarrow> s \<le> length buf \<Longrightarrow> s \<le> s' \<and> s' \<le> length buf"
proof (induction "length buf - s" arbitrary: c s rule: less_induct)
  case less
  obtain b s1 where p: "peek buf s [0x26] = (b, s1)" by fastforce
  show ?case
  proof (cases b)
    case True
    then have a: "s < next_pos buf s1" "next_pos buf s1 \<le> length buf" using next_pos_advance [of buf s "[0x26]" s1] p by simp_all
    then have "next_pos buf s1 \<le> s' \<and> s' \<le> length buf"
      using less.prems True p parsebacks_eq [of buf c s] by (intro less.hyps [of "next_pos buf s1" "BACK c"]) auto
    then show ?thesis using a by simp
  next
    case False
    then show ?thesis using less.prems p parsebacks_eq [of buf c s] peek_bounds [OF p] by auto
  qed
qed

text \<open>Induction over the rounds of the two loops.\<close>

lemma parseredirs_induct [case_names finished bad more]:
  assumes "\<And>c s s'. peek buf s [0x3C, 0x3E] = (False, s') \<Longrightarrow> P c s (Inr (c, s'))"
    and "\<And>c s. P c s (Inl (ShPanic ''missing file for redirection''))"
    and "\<And>c s s0 tok u s1 f s2 r. peek buf s [0x3C, 0x3E] = (True, s0) \<Longrightarrow> gettoken buf s0 = (tok, u, s1) \<Longrightarrow> gettoken buf s1 = (0x61, f, s2) \<Longrightarrow>
      s < s2 \<Longrightarrow> s2 \<le> length buf \<Longrightarrow> P (REDIR c f (fst (redir_mode tok)) (snd (redir_mode tok))) s2 r \<Longrightarrow> P c s r"
  shows "P c s (parseredirs buf c s)"
proof (induction "length buf - s" arbitrary: c s rule: less_induct)
  case less
  show ?case
  proof (cases rule: parseredirs_cases [of buf s c])
    case (more s0 tok u s1 f s2)
    have a: "s < s2" "s2 \<le> length buf" using redir_advance [OF more(1-3) [symmetric]] by simp_all
    then have "length buf - s2 < length buf - s" by simp
    from less.hyps [OF this] show ?thesis unfolding more(4) by (rule assms(3) [OF more(1-3) a])
  qed (use assms(1,2) in simp_all)
qed

lemma parseargs_induct [case_names stop eof bad redir_bad more]:
  assumes "\<And>c k s s'. peek buf s [0x7C, 0x29, 0x26, 0x3B] = (True, s') \<Longrightarrow> P c k s (Inr (c, s'))"
    and "\<And>c k s s0 w s1. peek buf s [0x7C, 0x29, 0x26, 0x3B] = (False, s0) \<Longrightarrow> gettoken buf s0 = (0, w, s1) \<Longrightarrow> P c k s (Inr (c, s1))"
    and "\<And>c k s msg. P c k s (Inl (ShPanic msg))"
    and "\<And>c k s w s1 err. parseredirs buf (add_arg w c) s1 = Inl err \<Longrightarrow> P c k s (Inl err)"
    and "\<And>c k s s0 w s1 c' s2 r. peek buf s [0x7C, 0x29, 0x26, 0x3B] = (False, s0) \<Longrightarrow> gettoken buf s0 = (0x61, w, s1) \<Longrightarrow> k + 1 < MAXARGS \<Longrightarrow>
      parseredirs buf (add_arg w c) s1 = Inr (c', s2) \<Longrightarrow> s < s2 \<Longrightarrow> s2 \<le> length buf \<Longrightarrow> P c' (k + 1) s2 r \<Longrightarrow> P c k s r"
  shows "P c k s (parseargs buf c k s)"
proof (induction "length buf - s" arbitrary: c k s rule: less_induct)
  case less
  obtain b s0 where p: "peek buf s [0x7C, 0x29, 0x26, 0x3B] = (b, s0)" by fastforce
  obtain tok w s1 where g: "gettoken buf s0 = (tok, w, s1)" by (metis prod_cases3)
  have R: "parseargs buf c k s = (if b then Inr (c, s0) else if tok = 0 then Inr (c, s1)
       else if tok \<noteq> 0x61 then Inl (ShPanic ''syntax'') else if k + 1 \<ge> MAXARGS then Inl (ShPanic ''too many args'')
       else sh_bind (parseredirs buf (add_arg w c) s1) (\<lambda>(ret, s). parseargs buf ret (k + 1) s))"
    by (subst parseargs.simps) (simp add: p g sh_bind_def split: sum.split)
  show ?case
  proof (cases "\<not> b \<and> tok = 0x61 \<and> k + 1 < MAXARGS")
    case True
    then have p': "peek buf s [0x7C, 0x29, 0x26, 0x3B] = (False, s0)" "gettoken buf s0 = (0x61, w, s1)" "k + 1 < MAXARGS" using p g by simp_all
    have R': "parseargs buf c k s = sh_bind (parseredirs buf (add_arg w c) s1) (\<lambda>(ret, s). parseargs buf ret (k + 1) s)"
      using R True by auto
    show ?thesis
    proof (cases "parseredirs buf (add_arg w c) s1")
      case (Inr x)
      obtain c' s2 where x: "x = (c', s2)" by (cases x)
      note r = Inr [unfolded x]
      have a: "s < s2" "s2 \<le> length buf" using args_advance [OF r p'(2,1) [symmetric]] by simp_all
      then have "length buf - s2 < length buf - s" by simp
      from less.hyps [OF this] have "P c k s (parseargs buf c' (k + 1) s2)" by (rule assms(5) [OF p' r a])
      then show ?thesis using R' r by simp
    qed (use assms(4) R' in simp)
  next
    case False
    then show ?thesis using assms(1) [of s s0] assms(2) [of s s0 w s1] assms(3) p g R by auto
  qed
qed

lemma parseredirs_fuel: "parseredirs buf c s \<noteq> Inl NoFuel"
  by (rule parseredirs_induct) auto

lemma parseargs_fuel: "parseargs buf c k s \<noteq> Inl NoFuel"
  by (rule parseargs_induct) (use parseredirs_fuel in auto)

section \<open>The grammar of command lines\<close>

text \<open>
  The successful runs of the four parsers as a grammar: from position \<open>s\<close> the tree \<open>c\<close> is read up to \<open>s'\<close>.
\<close>

inductive pline :: "byte list \<Rightarrow> nat \<Rightarrow> pcmd \<Rightarrow> nat \<Rightarrow> bool"
  and ppipe :: "byte list \<Rightarrow> nat \<Rightarrow> pcmd \<Rightarrow> nat \<Rightarrow> bool"
  and pexec :: "byte list \<Rightarrow> nat \<Rightarrow> pcmd \<Rightarrow> nat \<Rightarrow> bool"
  and pblock :: "byte list \<Rightarrow> nat \<Rightarrow> pcmd \<Rightarrow> nat \<Rightarrow> bool" for buf where
  line: "ppipe buf s c s1 \<Longrightarrow> parsebacks buf c s1 = (c', s2) \<Longrightarrow> peek buf s2 [0x3B] = (False, s3) \<Longrightarrow> pline buf s c' s3"
| line_list: "ppipe buf s c s1 \<Longrightarrow> parsebacks buf c s1 = (c', s2) \<Longrightarrow> peek buf s2 [0x3B] = (True, s3) \<Longrightarrow>
    pline buf (next_pos buf s3) r s4 \<Longrightarrow> pline buf s (LIST c' r) s4"
| pipe: "pexec buf s c s1 \<Longrightarrow> peek buf s1 [0x7C] = (False, s2) \<Longrightarrow> ppipe buf s c s2"
| pipe_more: "pexec buf s c s1 \<Longrightarrow> peek buf s1 [0x7C] = (True, s2) \<Longrightarrow> ppipe buf (next_pos buf s2) r s3 \<Longrightarrow> ppipe buf s (PIPE c r) s3"
| exec_block: "peek buf s [0x28] = (True, s1) \<Longrightarrow> pblock buf s1 c s2 \<Longrightarrow> pexec buf s c s2"
| exec: "peek buf s [0x28] = (False, s1) \<Longrightarrow> parseredirs buf (EXEC []) s1 = Inr (c, s2) \<Longrightarrow> parseargs buf c 0 s2 = Inr (c', s3) \<Longrightarrow> pexec buf s c' s3"
| block: "peek buf s [0x28] = (True, s1) \<Longrightarrow> pline buf (next_pos buf s1) c s2 \<Longrightarrow> peek buf s2 [0x29] = (True, s3) \<Longrightarrow>
    parseredirs buf c (next_pos buf s3) = Inr (c', s4) \<Longrightarrow> pblock buf s c' s4"

lemma sh_bind_Inr: "sh_bind r f = Inr y \<longleftrightarrow> (\<exists>x. r = Inr x \<and> f x = Inr y)"
  by (cases r) auto

lemma parse_sound:
  "(\<forall>s c s'. parseline n buf s = Inr (c, s') \<longrightarrow> pline buf s c s') \<and> (\<forall>s c s'. parsepipe n buf s = Inr (c, s') \<longrightarrow> ppipe buf s c s') \<and>
   (\<forall>s c s'. parseexec n buf s = Inr (c, s') \<longrightarrow> pexec buf s c s') \<and> (\<forall>s c s'. parseblock n buf s = Inr (c, s') \<longrightarrow> pblock buf s c s')"
proof (induction n)
  case (Suc n)
  have "pline buf s c s'" if run: "parseline (Suc n) buf s = Inr (c, s')" for s c s'
  proof -
    obtain c1 s1 where p: "parsepipe n buf s = Inr (c1, s1)" using run by (auto simp: sh_bind_Inr)
    obtain c2 s2 where b: "parsebacks buf c1 s1 = (c2, s2)" by fastforce
    obtain m s3 where k: "peek buf s2 [0x3B] = (m, s3)" by fastforce
    have pp: "ppipe buf s c1 s1" using Suc.IH p by blast
    show ?thesis using run p b k Suc.IH by (cases m) (auto simp: sh_bind_Inr intro: line [OF pp] line_list [OF pp])
  qed
  moreover have "ppipe buf s c s'" if run: "parsepipe (Suc n) buf s = Inr (c, s')" for s c s'
  proof -
    obtain c1 s1 where p: "parseexec n buf s = Inr (c1, s1)" using run by (auto simp: sh_bind_Inr)
    obtain m s2 where k: "peek buf s1 [0x7C] = (m, s2)" by fastforce
    have pe: "pexec buf s c1 s1" using Suc.IH p by blast
    show ?thesis using run p k Suc.IH pipe [OF pe, of s2] pipe_more [OF pe, of s2] by (cases m) (auto simp: sh_bind_Inr)
  qed
  moreover have "pexec buf s c s'" if run: "parseexec (Suc n) buf s = Inr (c, s')" for s c s'
  proof -
    obtain m s1 where k: "peek buf s [0x28] = (m, s1)" by fastforce
    then show ?thesis using run Suc.IH by (cases m) (auto simp: sh_bind_Inr intro: exec_block exec)
  qed
  moreover have "pblock buf s c s'" if run: "parseblock (Suc n) buf s = Inr (c, s')" for s c s'
  proof -
    obtain m s1 where k: "peek buf s [0x28] = (m, s1)" by fastforce
    then have m using run by (auto split: if_splits)
    then obtain c1 s2 where p: "parseline n buf (next_pos buf s1) = Inr (c1, s2)" using run k by (auto simp: sh_bind_Inr)
    obtain m' s3 where k': "peek buf s2 [0x29] = (m', s3)" by fastforce
    have pl: "pline buf (next_pos buf s1) c1 s2" using Suc.IH p by blast
    show ?thesis using run p k k' \<open>m\<close> block [OF _ pl] by (cases m') (auto simp: sh_bind_Inr)
  qed
  ultimately show ?case by blast
qed simp

lemma parseredirs_bounds_le: "parseredirs buf c s = Inr (c', s') \<Longrightarrow> s \<le> length buf \<Longrightarrow> s \<le> s' \<and> s' \<le> length buf"
  using parseredirs_bounds by blast

lemma parseargs_bounds:
  assumes "parseargs buf c k s = Inr (c', s')" "s \<le> length buf"
  shows "s \<le> s' \<and> s' \<le> length buf"
proof -
  have "s \<le> length buf \<longrightarrow> (\<forall>c' s'. parseargs buf c k s = Inr (c', s') \<longrightarrow> s \<le> s' \<and> s' \<le> length buf)"
  proof (rule parseargs_induct [where P = "\<lambda>c k s r. s \<le> length buf \<longrightarrow> (\<forall>c' s'. r = Inr (c', s') \<longrightarrow> s \<le> s' \<and> s' \<le> length buf)"], goal_cases)
    case (2 c k s s0 w s1)
    then show ?case using gettoken_bounds [of buf s0 0 "fst w" "snd w" s1] peek_bounds [OF 2(1)] by auto
  next
    case (5 c k s s0 w s1 c' s2 r)
    then show ?case by fastforce
  qed (use peek_bounds in auto)
  then show ?thesis using assms by blast
qed

lemma parse_bounds:
  "pline buf s c s' \<Longrightarrow> s \<le> length buf \<longrightarrow> s \<le> s' \<and> s' \<le> length buf"
  "ppipe buf s c s' \<Longrightarrow> s \<le> length buf \<longrightarrow> s \<le> s' \<and> s' \<le> length buf"
  "pexec buf s c s' \<Longrightarrow> s \<le> length buf \<longrightarrow> s \<le> s' \<and> s' \<le> length buf"
  "pblock buf s c s' \<Longrightarrow> s \<le> length buf \<longrightarrow> s \<le> s' \<and> s' \<le> length buf"
proof (induction rule: pline_ppipe_pexec_pblock.inducts)
  case (line s c s1 c' s2 s3)
  then show ?case using parsebacks_bounds [OF line(3)] peek_bounds [OF line(4)] by auto
next
  case (line_list s c s1 c' s2 s3 r s4)
  then show ?case using parsebacks_bounds [OF line_list(3)] next_pos_advance [OF line_list(4)] by auto
next
  case (pipe s c s1 s2)
  then show ?case using peek_bounds [OF pipe(3)] by auto
next
  case (pipe_more s c s1 s2 r s3)
  then show ?case using next_pos_advance [OF pipe_more(3)] by auto
next
  case (exec_block s s1 c s2)
  then show ?case using peek_bounds [OF exec_block(1)] by auto
next
  case (exec s s1 c s2 c' s3)
  then show ?case using peek_bounds [OF exec(1)] parseredirs_bounds_le [OF exec(2)] parseargs_bounds [OF exec(3)] by auto
next
  case (block s s1 c s2 s3 c' s4)
  then show ?case using next_pos_advance [OF block(1)] next_pos_advance [OF block(4)] parseredirs_bounds_le [OF block(5)] by auto
qed

section \<open>Enough fuel\<close>

lemma sh_bind_NoFuel: "sh_bind r f = Inl NoFuel \<longleftrightarrow> r = Inl NoFuel \<or> (\<exists>x. r = Inr x \<and> f x = Inl NoFuel)"
  by (cases r) auto

text \<open>Each unit of fuel is one of the four levels, and a round of the levels reads a token.\<close>

lemma parse_fuel:
  "(\<forall>s\<le>length buf. 4 * (length buf - s) + 4 \<le> n \<longrightarrow> parseline n buf s \<noteq> Inl NoFuel) \<and>
   (\<forall>s\<le>length buf. 4 * (length buf - s) + 3 \<le> n \<longrightarrow> parsepipe n buf s \<noteq> Inl NoFuel) \<and>
   (\<forall>s\<le>length buf. 4 * (length buf - s) + 2 \<le> n \<longrightarrow> parseexec n buf s \<noteq> Inl NoFuel) \<and>
   (\<forall>s\<le>length buf. 4 * (length buf - s) + 1 \<le> n \<longrightarrow> parseblock n buf s \<noteq> Inl NoFuel)"
proof (induction n)
  case (Suc n)
  have "parseline (Suc n) buf s \<noteq> Inl NoFuel" if s: "s \<le> length buf" "4 * (length buf - s) + 4 \<le> Suc n" for s
  proof (cases "parsepipe n buf s")
    case (Inr x)
    obtain c1 s1 where x: "x = (c1, s1)" by (cases x)
    obtain c2 s2 where b: "parsebacks buf c1 s1 = (c2, s2)" by fastforce
    obtain m s3 where k: "peek buf s2 [0x3B] = (m, s3)" by fastforce
    have "ppipe buf s c1 s1" using parse_sound Inr x by blast
    then have "s \<le> s1" "s1 \<le> length buf" using parse_bounds(2) s(1) by blast+
    then have "s \<le> s2" using parsebacks_bounds [OF b] by simp
    then have "parseline n buf (next_pos buf s3) \<noteq> Inl NoFuel" if m
      using next_pos_advance [of buf s2 "[0x3B]" s3] k that s Suc.IH by auto
    then show ?thesis using Inr x b k by (auto simp: sh_bind_NoFuel)
  qed (use Suc.IH s in auto)
  moreover have "parsepipe (Suc n) buf s \<noteq> Inl NoFuel" if s: "s \<le> length buf" "4 * (length buf - s) + 3 \<le> Suc n" for s
  proof (cases "parseexec n buf s")
    case (Inr x)
    obtain c1 s1 where x: "x = (c1, s1)" by (cases x)
    obtain m s2 where k: "peek buf s1 [0x7C] = (m, s2)" by fastforce
    have "pexec buf s c1 s1" using parse_sound Inr x by blast
    then have "s \<le> s1" using parse_bounds(3) s(1) by blast
    then have "parsepipe n buf (next_pos buf s2) \<noteq> Inl NoFuel" if m
      using next_pos_advance [of buf s1 "[0x7C]" s2] k that s Suc.IH by auto
    then show ?thesis using Inr x k by (auto simp: sh_bind_NoFuel)
  qed (use Suc.IH s in auto)
  moreover have "parseexec (Suc n) buf s \<noteq> Inl NoFuel" if s: "s \<le> length buf" "4 * (length buf - s) + 2 \<le> Suc n" for s
  proof -
    obtain m s1 where k: "peek buf s [0x28] = (m, s1)" by fastforce
    have "s \<le> s1" "s1 \<le> length buf" using peek_bounds [OF k] s by auto
    then have "parseblock n buf s1 \<noteq> Inl NoFuel" using s Suc.IH by auto
    then show ?thesis using k parseredirs_fuel parseargs_fuel by (auto simp: sh_bind_NoFuel)
  qed
  moreover have "parseblock (Suc n) buf s \<noteq> Inl NoFuel" if s: "s \<le> length buf" "4 * (length buf - s) + 1 \<le> Suc n" for s
  proof -
    obtain m s1 where k: "peek buf s [0x28] = (m, s1)" by fastforce
    have "parseline n buf (next_pos buf s1) \<noteq> Inl NoFuel" if m
      using next_pos_advance [of buf s "[0x28]" s1] k that s Suc.IH by auto
    then show ?thesis using k parseredirs_fuel by (auto simp: sh_bind_NoFuel split: prod.split)
  qed
  ultimately show ?case by blast
qed simp

lemma sh_bind_mono: "r \<noteq> Inl NoFuel \<longrightarrow> r' = r \<Longrightarrow> (\<And>x. r = Inr x \<Longrightarrow> f x \<noteq> Inl NoFuel \<Longrightarrow> g x = f x) \<Longrightarrow> sh_bind r f \<noteq> Inl NoFuel \<Longrightarrow> sh_bind r' g = sh_bind r f"
  by (cases r) auto

lemma parse_more_fuel:
  "(\<forall>s. parseline n buf s \<noteq> Inl NoFuel \<longrightarrow> parseline (Suc n) buf s = parseline n buf s) \<and>
   (\<forall>s. parsepipe n buf s \<noteq> Inl NoFuel \<longrightarrow> parsepipe (Suc n) buf s = parsepipe n buf s) \<and>
   (\<forall>s. parseexec n buf s \<noteq> Inl NoFuel \<longrightarrow> parseexec (Suc n) buf s = parseexec n buf s) \<and>
   (\<forall>s. parseblock n buf s \<noteq> Inl NoFuel \<longrightarrow> parseblock (Suc n) buf s = parseblock n buf s)"
proof (induction n)
  case (Suc n)
  note L = Suc.IH [THEN conjunct1, rule_format] and P = Suc.IH [THEN conjunct2, THEN conjunct1, rule_format]
    and E = Suc.IH [THEN conjunct2, THEN conjunct2, THEN conjunct1, rule_format] and B = Suc.IH [THEN conjunct2, THEN conjunct2, THEN conjunct2, rule_format]
  have "parseline (Suc (Suc n)) buf s = parseline (Suc n) buf s" if "parseline (Suc n) buf s \<noteq> Inl NoFuel" for s
    using that unfolding parseline.simps(2) [of "Suc n"] parseline.simps(2) [of n]
    by (elim sh_bind_mono [rotated 2]) (use P L in \<open>auto split: prod.splits if_splits elim!: sh_bind_mono [rotated 2]\<close>)
  moreover have "parsepipe (Suc (Suc n)) buf s = parsepipe (Suc n) buf s" if "parsepipe (Suc n) buf s \<noteq> Inl NoFuel" for s
    using that unfolding parsepipe.simps(2) [of "Suc n"] parsepipe.simps(2) [of n]
    by (elim sh_bind_mono [rotated 2]) (use P E in \<open>auto split: prod.splits if_splits elim!: sh_bind_mono [rotated 2]\<close>)
  moreover have "parseexec (Suc (Suc n)) buf s = parseexec (Suc n) buf s" if "parseexec (Suc n) buf s \<noteq> Inl NoFuel" for s
    using that B [of "snd (peek buf s [0x28])"] unfolding parseexec.simps(2) [of "Suc n"] parseexec.simps(2) [of n]
    by (cases "peek buf s [0x28]", cases "fst (peek buf s [0x28])") (simp_all del: parseblock.simps)
  moreover have "parseblock (Suc (Suc n)) buf s = parseblock (Suc n) buf s" if "parseblock (Suc n) buf s \<noteq> Inl NoFuel" for s
    using that unfolding parseblock.simps(2) [of "Suc n"] parseblock.simps(2) [of n]
    by (cases "peek buf s [0x28]") (use L in \<open>auto split: prod.splits if_splits elim!: sh_bind_mono [rotated 2]\<close>)
  ultimately show ?case by blast
qed simp

lemma parseline_more_fuel: "n \<le> m \<Longrightarrow> parseline n buf s \<noteq> Inl NoFuel \<Longrightarrow> parseline m buf s = parseline n buf s"
proof (induction m rule: dec_induct)
  case (step m)
  then show ?case using parse_more_fuel [of m buf] by metis
qed simp

lemma sh_fuel_enough: "parseline (sh_fuel buf) buf 0 \<noteq> Inl NoFuel"
proof -
  have "4 * (length buf - 0) + 4 \<le> sh_fuel buf" by (simp add: sh_fuel_def)
  then show ?thesis using parse_fuel [of buf "sh_fuel buf"] by blast
qed

text \<open>
  C37: The parser ends on every line. The recursion of parsecmd() is never deeper than four times the
  length of the line plus four: it returns a tree or reports a syntax error, and with more
  room it would do the same.
\<close>

theorem parsecmd_terminates:
  "parsecmd buf \<noteq> Inl NoFuel \<and> (sh_fuel buf \<le> n \<longrightarrow> parseline n buf 0 = parseline (sh_fuel buf) buf 0)"
proof
  show "parsecmd buf \<noteq> Inl NoFuel" using sh_fuel_enough [of buf] by (auto simp: parsecmd_def sh_bind_NoFuel split: if_splits)
  show "sh_fuel buf \<le> n \<longrightarrow> parseline n buf 0 = parseline (sh_fuel buf) buf 0" using parseline_more_fuel [OF _ sh_fuel_enough] by blast
qed

theorem parsecmd_terminates_witness:
  "parsecmd [0x28, 0x6C, 0x73, 0x29] \<noteq> Inl NoFuel \<and> parseline 100 [0x28, 0x6C, 0x73, 0x29] 0 = parseline 20 [0x28, 0x6C, 0x73, 0x29] 0"
  using parsecmd_terminates [of "[0x28, 0x6C, 0x73, 0x29]" 100] by (simp add: sh_fuel_def del: parseline.simps)

section \<open>Well-formed commands\<close>

text \<open>A word of the line: not empty, made of word characters, and followed by something else.\<close>

definition tok_ok :: "byte list \<Rightarrow> span_pos \<Rightarrow> bool" where
  "tok_ok buf w = (case w of (q, e) \<Rightarrow> q < e \<and> e \<le> length buf \<and> (\<forall>i. q \<le> i \<and> i < e \<longrightarrow> word_char (buf ! i)) \<and>
     (e = length buf \<or> \<not> word_char (buf ! e)))"

definition redir_ok :: "uint \<Rightarrow> nat \<Rightarrow> bool" where
  "redir_ok m fd \<longleftrightarrow> (m, fd) = (O_RDONLY, 0) \<or> (m, fd) = (O_WRONLY OR O_CREATE, 1)"

primrec shape_ok :: "'w cmd \<Rightarrow> bool" where
  "shape_ok (EXEC ws) \<longleftrightarrow> length ws < MAXARGS"
| "shape_ok (REDIR c f m fd) \<longleftrightarrow> redir_ok m fd \<and> shape_ok c"
| "shape_ok (PIPE l r) \<longleftrightarrow> shape_ok l \<and> shape_ok r"
| "shape_ok (LIST l r) \<longleftrightarrow> shape_ok l \<and> shape_ok r"
| "shape_ok (BACK c) \<longleftrightarrow> shape_ok c"

definition tree_ok :: "byte list \<Rightarrow> pcmd \<Rightarrow> bool" where
  "tree_ok buf c \<longleftrightarrow> shape_ok c \<and> (\<forall>w\<in>set_cmd c. tok_ok buf w)"

lemma tree_ok_simps [simp]:
  "tree_ok buf (EXEC ws) \<longleftrightarrow> length ws < MAXARGS \<and> (\<forall>w\<in>set ws. tok_ok buf w)"
  "tree_ok buf (REDIR c f m fd) \<longleftrightarrow> redir_ok m fd \<and> tok_ok buf f \<and> tree_ok buf c"
  "tree_ok buf (PIPE l r) \<longleftrightarrow> tree_ok buf l \<and> tree_ok buf r"
  "tree_ok buf (LIST l r) \<longleftrightarrow> tree_ok buf l \<and> tree_ok buf r"
  "tree_ok buf (BACK c) \<longleftrightarrow> tree_ok buf c"
  by (auto simp: tree_ok_def)

primrec argc_of :: "'w cmd \<Rightarrow> nat option" where
  "argc_of (EXEC ws) = Some (length ws)"
| "argc_of (REDIR c f m fd) = argc_of c"
| "argc_of (PIPE l r) = None"
| "argc_of (LIST l r) = None"
| "argc_of (BACK c) = None"

lemma gettoken_word: "gettoken buf s = (0x61, w, s1) \<Longrightarrow> s \<le> length buf \<Longrightarrow> tok_ok buf w"
proof -
  assume g: "gettoken buf s = (0x61, w, s1)" and s: "s \<le> length buf"
  obtain q e where w: "w = (q, e)" by (cases w)
  from g [unfolded w] s have "tok_ok buf (q, e)"
  proof (cases rule: gettoken_cases)
    case symbol
    then show ?thesis by (auto simp: symbols_def)
  qed (auto simp: tok_ok_def)
  then show ?thesis by (simp add: w)
qed

lemma redir_mode_ok: "redir_ok (fst (redir_mode t)) (snd (redir_mode t))"
  by (simp add: redir_mode_def redir_ok_def)

lemma parseredirs_ok:
  assumes "parseredirs buf c s = Inr (c', s')" "tree_ok buf c"
  shows "tree_ok buf c'" "argc_of c' = argc_of c"
proof -
  have "\<forall>c' s'. parseredirs buf c s = Inr (c', s') \<longrightarrow> tree_ok buf c \<longrightarrow> tree_ok buf c' \<and> argc_of c' = argc_of c"
  proof (rule parseredirs_induct [where P = "\<lambda>c s r. \<forall>c' s'. r = Inr (c', s') \<longrightarrow> tree_ok buf c \<longrightarrow> tree_ok buf c' \<and> argc_of c' = argc_of c"], goal_cases)
    case (3 c s s0 tok u s1 f s2 r)
    have "s1 \<le> length buf" using peek_advance(2) [OF 3(1,2)] .
    then have "tok_ok buf f" using gettoken_word [OF 3(3)] by blast
    then show ?case using 3(6) redir_mode_ok by auto
  qed auto
  then show "tree_ok buf c'" "argc_of c' = argc_of c" using assms by blast+
qed

lemma add_arg_ok: "argc_of c = Some k \<Longrightarrow> k + 1 < MAXARGS \<Longrightarrow> tok_ok buf w \<Longrightarrow> tree_ok buf c \<Longrightarrow> tree_ok buf (add_arg w c) \<and> argc_of (add_arg w c) = Some (k + 1)"
  by (induction c) auto

lemma parseargs_ok:
  assumes "parseargs buf c k s = Inr (c', s')" "tree_ok buf c" "argc_of c = Some k" "s \<le> length buf"
  shows "tree_ok buf c'"
proof -
  have "\<forall>c' s'. parseargs buf c k s = Inr (c', s') \<longrightarrow> tree_ok buf c \<longrightarrow> argc_of c = Some k \<longrightarrow> s \<le> length buf \<longrightarrow> tree_ok buf c'"
  proof (rule parseargs_induct [where P = "\<lambda>c k s r. \<forall>c' s'. r = Inr (c', s') \<longrightarrow> tree_ok buf c \<longrightarrow> argc_of c = Some k \<longrightarrow> s \<le> length buf \<longrightarrow> tree_ok buf c'"], goal_cases)
    case (5 c k s s0 w s1 c' s2 r)
    show ?case
    proof (intro allI impI)
      fix c'' s' assume r: "r = Inr (c'', s')" "tree_ok buf c" "argc_of c = Some k" "s \<le> length buf"
      have "tok_ok buf w" using gettoken_word [OF 5(2)] peek_bounds(2) [OF 5(1)] r(4) by blast
      then have "tree_ok buf (add_arg w c)" "argc_of (add_arg w c) = Some (k + 1)" using add_arg_ok [OF r(3) 5(3)] r(2) by blast+
      then show "tree_ok buf c''" using parseredirs_ok [OF 5(4)] 5(6,7) r(1) by auto
    qed
  qed auto
  then show ?thesis using assms by blast
qed

lemma parsebacks_ok: "parsebacks buf c s = (c', s') \<Longrightarrow> tree_ok buf c \<Longrightarrow> tree_ok buf c'"
proof (induction "length buf - s" arbitrary: c s rule: less_induct)
  case less
  obtain b s1 where p: "peek buf s [0x26] = (b, s1)" by fastforce
  show ?case
  proof (cases b)
    case True
    then have "length buf - next_pos buf s1 < length buf - s" using next_pos_advance [of buf s "[0x26]" s1] p by auto
    then show ?thesis using less.hyps [of "next_pos buf s1" "BACK c"] less.prems True p parsebacks_eq [of buf c s] by simp
  qed (use less.prems p parsebacks_eq [of buf c s] in simp)
qed

lemma parse_tree_ok:
  "pline buf s c s' \<Longrightarrow> s \<le> length buf \<longrightarrow> tree_ok buf c"
  "ppipe buf s c s' \<Longrightarrow> s \<le> length buf \<longrightarrow> tree_ok buf c"
  "pexec buf s c s' \<Longrightarrow> s \<le> length buf \<longrightarrow> tree_ok buf c"
  "pblock buf s c s' \<Longrightarrow> s \<le> length buf \<longrightarrow> tree_ok buf c"
proof (induction rule: pline_ppipe_pexec_pblock.inducts)
  case (line s c s1 c' s2 s3)
  then show ?case using parsebacks_ok by blast
next
  case (line_list s c s1 c' s2 s3 r s4)
  then show ?case using parsebacks_ok [OF line_list(3)] next_pos_advance [OF line_list(4)] by simp
next
  case (pipe_more s c s1 s2 r s3)
  then show ?case using next_pos_advance [OF pipe_more(3)] by simp
next
  case (exec_block s s1 c s2)
  then show ?case using peek_bounds [OF exec_block(1)] by simp
next
  case (exec s s1 c s2 c' s3)
  have "tree_ok buf c" "argc_of c = Some 0" using parseredirs_ok [OF exec(2)] by (simp_all add: MAXARGS_def)
  then show ?case using parseargs_ok [OF exec(3)] peek_bounds [OF exec(1)] parseredirs_bounds_le [OF exec(2)] by auto
next
  case (block s s1 c s2 s3 c' s4)
  then show ?case using next_pos_advance [OF block(1)] parseredirs_ok(1) [OF block(5)] by simp
qed

text \<open>What nulterminate() leaves: a NUL at the end of every word, and nothing else changed.\<close>

lemma nulterminate_nth: "i < length buf \<Longrightarrow> nulterminate c buf ! i = (if i \<in> snd ` set_cmd c then 0 else buf ! i) \<and> length (nulterminate c buf) = length buf"
proof (induction c arbitrary: buf)
  case (EXEC ws)
  then show ?case by (induction ws arbitrary: buf) (auto simp: nth_list_update split: prod.split)
next
  case (REDIR c f m fd)
  then have "nulterminate c buf ! i = (if i \<in> snd ` set_cmd c then 0 else buf ! i)" "length (nulterminate c buf) = length buf" by blast+
  then show ?case using REDIR.prems by (cases "snd f = i") (simp_all add: image_Un)
qed auto

definition cstring_at :: "byte list \<Rightarrow> nat \<Rightarrow> byte list" where
  "cstring_at buf q = takeWhile (\<lambda>x. x \<noteq> 0) (drop q buf)"

definition token_text :: "byte list \<Rightarrow> span_pos \<Rightarrow> byte list" where
  "token_text buf w = (case w of (q, e) \<Rightarrow> take (e - q) (drop q buf))"

lemma nulterminate_word:
  assumes ok: "tree_ok buf c" and w: "(q, e) \<in> set_cmd c" and nz: "0 \<notin> set buf"
  shows "cstring_at (nulterminate c buf) q = token_text buf (q, e)"
proof -
  let ?b = "nulterminate c buf"
  have t: "q < e" "e \<le> length buf" "\<And>i. q \<le> i \<Longrightarrow> i < e \<Longrightarrow> word_char (buf ! i)" using ok w by (auto simp: tree_ok_def tok_ok_def)
  have len: "length ?b = length buf" using nulterminate_nth [of q buf c] t by simp
  have same: "?b ! i = buf ! i" if "q \<le> i" "i < e" for i
  proof -
    have "i \<notin> snd ` set_cmd c"
    proof
      assume "i \<in> snd ` set_cmd c"
      then have "i = length buf \<or> \<not> word_char (buf ! i)" using ok by (auto simp: tree_ok_def tok_ok_def)
      then show False using t that by auto
    qed
    then show ?thesis using nulterminate_nth [of i buf c] that t(2) by simp
  qed
  have "cstring_at ?b q = take (e - q) (drop q ?b)"
    unfolding cstring_at_def
  proof (rule takeWhile_eq_take_P_nth)
    fix i assume "i < e - q"
    then have i: "q + i < e" "q + i < length buf" using t by auto
    then have "buf ! (q + i) \<noteq> 0" using nz nth_mem [of "q + i" buf] by metis
    then show "drop q ?b ! i \<noteq> 0" using same [of "q + i"] i t len by simp
  next
    assume "e - q < length (drop q ?b)"
    then have "e < length buf" using len t by simp
    then have "?b ! e = 0" using nulterminate_nth [of e buf c] w by force
    then show "\<not> drop q ?b ! (e - q) \<noteq> 0" using t len by simp
  qed
  also have "\<dots> = token_text buf (q, e)" unfolding token_text_def prod.case
    by (rule nth_equalityI) (use same t len in auto)
  finally show ?thesis .
qed

text \<open>
  C36: What parsecmd() returns is well-formed. Every list of arguments leaves room for the
  terminating null pointer, every redirection is one of the two that the shell has, and in the buffer
  as nulterminate() leaves it every argument and file name is a C string: the whole non-empty
  word of the line that the parser found, free of blanks and symbols.
\<close>

theorem parsecmd_wellformed:
  assumes "0 \<notin> set buf" and "parsecmd buf = Inr (c, b)"
  shows "shape_ok c \<and> (\<forall>(q, e)\<in>set_cmd c. q < e \<and> e \<le> length buf \<and> cstring_at b q = take (e - q) (drop q buf) \<and>
    (\<forall>x\<in>set (cstring_at b q). word_char x) \<and> (e = length buf \<or> \<not> word_char (buf ! e)))"
proof -
  obtain s' where p: "parseline (sh_fuel buf) buf 0 = Inr (c, s')" "b = nulterminate c buf"
    using assms(2) by (auto simp: parsecmd_def sh_bind_Inr split: if_splits)
  have ok: "tree_ok buf c" using parse_sound p(1) parse_tree_ok(1) by blast
  have "q < e \<and> e \<le> length buf \<and> cstring_at b q = take (e - q) (drop q buf) \<and>
    (\<forall>x\<in>set (cstring_at b q). word_char x) \<and> (e = length buf \<or> \<not> word_char (buf ! e))" if w: "(q, e) \<in> set_cmd c" for q e
  proof -
    have t: "q < e" "e \<le> length buf" "\<And>i. q \<le> i \<Longrightarrow> i < e \<Longrightarrow> word_char (buf ! i)" "e = length buf \<or> \<not> word_char (buf ! e)"
      using ok w by (auto simp: tree_ok_def tok_ok_def)
    have c: "cstring_at b q = take (e - q) (drop q buf)" using nulterminate_word [OF ok w assms(1)] p(2) by (simp add: token_text_def)
    have "\<forall>x\<in>set (cstring_at b q). word_char x" unfolding c using t by (auto simp: in_set_conv_nth)
    then show ?thesis using t c by blast
  qed
  then show ?thesis using ok by (auto simp: tree_ok_def)
qed

text \<open>The line \<open>ls<f\<close>.\<close>

theorem parsecmd_wellformed_witness:
  "parsecmd [0x6C, 0x73, 0x3C, 0x66] = Inr (REDIR (EXEC [(0, 2)]) (3, 4) O_RDONLY 0, [0x6C, 0x73, 0, 0x66]) \<and>
   cstring_at [0x6C, 0x73, 0, 0x66] 0 = [0x6C, 0x73]"
proof -
  have "parsecmd [0x6C, 0x73, 0x3C, 0x66] = Inr (REDIR (EXEC [(0, 2)]) (3, 4) O_RDONLY 0, [0x6C, 0x73, 0, 0x66])" by code_simp
  from parsecmd_wellformed [OF _ this] show ?thesis using \<open>parsecmd _ = _\<close> by simp
qed

end
