(* ===== verification/ShRound.thy ===== *)
theory ShRound
  imports ShSpec
begin

text \<open>
  The parser reads back what a printer for command trees writes: parentheses, pipes, lists, background
  commands and redirections are grouped as the tree has them.
\<close>

section \<open>The printer\<close>

definition paren :: "bool \<Rightarrow> byte list \<Rightarrow> byte list" where
  "paren b xs = (if b then 0x28 # xs @ [0x29] else xs)"

definition redir_char :: "nat \<Rightarrow> byte" where
  "redir_char fd = (if fd = 0 then 0x3C else 0x3E)"

text \<open>The second argument is the level the context allows: 0 a line, 1 without lists, 2 a pipeline, 3 a single command.\<close>

primrec show_cmd :: "byte list cmd \<Rightarrow> nat \<Rightarrow> byte list" where
  "show_cmd (EXEC ws) p = concat (map (\<lambda>w. w @ [0x20]) ws)"
| "show_cmd (REDIR c f m fd) p = show_cmd c 3 @ redir_char fd # f @ [0x20]"
| "show_cmd (PIPE l r) p = paren (p > 2) (show_cmd l 3 @ 0x7C # show_cmd r 2)"
| "show_cmd (LIST l r) p = paren (p > 0) (show_cmd l 1 @ 0x3B # show_cmd r 0)"
| "show_cmd (BACK c) p = paren (p > 1) (show_cmd c 1 @ [0x26])"

definition word_ok :: "byte list \<Rightarrow> bool" where
  "word_ok w \<longleftrightarrow> w \<noteq> [] \<and> (\<forall>x\<in>set w. word_char x \<and> x \<noteq> 0)"

section \<open>What lies ahead\<close>

definition look :: "byte list \<Rightarrow> nat \<Rightarrow> byte list \<Rightarrow> bool" where
  "look buf s xs \<longleftrightarrow> s \<le> length buf \<and> drop s buf = xs"

text \<open>Text that begins with a token.\<close>

definition solid :: "byte list \<Rightarrow> bool" where
  "solid xs \<longleftrightarrow> xs = [] \<or> hd xs \<notin> set whitespace \<and> hd xs \<noteq> 0"

lemma look_char: "look buf s (x # xs) \<Longrightarrow> char_at buf s = x" "look buf s [] \<Longrightarrow> char_at buf s = 0"
  by (auto simp: look_def char_at_def nth_via_drop)

lemma look_Cons: "look buf s (x # xs) \<Longrightarrow> look buf (Suc s) xs"
  by (auto simp: look_def drop_Suc tl_drop [symmetric]) (metis Suc_leI drop_all linorder_not_le list.discI nat_less_le)

lemma look_append: "look buf s (xs @ ys) \<Longrightarrow> look buf (s + length xs) ys"
  by (induction xs arbitrary: s) (auto dest!: look_Cons simp: add_Suc [symmetric] simp del: add_Suc)

lemma look_take: "look buf s (xs @ ys) \<Longrightarrow> take (length xs) (drop s buf) = xs"
  by (auto simp: look_def)

lemma look_skip: "look buf s xs \<Longrightarrow> solid xs \<Longrightarrow> skip_ws buf s = s"
  by (cases xs) (auto simp: look_def solid_def skip_ws_def scan_while_def)

lemma look_skip_space: "look buf s (0x20 # xs) \<Longrightarrow> solid xs \<Longrightarrow> skip_ws buf s = Suc s"
  by (cases xs) (auto simp: look_def solid_def skip_ws_def scan_while_def whitespace_def)

lemma look_peek: "look buf s xs \<Longrightarrow> solid xs \<Longrightarrow> peek buf s toks = (xs \<noteq> [] \<and> hd xs \<in> set toks, s)"
  by (cases xs) (auto simp: peek_def look_skip look_char solid_def)

lemma look_symbol:
  assumes "look buf s (x # xs)" "x \<in> set symbols" "solid xs" "x = 0x3E \<longrightarrow> xs = [] \<or> hd xs \<noteq> 0x3E"
  shows "gettoken buf s = (x, (s, Suc s), Suc s)" "next_pos buf s = Suc s"
proof -
  have n: "look buf (Suc s) xs" using assms(1) by (rule look_Cons)
  have "x \<notin> set whitespace" "x \<noteq> 0" using assms(2) by (auto simp: symbols_def whitespace_def)
  then have sk: "skip_ws buf s = s" by (intro look_skip [OF assms(1)]) (simp add: solid_def)
  have "char_at buf (Suc s) = (if xs = [] then 0 else hd xs)" using look_char [of buf "Suc s"] n by (cases xs) auto
  then have "token_at buf s = (x, Suc s)"
    using assms(2,4) look_char(1) [OF assms(1)] \<open>x \<noteq> 0\<close> by (auto simp: token_at_def Let_def)
  then show "gettoken buf s = (x, (s, Suc s), Suc s)" using sk look_skip [OF n assms(3)] by (simp add: gettoken_def)
  then show "next_pos buf s = Suc s" by (simp add: next_pos_def)
qed

lemma look_word:
  assumes "look buf s (w @ 0x20 # xs)" "word_ok w" "solid xs"
  shows "gettoken buf s = (0x61, (s, s + length w), Suc (s + length w))" "look buf (Suc (s + length w)) xs" "token_text buf (s, s + length w) = w"
proof -
  obtain x w' where w: "w = x # w'" using assms(2) by (cases w) (auto simp: word_ok_def)
  have x: "word_char x" "x \<noteq> 0" using assms(2) w by (auto simp: word_ok_def)
  then have xs: "x \<notin> set whitespace" "x \<notin> set symbols" "x \<noteq> 0x3E" by (auto simp: word_char_def symbols_def)
  have sk: "skip_ws buf s = s" using xs x by (intro look_skip [OF assms(1)]) (simp add: solid_def w)
  have e: "look buf (s + length w) (0x20 # xs)" using assms(1) by (rule look_append)
  have "takeWhile word_char (w @ 0x20 # xs) = w"
    using assms(2) by (subst takeWhile_append2) (auto simp: word_ok_def word_char_def whitespace_def)
  then have "scan_while word_char buf s = s + length w" using assms(1) by (simp add: scan_while_def look_def)
  then have "token_at buf s = (0x61, s + length w)"
    using look_char(1) [OF assms(1) [unfolded w append_Cons]] xs x by (simp add: token_at_def)
  then show "gettoken buf s = (0x61, (s, s + length w), Suc (s + length w))"
    using sk look_skip_space [OF e assms(3)] by (simp add: gettoken_def)
  show "look buf (Suc (s + length w)) xs" using e by (rule look_Cons)
  show "token_text buf (s, s + length w) = w" using look_take [OF assms(1)] by (simp add: token_text_def)
qed

section \<open>Reading at the four levels\<close>

definition ends :: "byte list \<Rightarrow> byte list \<Rightarrow> bool" where
  "ends toks rest \<longleftrightarrow> rest = [] \<or> hd rest \<in> set toks"

abbreviation redir_toks :: "byte list" where "redir_toks \<equiv> [0x3C, 0x3E]"
abbreviation line_toks :: "byte list" where "line_toks \<equiv> [0x29]"
abbreviation back_toks :: "byte list" where "back_toks \<equiv> [0x26, 0x3B, 0x29]"
abbreviation pipe_toks :: "byte list" where "pipe_toks \<equiv> [0x7C, 0x26, 0x3B, 0x29]"
abbreviation exec_toks :: "byte list" where "exec_toks \<equiv> [0x3C, 0x3E, 0x7C, 0x26, 0x3B, 0x29]"

lemma ends_solid: "ends toks rest \<Longrightarrow> set toks \<subseteq> set symbols \<Longrightarrow> solid rest"
  by (auto simp: ends_def solid_def symbols_def whitespace_def)

text \<open>
  \<open>reads toks run X c\<close>: before any text that begins with one of \<open>toks\<close>, with enough fuel, the run of
  the parser reads exactly \<open>X\<close> and gets a tree whose words make it \<open>c\<close>.
\<close>

definition reads :: "byte list \<Rightarrow> (nat \<Rightarrow> byte list \<Rightarrow> nat \<Rightarrow> pcmd \<Rightarrow> nat \<Rightarrow> bool) \<Rightarrow> byte list \<Rightarrow> byte list cmd \<Rightarrow> bool" where
  "reads toks run X c \<longleftrightarrow> (\<forall>buf s rest. look buf s (X @ rest) \<longrightarrow> ends toks rest \<longrightarrow>
     (\<exists>c' s' n0. look buf s' rest \<and> map_cmd (token_text buf) c' = c \<and> (\<forall>n\<ge>n0. run n buf s c' s')))"

lemma readsD:
  assumes "reads toks run X c" "look buf s (X @ rest)" "ends toks rest"
  obtains c' s' n0 where "look buf s' rest" "map_cmd (token_text buf) c' = c" "\<And>n. n0 \<le> n \<Longrightarrow> run n buf s c' s'"
  using assms unfolding reads_def by blast

text \<open>What is left of parseexec() after the text of a command: more redirections, or more arguments.\<close>

definition exec_rest :: "byte list \<Rightarrow> pcmd \<Rightarrow> nat \<Rightarrow> sh_error + pcmd \<times> nat" where
  "exec_rest buf c s = (case argc_of c of None \<Rightarrow> parseredirs buf c s
     | Some k \<Rightarrow> sh_bind (parseredirs buf c s) (\<lambda>(c, s). parseargs buf c k s))"

definition run_exec :: "nat \<Rightarrow> byte list \<Rightarrow> nat \<Rightarrow> pcmd \<Rightarrow> nat \<Rightarrow> bool" where
  "run_exec n buf s c s' \<longleftrightarrow> parseexec n buf s = exec_rest buf c s'"

definition run_pipe :: "nat \<Rightarrow> byte list \<Rightarrow> nat \<Rightarrow> pcmd \<Rightarrow> nat \<Rightarrow> bool" where
  "run_pipe n buf s c s' \<longleftrightarrow> parsepipe n buf s = Inr (c, s')"

definition run_back :: "nat \<Rightarrow> byte list \<Rightarrow> nat \<Rightarrow> pcmd \<Rightarrow> nat \<Rightarrow> bool" where
  "run_back n buf s c s' \<longleftrightarrow> (\<exists>c0 s0. parsepipe n buf s = Inr (c0, s0) \<and> parsebacks buf c0 s0 = parsebacks buf c s')"

definition run_line :: "nat \<Rightarrow> byte list \<Rightarrow> nat \<Rightarrow> pcmd \<Rightarrow> nat \<Rightarrow> bool" where
  "run_line n buf s c s' \<longleftrightarrow> parseline n buf s = Inr (c, s')"

abbreviation reads_exec :: "byte list \<Rightarrow> byte list cmd \<Rightarrow> bool" where "reads_exec \<equiv> reads exec_toks run_exec"
abbreviation reads_pipe :: "byte list \<Rightarrow> byte list cmd \<Rightarrow> bool" where "reads_pipe \<equiv> reads back_toks run_pipe"
abbreviation reads_back :: "byte list \<Rightarrow> byte list cmd \<Rightarrow> bool" where "reads_back \<equiv> reads back_toks run_back"
abbreviation reads_line :: "byte list \<Rightarrow> byte list cmd \<Rightarrow> bool" where "reads_line \<equiv> reads line_toks run_line"

lemma redirs_stop: "look buf s rest \<Longrightarrow> solid rest \<Longrightarrow> \<not> (rest \<noteq> [] \<and> hd rest \<in> set redir_toks) \<Longrightarrow> parseredirs buf c s = Inr (c, s)"
  by (subst parseredirs.simps) (simp add: look_peek)

lemma args_stop:
  assumes "look buf s rest" "ends pipe_toks rest"
  shows "parseargs buf c k s = Inr (c, s)"
proof -
  have so: "solid rest" using ends_solid [OF assms(2)] by (simp add: symbols_def)
  show ?thesis
  proof (cases rest)
    case Nil
    then have "gettoken buf s = (0, (s, s), s)"
      using look_skip [OF assms(1) so] look_char(2) [of buf s] assms(1) by (simp add: gettoken_def token_at_def)
    then show ?thesis using Nil look_peek [OF assms(1) so] by (subst parseargs.simps) simp
  next
    case (Cons x xs)
    then show ?thesis using assms(2) look_peek [OF assms(1) so] by (subst parseargs.simps) (auto simp: ends_def)
  qed
qed

lemma exec_rest_stop: "look buf s rest \<Longrightarrow> ends pipe_toks rest \<Longrightarrow> exec_rest buf c s = Inr (c, s)"
proof -
  assume l: "look buf s rest" "ends pipe_toks rest"
  have "solid rest" using ends_solid [OF l(2)] by (simp add: symbols_def)
  then have "parseredirs buf c s = Inr (c, s)" using l by (intro redirs_stop) (auto simp: ends_def)
  then show ?thesis using args_stop [OF l] by (simp add: exec_rest_def split: option.split)
qed

lemma reads_SucI:
  assumes "\<And>buf s rest. look buf s (X @ rest) \<Longrightarrow> ends toks rest \<Longrightarrow> solid rest \<Longrightarrow>
    \<exists>c' s' n0. look buf s' rest \<and> map_cmd (token_text buf) c' = c \<and> (\<forall>n\<ge>n0. run (Suc n) buf s c' s')"
    and "set toks \<subseteq> set symbols"
  shows "reads toks run X c"
  unfolding reads_def
proof (intro allI impI)
  fix buf s rest assume l: "look buf s (X @ rest)" "ends toks rest"
  then obtain c' s' n0 where r: "look buf s' rest" "map_cmd (token_text buf) c' = c" "\<forall>n\<ge>n0. run (Suc n) buf s c' s'"
    using assms(1) ends_solid [OF l(2) assms(2)] by blast
  have "run n buf s c' s'" if "Suc n0 \<le> n" for n using r(3) that by (cases n) auto
  then show "\<exists>c' s' n0. look buf s' rest \<and> map_cmd (token_text buf) c' = c \<and> (\<forall>n\<ge>n0. run n buf s c' s')" using r(1,2) by blast
qed

lemma ends_mono: "ends toks rest \<Longrightarrow> set toks \<subseteq> set toks' \<Longrightarrow> ends toks' rest"
  by (auto simp: ends_def)

lemma reads_exec_pipe:
  assumes "reads_exec X c"
  shows "reads_pipe X c"
proof (rule reads_SucI)
  fix buf s rest assume l: "look buf s (X @ rest)" "ends back_toks rest" and so: "solid rest"
  have e: "ends exec_toks rest" "ends pipe_toks rest" by (rule ends_mono [OF l(2)], simp)+
  obtain c' s' n0 where r: "look buf s' rest" "map_cmd (token_text buf) c' = c" "\<And>n. n0 \<le> n \<Longrightarrow> run_exec n buf s c' s'"
    using readsD [OF assms l(1) e(1)] by metis
  have "peek buf s' [0x7C] = (False, s')" using look_peek [OF r(1) so] l(2) by (auto simp: ends_def)
  then have "run_pipe (Suc n) buf s c' s'" if "n0 \<le> n" for n
    using r(3) [OF that] exec_rest_stop [OF r(1) e(2), of c'] by (simp add: run_pipe_def run_exec_def)
  then show "\<exists>c' s' n0. look buf s' rest \<and> map_cmd (token_text buf) c' = c \<and> (\<forall>n\<ge>n0. run_pipe (Suc n) buf s c' s')" using r(1,2) by blast
qed (simp add: symbols_def)

lemma reads_pipe_pipe:
  assumes X: "reads_exec X l" and Y: "reads_pipe Y r" and so: "\<And>rest. solid rest \<Longrightarrow> solid (Y @ rest)"
  shows "reads_pipe (X @ 0x7C # Y) (PIPE l r)"
proof (rule reads_SucI)
  fix buf s rest assume l: "look buf s ((X @ 0x7C # Y) @ rest)" "ends back_toks rest" and sr: "solid rest"
  have l1: "look buf s (X @ 0x7C # Y @ rest)" using l(1) by simp
  have e: "ends exec_toks (0x7C # Y @ rest)" "ends pipe_toks (0x7C # Y @ rest)" by (simp_all add: ends_def)
  obtain c1 s1 n1 where r1: "look buf s1 (0x7C # Y @ rest)" "map_cmd (token_text buf) c1 = l" "\<And>n. n1 \<le> n \<Longrightarrow> run_exec n buf s c1 s1"
    using readsD [OF X l1 e(1)] by metis
  have sy: "solid (Y @ rest)" by (rule so [OF sr])
  have nx: "next_pos buf s1 = Suc s1" using look_symbol(2) [OF r1(1) _ sy] by (simp add: symbols_def)
  have pk: "peek buf s1 [0x7C] = (True, s1)" using look_peek [OF r1(1), of "[0x7C]"] by (simp add: solid_def whitespace_def)
  obtain c2 s2 n2 where r2: "look buf s2 rest" "map_cmd (token_text buf) c2 = r" "\<And>n. n2 \<le> n \<Longrightarrow> run_pipe n buf (Suc s1) c2 s2"
    using readsD [OF Y look_Cons [OF r1(1)] l(2)] by metis
  have "run_pipe (Suc n) buf s (PIPE c1 c2) s2" if "max n1 n2 \<le> n" for n
    using r1(3) [of n] r2(3) [of n] that exec_rest_stop [OF r1(1) e(2), of c1] pk nx by (simp add: run_pipe_def run_exec_def)
  then show "\<exists>c' s' n0. look buf s' rest \<and> map_cmd (token_text buf) c' = PIPE l r \<and> (\<forall>n\<ge>n0. run_pipe (Suc n) buf s c' s')"
    using r1(2) r2(1,2) by (intro exI [of _ "PIPE c1 c2"] exI [of _ s2] exI [of _ "max n1 n2"]) simp
qed (simp add: symbols_def)

lemma reads_pipe_back:
  assumes "reads_pipe X c"
  shows "reads_back X c"
  using assms unfolding reads_def run_pipe_def run_back_def by blast

lemma reads_back_back:
  assumes X: "reads_back X c"
  shows "reads_back (X @ [0x26]) (BACK c)"
  unfolding reads_def
proof (intro allI impI)
  fix buf s rest assume l: "look buf s ((X @ [0x26]) @ rest)" "ends back_toks rest"
  have sr: "solid rest" using ends_solid [OF l(2)] by (simp add: symbols_def)
  have l1: "look buf s (X @ 0x26 # rest)" using l(1) by simp
  have e: "ends back_toks (0x26 # rest)" by (simp add: ends_def)
  obtain c1 s1 n1 where r1: "look buf s1 (0x26 # rest)" "map_cmd (token_text buf) c1 = c" "\<And>n. n1 \<le> n \<Longrightarrow> run_back n buf s c1 s1"
    using readsD [OF X l1 e] by metis
  have nx: "next_pos buf s1 = Suc s1" using look_symbol(2) [OF r1(1) _ sr] by (simp add: symbols_def)
  have pk: "peek buf s1 [0x26] = (True, s1)" using look_peek [OF r1(1), of "[0x26]"] by (simp add: solid_def whitespace_def)
  have "parsebacks buf c1 s1 = parsebacks buf (BACK c1) (Suc s1)" using parsebacks_eq [of buf c1 s1] pk nx by simp
  then have "run_back n buf s (BACK c1) (Suc s1)" if "n1 \<le> n" for n using r1(3) [OF that] by (simp add: run_back_def)
  then show "\<exists>c' s' n0. look buf s' rest \<and> map_cmd (token_text buf) c' = BACK c \<and> (\<forall>n\<ge>n0. run_back n buf s c' s')"
    using r1(2) look_Cons [OF r1(1)] by (intro exI [of _ "BACK c1"] exI [of _ "Suc s1"] exI [of _ n1]) simp
qed

lemma reads_back_line:
  assumes "reads_back X c"
  shows "reads_line X c"
proof (rule reads_SucI)
  fix buf s rest assume l: "look buf s (X @ rest)" "ends line_toks rest" and so: "solid rest"
  have e: "ends back_toks rest" by (rule ends_mono [OF l(2)]) simp
  obtain c' s' n0 where r: "look buf s' rest" "map_cmd (token_text buf) c' = c" "\<And>n. n0 \<le> n \<Longrightarrow> run_back n buf s c' s'"
    using readsD [OF assms l(1) e] by metis
  have pk: "peek buf s' [0x26] = (False, s')" "peek buf s' [0x3B] = (False, s')" using look_peek [OF r(1) so] l(2) by (auto simp: ends_def)
  then have "parsebacks buf c' s' = (c', s')" using parsebacks_eq [of buf c' s'] by simp
  then have "run_line (Suc n) buf s c' s'" if "n0 \<le> n" for n using r(3) [OF that] pk(2) by (auto simp: run_line_def run_back_def)
  then show "\<exists>c' s' n0. look buf s' rest \<and> map_cmd (token_text buf) c' = c \<and> (\<forall>n\<ge>n0. run_line (Suc n) buf s c' s')" using r(1,2) by blast
qed (simp add: symbols_def)

lemma reads_line_list:
  assumes X: "reads_back X l" and Y: "reads_line Y r" and so: "\<And>rest. solid rest \<Longrightarrow> solid (Y @ rest)"
  shows "reads_line (X @ 0x3B # Y) (LIST l r)"
proof (rule reads_SucI)
  fix buf s rest assume l: "look buf s ((X @ 0x3B # Y) @ rest)" "ends line_toks rest" and sr: "solid rest"
  have l1: "look buf s (X @ 0x3B # Y @ rest)" using l(1) by simp
  have e: "ends back_toks (0x3B # Y @ rest)" by (simp add: ends_def)
  obtain c1 s1 n1 where r1: "look buf s1 (0x3B # Y @ rest)" "map_cmd (token_text buf) c1 = l" "\<And>n. n1 \<le> n \<Longrightarrow> run_back n buf s c1 s1"
    using readsD [OF X l1 e] by metis
  have sy: "solid (Y @ rest)" by (rule so [OF sr])
  have nx: "next_pos buf s1 = Suc s1" using look_symbol(2) [OF r1(1) _ sy] by (simp add: symbols_def)
  have pk: "peek buf s1 [0x26] = (False, s1)" "peek buf s1 [0x3B] = (True, s1)"
    using look_peek [OF r1(1), of "[0x3B]"] look_peek [OF r1(1), of "[0x26]"] by (simp_all add: solid_def whitespace_def)
  then have pb: "parsebacks buf c1 s1 = (c1, s1)" using parsebacks_eq [of buf c1 s1] by simp
  obtain c2 s2 n2 where r2: "look buf s2 rest" "map_cmd (token_text buf) c2 = r" "\<And>n. n2 \<le> n \<Longrightarrow> run_line n buf (Suc s1) c2 s2"
    using readsD [OF Y look_Cons [OF r1(1)] l(2)] by metis
  have "run_line (Suc n) buf s (LIST c1 c2) s2" if "max n1 n2 \<le> n" for n
    using r1(3) [of n] r2(3) [of n] that pb pk nx by (auto simp: run_line_def run_back_def)
  then show "\<exists>c' s' n0. look buf s' rest \<and> map_cmd (token_text buf) c' = LIST l r \<and> (\<forall>n\<ge>n0. run_line (Suc n) buf s c' s')"
    using r1(2) r2(1,2) by (intro exI [of _ "LIST c1 c2"] exI [of _ s2] exI [of _ "max n1 n2"]) simp
qed (simp add: symbols_def)

lemma map_argc: "argc_of (map_cmd f c) = argc_of c"
  by (induction c) auto

lemma reads_line_paren:
  assumes X: "reads_line X c" and c: "argc_of c = None" and so: "\<And>rest. solid rest \<Longrightarrow> solid (X @ rest)"
  shows "reads_exec (paren True X) c"
proof (rule reads_SucI)
  fix buf s rest assume l: "look buf s (paren True X @ rest)" "ends exec_toks rest" and sr: "solid rest"
  have l1: "look buf s (0x28 # X @ 0x29 # rest)" using l(1) by (simp add: paren_def)
  have s1: "solid (0x28 # X @ 0x29 # rest)" "solid (0x29 # rest)" by (simp_all add: solid_def whitespace_def)
  have pk: "peek buf s [0x28] = (True, s)" using look_peek [OF l1 s1(1)] by simp
  have nx: "next_pos buf s = Suc s" using look_symbol(2) [OF l1 _ so [OF s1(2)]] by (simp add: symbols_def)
  have e: "ends line_toks (0x29 # rest)" by (simp add: ends_def)
  obtain c' s2 n0 where r: "look buf s2 (0x29 # rest)" "map_cmd (token_text buf) c' = c" "\<And>n. n0 \<le> n \<Longrightarrow> run_line n buf (Suc s) c' s2"
    using readsD [OF X look_Cons [OF l1] e] by metis
  have pk2: "peek buf s2 [0x29] = (True, s2)" using look_peek [OF r(1) s1(2)] by simp
  have nx2: "next_pos buf s2 = Suc s2" using look_symbol(2) [OF r(1) _ sr] by (simp add: symbols_def)
  have "argc_of c' = None" using map_argc [of "token_text buf" c'] r(2) c by simp
  then have "run_exec (Suc n) buf s c' (Suc s2)" if "Suc n0 \<le> n" for n
    using r(3) [of "n - 1"] that pk nx pk2 nx2 by (cases n) (auto simp: run_exec_def run_line_def exec_rest_def)
  then show "\<exists>c' s' n0. look buf s' rest \<and> map_cmd (token_text buf) c' = c \<and> (\<forall>n\<ge>n0. run_exec (Suc n) buf s c' s')"
    using r(2) look_Cons [OF r(1)] by blast
qed (simp add: symbols_def)

lemma exec_words:
  assumes "look buf s (concat (map (\<lambda>w. w @ [0x20]) ws) @ rest)" "\<forall>w\<in>set ws. word_ok w" "length ts + length ws < MAXARGS" "solid rest"
  shows "\<exists>ts' s'. look buf s' rest \<and> map (token_text buf) ts' = ws \<and> exec_rest buf (EXEC ts) s = exec_rest buf (EXEC (ts @ ts')) s'"
  using assms
proof (induction ws arbitrary: s ts)
  case (Cons w ws)
  let ?t = "concat (map (\<lambda>w. w @ [0x20]) ws) @ rest"
  have l: "look buf s (w @ 0x20 # ?t)" using Cons.prems(1) by simp
  have w: "word_ok w" using Cons.prems(2) by simp
  have so: "solid ?t"
    using Cons.prems(2,4) by (cases ws) (auto simp: solid_def word_ok_def word_char_def)
  obtain x w' where x: "w = x # w'" "word_char x" "x \<noteq> 0" using w by (cases w) (auto simp: word_ok_def)
  have sw: "solid (w @ 0x20 # ?t)" "\<not> x \<in> set symbols" using x by (auto simp: solid_def word_char_def)
  note T = look_word [OF l w so]
  let ?k = "(s, s + length w)" and ?s' = "Suc (s + length w)"
  have "parseredirs buf (EXEC ts) s = Inr (EXEC ts, s)" using redirs_stop [OF l sw(1)] sw(2) x by (auto simp: symbols_def)
  moreover have "peek buf s [0x7C, 0x29, 0x26, 0x3B] = (False, s)" using look_peek [OF l sw(1)] sw(2) x by (auto simp: symbols_def)
  then have "parseargs buf (EXEC ts) (length ts) s = sh_bind (parseredirs buf (EXEC (ts @ [?k])) ?s') (\<lambda>(c, s). parseargs buf c (length ts + 1) s)"
    using T(1) Cons.prems(3) by (subst parseargs.simps) (simp add: sh_bind_def split: sum.split)
  ultimately have "exec_rest buf (EXEC ts) s = exec_rest buf (EXEC (ts @ [?k])) ?s'" by (simp add: exec_rest_def)
  moreover obtain ts' s' where "look buf s' rest" "map (token_text buf) ts' = ws" "exec_rest buf (EXEC (ts @ [?k])) ?s' = exec_rest buf (EXEC ((ts @ [?k]) @ ts')) s'"
    using Cons.IH [OF T(2), of "ts @ [?k]"] Cons.prems by auto
  ultimately show ?case using T(3) by (intro exI [of _ "?k # ts'"] exI [of _ s']) simp
qed (auto intro: exI [of _ "[]"])

lemma reads_exec_words:
  assumes "\<forall>w\<in>set ws. word_ok w" "length ws < MAXARGS"
  shows "reads_exec (concat (map (\<lambda>w. w @ [0x20]) ws)) (EXEC ws)"
proof (rule reads_SucI)
  fix buf s rest assume l: "look buf s (concat (map (\<lambda>w. w @ [0x20]) ws) @ rest)" "ends exec_toks rest" and sr: "solid rest"
  let ?t = "concat (map (\<lambda>w. w @ [0x20]) ws) @ rest"
  have "solid ?t \<and> \<not> (?t \<noteq> [] \<and> hd ?t = 0x28)"
  proof (cases ws)
    case Nil
    then show ?thesis using l(2) sr by (auto simp: ends_def)
  next
    case (Cons w ws')
    then obtain x w' where "w = x # w'" "word_char x" "x \<noteq> 0" using assms(1) by (cases w) (auto simp: word_ok_def)
    then show ?thesis using Cons by (auto simp: solid_def word_char_def symbols_def)
  qed
  then have pk: "peek buf s [0x28] = (False, s)" using look_peek [OF l(1)] by auto
  obtain ts s' where t: "look buf s' rest" "map (token_text buf) ts = ws" "exec_rest buf (EXEC []) s = exec_rest buf (EXEC ts) s'"
    using exec_words [OF l(1) assms(1) _ sr, of "[]"] assms(2) by auto
  have "run_exec (Suc n) buf s (EXEC ts) s'" for n
    using pk t(3) by (simp add: run_exec_def) (simp add: exec_rest_def)
  then show "\<exists>c' s' n0. look buf s' rest \<and> map_cmd (token_text buf) c' = EXEC ws \<and> (\<forall>n\<ge>n0. run_exec (Suc n) buf s c' s')"
    using t(1,2) by (intro exI [of _ "EXEC ts"] exI [of _ s'] exI [of _ 0]) simp
qed (simp add: symbols_def)

lemma reads_exec_redir:
  assumes X: "reads_exec X c" and f: "word_ok f" and m: "redir_ok m fd"
  shows "reads_exec (X @ redir_char fd # f @ [0x20]) (REDIR c f m fd)"
  unfolding reads_def
proof (intro allI impI)
  fix buf s rest assume l: "look buf s ((X @ redir_char fd # f @ [0x20]) @ rest)" "ends exec_toks rest"
  have sr: "solid rest" using ends_solid [OF l(2)] by (simp add: symbols_def)
  let ?t = "redir_char fd # f @ 0x20 # rest"
  have l1: "look buf s (X @ ?t)" using l(1) by simp
  obtain x f' where x: "f = x # f'" "word_char x" "x \<noteq> 0" using f by (cases f) (auto simp: word_ok_def)
  have sf: "solid (f @ 0x20 # rest)" "x \<noteq> 0x3E" using x by (auto simp: solid_def word_char_def symbols_def)
  have rc: "redir_char fd \<in> {0x3C, 0x3E}" "redir_char fd \<in> set symbols" by (simp_all add: redir_char_def symbols_def)
  have e: "ends exec_toks ?t" using rc(1) by (auto simp: ends_def)
  obtain c1 s1 n1 where r: "look buf s1 ?t" "map_cmd (token_text buf) c1 = c" "\<And>n. n1 \<le> n \<Longrightarrow> run_exec n buf s c1 s1"
    using readsD [OF X l1 e] by metis
  have "peek buf s1 [0x3C, 0x3E] = (True, s1)"
    using look_peek [OF r(1), of "[0x3C, 0x3E]"] rc by (auto simp: solid_def whitespace_def)
  moreover have "gettoken buf s1 = (redir_char fd, (s1, Suc s1), Suc s1)"
    by (rule look_symbol(1) [OF r(1) rc(2) sf(1)]) (use x sf(2) in simp)
  moreover note T = look_word [OF look_Cons [OF r(1)] f sr]
  let ?k = "(Suc s1, Suc s1 + length f)" and ?s' = "Suc (Suc s1 + length f)"
  have "redir_mode (redir_char fd) = (m, fd)" using m by (auto simp: redir_ok_def redir_mode_def redir_char_def)
  ultimately have "parseredirs buf c1 s1 = parseredirs buf (REDIR c1 ?k m fd) ?s'" using T(1) by (subst parseredirs.simps) simp
  then have "exec_rest buf c1 s1 = exec_rest buf (REDIR c1 ?k m fd) ?s'" by (simp add: exec_rest_def split: option.split)
  then have "run_exec n buf s (REDIR c1 ?k m fd) ?s'" if "n1 \<le> n" for n using r(3) [OF that] by (simp add: run_exec_def)
  then show "\<exists>c' s' n0. look buf s' rest \<and> map_cmd (token_text buf) c' = REDIR c f m fd \<and> (\<forall>n\<ge>n0. run_exec n buf s c' s')"
    using T(2,3) r(2) by (intro exI [of _ "REDIR c1 ?k m fd"] exI [of _ ?s'] exI [of _ n1]) simp
qed

section \<open>The round trip\<close>

definition command_ok :: "byte list cmd \<Rightarrow> bool" where
  "command_ok c \<longleftrightarrow> shape_ok c \<and> (\<forall>w\<in>set_cmd c. word_ok w)"

lemma command_ok_simps [simp]:
  "command_ok (EXEC ws) \<longleftrightarrow> length ws < MAXARGS \<and> (\<forall>w\<in>set ws. word_ok w)"
  "command_ok (REDIR c f m fd) \<longleftrightarrow> redir_ok m fd \<and> word_ok f \<and> command_ok c"
  "command_ok (PIPE l r) \<longleftrightarrow> command_ok l \<and> command_ok r"
  "command_ok (LIST l r) \<longleftrightarrow> command_ok l \<and> command_ok r"
  "command_ok (BACK c) \<longleftrightarrow> command_ok c"
  by (auto simp: command_ok_def)

lemma solid_Cons: "x \<in> set symbols \<Longrightarrow> solid (x # xs)"
  by (auto simp: solid_def symbols_def whitespace_def)

lemma show_solid: "command_ok c \<Longrightarrow> solid rest \<Longrightarrow> solid (show_cmd c p @ rest)"
proof (induction c arbitrary: p rest)
  case (EXEC ws)
  then show ?case by (cases ws) (auto simp: solid_def word_ok_def word_char_def)
next
  case (REDIR c f m fd)
  have "solid (redir_char fd # f @ 0x20 # rest)" by (rule solid_Cons) (simp add: redir_char_def symbols_def)
  then show ?case using REDIR by simp
next
  case (PIPE l r)
  then show ?case by (simp add: paren_def solid_Cons symbols_def)
next
  case (LIST l r)
  then show ?case by (simp add: paren_def solid_Cons symbols_def)
next
  case (BACK c)
  then show ?case by (simp add: paren_def solid_Cons symbols_def)
qed

lemma reads_exec_paren:
  assumes "reads_line (show_cmd c 0) c" "command_ok c" "argc_of c = None" "show_cmd c 3 = paren True (show_cmd c 0)"
  shows "reads_exec (show_cmd c 3) c"
  unfolding assms(4) by (rule reads_line_paren [OF assms(1,3) show_solid [OF assms(2)]])

lemma show_reads:
  "command_ok c \<Longrightarrow> reads_exec (show_cmd c 3) c \<and> reads_pipe (show_cmd c 2) c \<and> reads_back (show_cmd c 1) c \<and> reads_line (show_cmd c 0) c"
proof (induction c)
  case (EXEC ws)
  then have "reads_exec (show_cmd (EXEC ws) 3) (EXEC ws)" by (simp add: reads_exec_words)
  then show ?case using reads_exec_pipe reads_pipe_back reads_back_line by simp
next
  case (REDIR c f m fd)
  then have "reads_exec (show_cmd (REDIR c f m fd) 3) (REDIR c f m fd)" by (simp add: reads_exec_redir)
  then show ?case using reads_exec_pipe reads_pipe_back reads_back_line by simp
next
  case (PIPE l r)
  then have p: "reads_pipe (show_cmd (PIPE l r) 2) (PIPE l r)" by (simp add: paren_def reads_pipe_pipe show_solid)
  then have b: "reads_back (show_cmd (PIPE l r) 1) (PIPE l r)" using reads_pipe_back by (simp add: paren_def)
  then have "reads_line (show_cmd (PIPE l r) 0) (PIPE l r)" using reads_back_line by (simp add: paren_def)
  moreover from this have "reads_exec (show_cmd (PIPE l r) 3) (PIPE l r)"
    by (rule reads_exec_paren [OF _ PIPE.prems]) (simp_all add: paren_def)
  ultimately show ?case using p b by blast
next
  case (LIST l r)
  then have "reads_line (show_cmd (LIST l r) 0) (LIST l r)" by (simp add: paren_def reads_line_list show_solid)
  moreover from this have e: "reads_exec (show_cmd (LIST l r) 3) (LIST l r)"
    by (rule reads_exec_paren [OF _ LIST.prems]) (simp_all add: paren_def)
  moreover from e have "reads_pipe (show_cmd (LIST l r) 2) (LIST l r)" using reads_exec_pipe by (simp add: paren_def)
  moreover from this have "reads_back (show_cmd (LIST l r) 1) (LIST l r)" using reads_pipe_back by (simp add: paren_def)
  ultimately show ?case by blast
next
  case (BACK c)
  then have b: "reads_back (show_cmd (BACK c) 1) (BACK c)" by (simp add: paren_def reads_back_back)
  then have "reads_line (show_cmd (BACK c) 0) (BACK c)" using reads_back_line by (simp add: paren_def)
  moreover from this have e: "reads_exec (show_cmd (BACK c) 3) (BACK c)"
    by (rule reads_exec_paren [OF _ BACK.prems]) (simp_all add: paren_def)
  moreover from e have "reads_pipe (show_cmd (BACK c) 2) (BACK c)" using reads_exec_pipe by (simp add: paren_def)
  ultimately show ?case using b by blast
qed

lemma show_no_NUL: "command_ok c \<Longrightarrow> 0 \<notin> set (show_cmd c p)"
  by (induction c arbitrary: p) (auto simp: paren_def redir_char_def word_ok_def)

text \<open>
  C35: The parser reads back what is printed. For every tree of commands with fewer than MAXARGS
  arguments each and words free of blanks and symbols, parsecmd() of the printed line returns a
  tree of the same shape, in which the C strings at the positions it holds are the words of
  the original. So pipes, lists, background marks, redirections and parentheses group as the printer meant them.
\<close>

theorem parse_show_roundtrip:
  assumes "command_ok t"
  shows "\<exists>c b. parsecmd (show_cmd t 0) = Inr (c, b) \<and> map_cmd (\<lambda>(q, e). cstring_at b q) c = t"
proof -
  let ?buf = "show_cmd t 0"
  have r: "reads_line ?buf t" using show_reads [OF assms] by blast
  have "look ?buf 0 (?buf @ [])" "ends line_toks []" by (simp_all add: look_def ends_def)
  then obtain c s n0 where c: "look ?buf s []" "map_cmd (token_text ?buf) c = t" "\<And>n. n0 \<le> n \<Longrightarrow> run_line n ?buf 0 c s"
    using readsD [OF r] by metis
  have s: "s = length ?buf" using c(1) by (auto simp: look_def)
  have "parseline (max n0 (sh_fuel ?buf)) ?buf 0 = parseline (sh_fuel ?buf) ?buf 0"
    by (rule parseline_more_fuel [OF _ sh_fuel_enough]) simp
  then have p: "parseline (sh_fuel ?buf) ?buf 0 = Inr (c, s)" using c(3) [of "max n0 (sh_fuel ?buf)"] by (simp add: run_line_def)
  have "snd (peek ?buf s []) = s" using look_peek [OF c(1)] by (simp add: solid_def)
  then have "parsecmd ?buf = Inr (c, nulterminate c ?buf)" using p s by (simp add: parsecmd_def)
  moreover have ok: "tree_ok ?buf c" using parse_sound p parse_tree_ok(1) by blast
  have "map_cmd (\<lambda>(q, e). cstring_at (nulterminate c ?buf) q) c = map_cmd (token_text ?buf) c"
    by (rule cmd.map_cong0) (use nulterminate_word [OF ok _ show_no_NUL [OF assms]] in auto)
  ultimately show ?thesis using c(2) by auto
qed

text \<open>The line \<open>(a;b)|c>d&\<close>, as printed.\<close>

theorem parse_show_roundtrip_witness:
  "\<exists>c b. parsecmd [0x28, 0x61, 0x20, 0x3B, 0x62, 0x20, 0x29, 0x7C, 0x63, 0x20, 0x3E, 0x64, 0x20, 0x26] = Inr (c, b) \<and>
    map_cmd (\<lambda>(q, e). cstring_at b q) c = BACK (PIPE (LIST (EXEC [[0x61]]) (EXEC [[0x62]])) (REDIR (EXEC [[0x63]]) [0x64] (O_WRONLY OR O_CREATE) 1))"
proof -
  let ?t = "BACK (PIPE (LIST (EXEC [[0x61]]) (EXEC [[0x62]])) (REDIR (EXEC [[0x63]]) [0x64] (O_WRONLY OR O_CREATE) 1))"
  have "command_ok ?t" by (simp add: MAXARGS_def word_ok_def word_char_def whitespace_def symbols_def redir_ok_def)
  from parse_show_roundtrip [OF this] show ?thesis by (simp add: paren_def redir_char_def)
qed

end
