(* ===== verification/Uprog.thy ===== *)
theory Uprog
  imports CStrings Sysfile
begin

text \<open>
  User programs. A program is the tree of its system calls: a node is a call together with what
  the program does for each result. The theory has the system calls of user.h as such programs, printf.c, the functions of ulib.c
  that make calls, and the meaning of a program over a given behaviour of the kernel.
\<close>

section \<open>Programs as trees of system calls\<close>

text \<open>
  The results: the value of the call, and what it stores at its pointer argument (the bytes read, the
  two descriptors of a pipe, a struct stat).
\<close>

record ures =
  u_ret :: int
  u_data :: "byte list"
  u_fds :: "int \<times> int"
  u_stat :: stat

datatype ucall =
    SFork | SWait | SPipe
  | SWrite int "byte list" | SRead int nat | SClose int | SKill int
  | SExec "byte list" "byte list list" | SOpen "byte list" uint | SMknod "byte list" int int
  | SUnlink "byte list" | SFstat int | SLink "byte list" "byte list" | SMkdir "byte list" | SChdir "byte list"
  | SDup int | SGetpid | SSbrk int | SSleep int | SUptime

text \<open>\<open>UFuel\<close> marks a loop that was given too little fuel, \<open>UUndef\<close> what C leaves undefined.\<close>

datatype 'a uprog =
    URet 'a
  | UExit
  | UFuel
  | UUndef
  | USys ucall "ures \<Rightarrow> 'a uprog"

primrec ubind :: "'a uprog \<Rightarrow> ('a \<Rightarrow> 'b uprog) \<Rightarrow> 'b uprog" where
  "ubind (URet a) f = f a"
| "ubind UExit f = UExit"
| "ubind UFuel f = UFuel"
| "ubind UUndef f = UUndef"
| "ubind (USys c k) f = USys c (\<lambda>r. ubind (k r) f)"

abbreviation uthen :: "'a uprog \<Rightarrow> 'b uprog \<Rightarrow> 'b uprog" where
  "uthen p q \<equiv> ubind p (\<lambda>_. q)"

lemma ubind_assoc [simp]: "ubind (ubind p f) g = ubind p (\<lambda>x. ubind (f x) g)"
  by (induction p) simp_all

lemma ubind_ret [simp]: "ubind p URet = p"
  by (induction p) simp_all

definition u_call :: "ucall \<Rightarrow> int uprog" where
  "u_call c = USys c (\<lambda>r. URet (u_ret r))"

definition u_read :: "int \<Rightarrow> nat \<Rightarrow> (int \<times> byte list) uprog" where
  "u_read fd n = USys (SRead fd n) (\<lambda>r. URet (u_ret r, u_data r))"

definition u_pipe :: "(int \<times> int \<times> int) uprog" where
  "u_pipe = USys SPipe (\<lambda>r. URet (u_ret r, u_fds r))"

definition u_fstat :: "int \<Rightarrow> (int \<times> stat) uprog" where
  "u_fstat fd = USys (SFstat fd) (\<lambda>r. URet (u_ret r, u_stat r))"

primrec useq :: "'a uprog list \<Rightarrow> unit uprog" where
  "useq [] = URet ()"
| "useq (p # ps) = uthen p (useq ps)"

section \<open>printf.c\<close>

text \<open>An argument of printf() is a number, or a pointer with the string it points at.\<close>

datatype uarg = AInt uint | AStr "byte list" | ANull

definition udigits :: "byte list" where
  "udigits = ascii ''0123456789ABCDEF''"

function udigits_rev :: "uint \<Rightarrow> uint \<Rightarrow> byte list" where
  "udigits_rev base x = udigits ! unat (x mod base) #
     (if x div base = 0 \<or> base \<le> 1 then [] else udigits_rev base (x div base))"
  by pat_completeness auto
termination
proof (relation "measure (unat \<circ> snd)")
  fix base x :: uint assume a: "\<not> (x div base = 0 \<or> base \<le> 1)"
  then have b: "1 < unat base" by (simp add: word_le_nat_alt)
  have "unat x \<noteq> 0" using a by (auto simp: unat_eq_zero)
  then have "unat x div unat base < unat x" using b by (intro div_less_dividend) auto
  then show "((base, x div base), base, x) \<in> measure (unat \<circ> snd)" by (simp add: unat_div_distrib)
qed simp

declare udigits_rev.simps [simp del]

definition u_putc :: "int \<Rightarrow> byte \<Rightarrow> int uprog" where
  "u_putc fd c = u_call (SWrite fd [c])"

text \<open>printint(): the characters in its buffer, last one first, and their output.\<close>

definition printint_buf :: "int \<Rightarrow> uint \<Rightarrow> bool \<Rightarrow> byte list" where
  "printint_buf xx base sg = (let neg = (sg \<and> xx < 0); x = (if neg then word_of_int (- xx) else word_of_int xx :: uint) in
     udigits_rev base x @ (if neg then [0x2D] else []))"

definition u_puts :: "int \<Rightarrow> byte list \<Rightarrow> unit uprog" where
  "u_puts fd s = useq (map (u_putc fd) s)"

definition u_printint :: "int \<Rightarrow> int \<Rightarrow> uint \<Rightarrow> bool \<Rightarrow> unit uprog" where
  "u_printint fd xx base sg = u_puts fd (rev (printint_buf xx base sg))"

text \<open>printf(): \<open>pct\<close> is the state '%', in which a format ends its directive.\<close>

fun printf_loop :: "int \<Rightarrow> byte list \<Rightarrow> bool \<Rightarrow> uarg list \<Rightarrow> unit uprog" where
  "printf_loop fd [] pct args = URet ()"
| "printf_loop fd (c # fmt) False args =
     (if c = 0x25 then printf_loop fd fmt True args else uthen (u_putc fd c) (printf_loop fd fmt False args))"
| "printf_loop fd (c # fmt) True args =
     (if c = 0x64 then (case args of AInt n # as \<Rightarrow> uthen (u_printint fd (sint n) 10 True) (printf_loop fd fmt False as) | _ \<Rightarrow> UUndef)
      else if c = 0x78 \<or> c = 0x70 then
        (case args of AInt n # as \<Rightarrow> uthen (u_printint fd (sint n) 16 False) (printf_loop fd fmt False as) | _ \<Rightarrow> UUndef)
      else if c = 0x73 then (case args of
          AStr s # as \<Rightarrow> uthen (u_puts fd s) (printf_loop fd fmt False as)
        | ANull # as \<Rightarrow> uthen (u_puts fd (ascii ''(null)'')) (printf_loop fd fmt False as)
        | _ \<Rightarrow> UUndef)
      else if c = 0x63 then
        (case args of AInt n # as \<Rightarrow> uthen (u_putc fd (ucast n)) (printf_loop fd fmt False as) | _ \<Rightarrow> UUndef)
      else if c = 0x25 then uthen (u_putc fd c) (printf_loop fd fmt False args)
      else uthen (u_putc fd 0x25) (uthen (u_putc fd c) (printf_loop fd fmt False args)))"

definition printf :: "int \<Rightarrow> string \<Rightarrow> uarg list \<Rightarrow> unit uprog" where
  "printf fd fmt args = printf_loop fd (ascii fmt) False args"

text \<open>A format that ends with a newline.\<close>

definition line :: "string \<Rightarrow> string" where
  "line s = s @ [CHR 0x0A]"

section \<open>ulib.c\<close>

text \<open>
  gets(): \<open>n\<close> is the room that is left, max - 1 - i; the result is the string in the buffer.
\<close>

primrec gets_loop :: "nat \<Rightarrow> byte list \<Rightarrow> byte list uprog" where
  "gets_loop 0 buf = URet buf"
| "gets_loop (Suc n) buf = ubind (u_read 0 1) (\<lambda>(cc, d). if cc < 1 then URet buf else
     case d of [] \<Rightarrow> UUndef
     | c # _ \<Rightarrow> if c = 0x0A \<or> c = 0x0D then URet (buf @ [c]) else gets_loop n (buf @ [c]))"

definition gets :: "nat \<Rightarrow> byte list uprog" where
  "gets mx = gets_loop (mx - 1) []"

text \<open>stat(): \<open>st\<close> is what the caller's struct holds before the call.\<close>

definition ustat :: "byte list \<Rightarrow> stat \<Rightarrow> (int \<times> stat) uprog" where
  "ustat n st = ubind (u_call (SOpen n O_RDONLY)) (\<lambda>fd. if fd < 0 then URet (-1, st) else
     ubind (u_fstat fd) (\<lambda>r. uthen (u_call (SClose fd)) (URet r)))"

section \<open>Running a program\<close>

text \<open>
  \<open>h\<close> is what the kernel does for a call in the state \<open>w\<close> of the world outside the program. A fork is
  followed in the parent.
\<close>

datatype 'a uend = Returned 'a | Exited | OutOfFuel | Undefined

primrec urun :: "(ucall \<Rightarrow> 'w \<Rightarrow> ures \<times> 'w) \<Rightarrow> 'a uprog \<Rightarrow> 'w \<Rightarrow> 'a uend \<times> 'w" where
  "urun h (URet a) w = (Returned a, w)"
| "urun h UExit w = (Exited, w)"
| "urun h UFuel w = (OutOfFuel, w)"
| "urun h UUndef w = (Undefined, w)"
| "urun h (USys c k) w = (let (r, w') = h c w in urun h (k r) w')"

lemma urun_bind: "urun h (ubind p f) w = (case urun h p w of
    (Returned a, w') \<Rightarrow> urun h (f a) w'
  | (Exited, w') \<Rightarrow> (Exited, w') | (OutOfFuel, w') \<Rightarrow> (OutOfFuel, w') | (Undefined, w') \<Rightarrow> (Undefined, w'))"
  by (induction p arbitrary: w) (simp_all split: prod.split)

lemma urun_bindI: "urun h p w = (Returned a, w') \<Longrightarrow> urun h (ubind p f) w = urun h (f a) w'"
  by (simp add: urun_bind)

text \<open>
  The input and output of a filter: each descriptor delivers the given pieces of its input, at
  most as many bytes as asked for, and 0 at the end; what is written is appended to the output of the descriptor. Opening
  a path yields the descriptor \<open>w_open\<close> gives for it.
\<close>

record uworld =
  w_in :: "int \<Rightarrow> byte list list"
  w_out :: "int \<Rightarrow> byte list"
  w_open :: "byte list \<Rightarrow> int"

definition int_res :: "int \<Rightarrow> ures" where
  "int_res n = \<lparr>u_ret = n, u_data = [], u_fds = (0, 0), u_stat = \<lparr>st_type = 0, st_dev = 0, st_ino = 0, st_nlink = 0, st_size = 0\<rparr>\<rparr>"

fun io_step :: "ucall \<Rightarrow> uworld \<Rightarrow> ures \<times> uworld" where
  "io_step (SWrite fd d) w = (int_res (int (length d)), w\<lparr>w_out := (w_out w)(fd := w_out w fd @ d)\<rparr>)"
| "io_step (SRead fd n) w = (case w_in w fd of
     [] \<Rightarrow> (int_res 0, w)
   | d # ds \<Rightarrow> ((int_res (int (length (take n d))))\<lparr>u_data := take n d\<rparr>,
       w\<lparr>w_in := (w_in w)(fd := if length d \<le> n then ds else drop n d # ds)\<rparr>))"
| "io_step (SOpen path m) w = (int_res (w_open w path), w)"
| "io_step _ w = (int_res 0, w)"

definition w_put :: "int \<Rightarrow> byte list \<Rightarrow> uworld \<Rightarrow> uworld" where
  "w_put fd d w = w\<lparr>w_out := (w_out w)(fd := w_out w fd @ d)\<rparr>"

lemma w_put_simps [simp]:
  "w_put fd [] w = w" "w_put fd b (w_put fd a w) = w_put fd (a @ b) w"
  "w_in (w_put fd d w) = w_in w" "w_out (w_put fd d w) = (w_out w)(fd := w_out w fd @ d)" "w_open (w_put fd d w) = w_open w"
  by (simp_all add: w_put_def)

lemma int_res_ret [simp]: "u_ret (int_res n) = n"
  by (simp add: int_res_def)

lemma urun_write: "urun io_step (u_call (SWrite fd d)) w = (Returned (int (length d)), w_put fd d w)"
  by (simp add: u_call_def w_put_def)

lemma urun_putc: "urun io_step (u_putc fd c) w = (Returned 1, w_put fd [c] w)"
  by (simp add: u_putc_def urun_write)

lemma urun_puts: "urun io_step (u_puts fd s) w = (Returned (), w_put fd s w)"
  unfolding u_puts_def by (induction s arbitrary: w) (simp_all add: urun_bind urun_putc)

lemma urun_printint: "urun io_step (u_printint fd xx base sg) w = (Returned (), w_put fd (rev (printint_buf xx base sg)) w)"
  by (simp add: u_printint_def urun_puts)

section \<open>What printf() prints\<close>

text \<open>The characters of a format with its arguments, written as one function of them.\<close>

fun format :: "byte list \<Rightarrow> uarg list \<Rightarrow> byte list option" where
  "format [] args = Some []"
| "format [c] args = Some (if c = 0x25 then [] else [c])"
| "format (c # d # fmt) args =
     (if c \<noteq> 0x25 then map_option ((#) c) (format (d # fmt) args)
      else if d = 0x64 then (case args of AInt n # as \<Rightarrow> map_option ((@) (rev (printint_buf (sint n) 10 True))) (format fmt as) | _ \<Rightarrow> None)
      else if d = 0x78 \<or> d = 0x70 then (case args of AInt n # as \<Rightarrow> map_option ((@) (rev (printint_buf (sint n) 16 False))) (format fmt as) | _ \<Rightarrow> None)
      else if d = 0x73 then (case args of AStr s # as \<Rightarrow> map_option ((@) s) (format fmt as)
        | ANull # as \<Rightarrow> map_option ((@) (ascii ''(null)'')) (format fmt as) | _ \<Rightarrow> None)
      else if d = 0x63 then (case args of AInt n # as \<Rightarrow> map_option ((#) (ucast n)) (format fmt as) | _ \<Rightarrow> None)
      else if d = 0x25 then map_option ((#) 0x25) (format fmt args)
      else map_option (\<lambda>r. 0x25 # d # r) (format fmt args))"

lemma printf_loop_format:
  "format fmt args = Some out \<Longrightarrow> urun io_step (printf_loop fd fmt False args) w = (Returned (), w_put fd out w)"
proof (induction fmt args arbitrary: out w rule: format.induct)
  case (3 c d fmt args)
  show ?case
  proof (cases "c = 0x25")
    case True
    with 3 show ?thesis
      by (auto simp: urun_bind urun_putc urun_puts urun_printint split: if_splits list.splits uarg.splits)
  next
    case False
    then obtain r where r: "format (d # fmt) args = Some r" "out = c # r" using "3.prems" by auto
    have "urun io_step (printf_loop fd (d # fmt) False args) w' = (Returned (), w_put fd r w')" for w'
      by (rule "3.IH"(1)) (use False r in simp_all)
    then show ?thesis using False r(2) by (simp add: urun_bind urun_putc del: printf_loop.simps) (simp add: urun_bind urun_putc)
  qed
qed (auto simp: urun_bind urun_putc split: if_splits)

lemma urun_printf:
  "format (ascii fmt) args = Some out \<Longrightarrow> urun io_step (printf fd fmt args) w = (Returned (), w_put fd out w)"
  by (simp add: printf_def printf_loop_format)

end
