(* ===== verification/ShRun.thy ===== *)
theory ShRun
  imports ShSpec Uprog
begin

text \<open>
  The shell's execution of commands: runcmd(), the command loop, and the descriptors with which
  every program of a command line is started.
\<close>

section \<open>sh.c\<close>

definition sh_panic :: "string \<Rightarrow> 'a uprog" where
  "sh_panic msg = uthen (printf 2 (line ''%s'') [AStr (ascii msg)]) UExit"

definition fork1 :: "int uprog" where
  "fork1 = ubind (u_call SFork) (\<lambda>pid. if pid = -1 then sh_panic ''fork'' else URet pid)"

text \<open>runcmd() on a tree whose words are their characters. It never returns.\<close>

primrec runcmd :: "byte list cmd \<Rightarrow> unit uprog" where
  "runcmd (EXEC argv) = (if argv = [] then UExit
     else uthen (u_call (SExec (hd argv) argv)) (uthen (printf 2 (line ''exec %s failed'') [AStr (hd argv)]) UExit))"
| "runcmd (REDIR c f mode fd) = uthen (u_call (SClose (int fd))) (ubind (u_call (SOpen f mode)) (\<lambda>r.
     if r < 0 then uthen (printf 2 (line ''open %s failed'') [AStr f]) UExit else runcmd c))"
| "runcmd (LIST l r) = ubind fork1 (\<lambda>pid. if pid = 0 then runcmd l else uthen (u_call SWait) (runcmd r))"
| "runcmd (PIPE l r) = ubind u_pipe (\<lambda>(e, p0, p1). if e < 0 then sh_panic ''pipe'' else
     ubind fork1 (\<lambda>pid. if pid = 0
       then uthen (u_call (SClose 1)) (uthen (u_call (SDup p1))
         (uthen (u_call (SClose p0)) (uthen (u_call (SClose p1)) (runcmd l))))
       else ubind fork1 (\<lambda>pid. if pid = 0
         then uthen (u_call (SClose 0)) (uthen (u_call (SDup p0))
           (uthen (u_call (SClose p0)) (uthen (u_call (SClose p1)) (runcmd r))))
         else uthen (u_call (SClose p0)) (uthen (u_call (SClose p1))
           (uthen (u_call SWait) (uthen (u_call SWait) UExit))))))"
| "runcmd (BACK c) = ubind fork1 (\<lambda>pid. if pid = 0 then runcmd c else UExit)"

text \<open>The tree with the strings at its positions in the terminated buffer.\<close>

definition cmd_words :: "byte list \<Rightarrow> pcmd \<Rightarrow> byte list cmd" where
  "cmd_words b c = map_cmd (\<lambda>(q, e). cstring_at b q) c"

text \<open>runcmd(parsecmd(buf)) in the child of the shell.\<close>

definition run_child :: "byte list \<Rightarrow> unit uprog" where
  "run_child buf = (case parsecmd buf of
     Inl NoFuel \<Rightarrow> UFuel
   | Inl (ShPanic msg) \<Rightarrow> sh_panic msg
   | Inl (Leftovers s) \<Rightarrow> uthen (printf 2 (line ''leftovers: %s'') [AStr s]) (sh_panic ''syntax'')
   | Inr (c, b) \<Rightarrow> runcmd (cmd_words b c))"

definition getcmd :: "nat \<Rightarrow> byte list option uprog" where
  "getcmd nbuf = uthen (printf 2 ''$ '' []) (ubind (gets nbuf) (\<lambda>buf.
     let s = takeWhile (\<lambda>c. c \<noteq> 0) buf in URet (if s = [] then None else Some s)))"

text \<open>The loops of main(): opening the console until three descriptors are in use, and the commands.\<close>

primrec open_console :: "nat \<Rightarrow> unit uprog" where
  "open_console 0 = UFuel"
| "open_console (Suc k) = ubind (u_call (SOpen (ascii ''console'') O_RDWR)) (\<lambda>fd.
     if fd \<ge> 0 then if fd \<ge> 3 then uthen (u_call (SClose fd)) (URet ()) else open_console k else URet ())"

primrec sh_loop :: "nat \<Rightarrow> unit uprog" where
  "sh_loop 0 = UFuel"
| "sh_loop (Suc k) = ubind (getcmd 100) (\<lambda>r. case r of None \<Rightarrow> UExit
   | Some buf \<Rightarrow>
     if take 3 buf = ascii ''cd '' then let dir = drop 3 (butlast buf) in
       ubind (u_call (SChdir dir)) (\<lambda>r.
         uthen (if r < 0 then printf 2 (line ''cannot cd %s'') [AStr dir] else URet ()) (sh_loop k))
     else ubind fork1 (\<lambda>pid. if pid = 0 then run_child buf else uthen (u_call SWait) (sh_loop k)))"

definition sh_main :: "nat \<Rightarrow> unit uprog" where
  "sh_main k = uthen (open_console k) (sh_loop k)"

section \<open>Descriptors\<close>

text \<open>
  What a descriptor refers to. The calls succeed and take the lowest free descriptor, as fdalloc() does; \<open>n\<close> numbers
  the pipes. A fork is followed on both sides. The result lists the programs that the process and its
  children execute, each with its table of descriptors.
\<close>

datatype desc = Console | File "byte list" uint | PipeR nat | PipeW nat

type_synonym fdtab = "nat \<Rightarrow> desc option"

definition lowest_free :: "fdtab \<Rightarrow> nat option" where
  "lowest_free t = find (\<lambda>i. t i = None) [0..<NOFILE]"

definition fd_alloc :: "fdtab \<Rightarrow> desc option \<Rightarrow> int \<times> fdtab" where
  "fd_alloc t d = (case lowest_free t of None \<Rightarrow> (-1, t) | Some fd \<Rightarrow> (int fd, t(fd := d)))"

definition pipe_res :: "int \<Rightarrow> int \<Rightarrow> ures" where
  "pipe_res p0 p1 = (int_res (if p0 < 0 \<or> p1 < 0 then -1 else 0))\<lparr>u_fds := (p0, p1)\<rparr>"

primrec execs :: "'a uprog \<Rightarrow> fdtab \<Rightarrow> nat \<Rightarrow> (byte list list \<times> fdtab) list \<times> nat" where
  "execs (URet a) t n = ([], n)"
| "execs UExit t n = ([], n)"
| "execs UFuel t n = ([], n)"
| "execs UUndef t n = ([], n)"
| "execs (USys c k) t n = (case c of
     SFork \<Rightarrow> let (as, n1) = execs (k (int_res 0)) t n; (bs, n2) = execs (k (int_res 1)) t n1 in (as @ bs, n2)
   | SExec path argv \<Rightarrow> ([(argv, t)], n)
   | SClose fd \<Rightarrow> execs (k (int_res 0)) (t(nat fd := None)) n
   | SOpen f m \<Rightarrow> let (fd, t') = fd_alloc t (Some (File f m)) in execs (k (int_res fd)) t' n
   | SDup fd \<Rightarrow> let (fd', t') = fd_alloc t (t (nat fd)) in execs (k (int_res fd')) t' n
   | SPipe \<Rightarrow> let (p0, t1) = fd_alloc t (Some (PipeR n)); (p1, t2) = fd_alloc t1 (Some (PipeW n)) in
       execs (k (pipe_res p0 p1)) t2 (n + 1)
   | _ \<Rightarrow> execs (k (int_res 0)) t n)"

text \<open>What a command line means: each program with its standard input and output.\<close>

primrec wiring :: "byte list cmd \<Rightarrow> desc \<Rightarrow> desc \<Rightarrow> nat \<Rightarrow> (byte list list \<times> desc \<times> desc) list \<times> nat" where
  "wiring (EXEC argv) i out n = (if argv = [] then [] else [(argv, i, out)], n)"
| "wiring (REDIR c f m fd) i out n = (if fd = 0 then wiring c (File f m) out n else wiring c i (File f m) n)"
| "wiring (LIST l r) i out n = (let (as, n1) = wiring l i out n; (bs, n2) = wiring r i out n1 in (as @ bs, n2))"
| "wiring (PIPE l r) i out n = (let (as, n1) = wiring l i (PipeW n) (n + 1); (bs, n2) = wiring r (PipeR n) out n1 in (as @ bs, n2))"
| "wiring (BACK c) i out n = wiring c i out n"

definition std_tab :: "desc \<Rightarrow> desc \<Rightarrow> fdtab" where
  "std_tab i out = (\<lambda>fd. if fd = 0 then Some i else if fd = 1 then Some out else if fd = 2 then Some Console else None)"

lemma nofile_list: "[0..<NOFILE] = 0 # 1 # 2 # 3 # 4 # [5..<16]"
  by code_simp

lemma lowest_free_simps:
  "t 0 = None \<Longrightarrow> lowest_free t = Some 0"
  "t 0 \<noteq> None \<Longrightarrow> t 1 = None \<Longrightarrow> lowest_free t = Some 1"
  "t 0 \<noteq> None \<Longrightarrow> t 1 \<noteq> None \<Longrightarrow> t 2 \<noteq> None \<Longrightarrow> t 3 = None \<Longrightarrow> lowest_free t = Some 3"
  "t 0 \<noteq> None \<Longrightarrow> t 1 \<noteq> None \<Longrightarrow> t 2 \<noteq> None \<Longrightarrow> t 3 \<noteq> None \<Longrightarrow> t 4 = None \<Longrightarrow> lowest_free t = Some 4"
  unfolding lowest_free_def nofile_list by simp_all

text \<open>What the calls that runcmd() makes do to the table of a process with three descriptors.\<close>

lemma std_tab_alloc:
  "fd_alloc ((std_tab i out)(0 := None)) (Some d) = (0, std_tab d out)"
  "fd_alloc ((std_tab i out)(1 := None)) (Some d) = (1, std_tab i d)"
  "fd_alloc (std_tab i out) (Some d) = (3, (std_tab i out)(3 := Some d))"
  "fd_alloc ((std_tab i out)(3 := Some d)) (Some e) = (4, (std_tab i out)(3 := Some d, 4 := Some e))"
  by (auto simp: fd_alloc_def lowest_free_simps std_tab_def)

lemma pipe_tab_alloc:
  "fd_alloc ((std_tab i out)(3 := Some d, 4 := Some e, 0 := None)) (Some x) = (0, (std_tab x out)(3 := Some d, 4 := Some e))"
  "fd_alloc ((std_tab i out)(3 := Some d, 4 := Some e, 1 := None)) (Some x) = (1, (std_tab i x)(3 := Some d, 4 := Some e))"
  by (auto simp: fd_alloc_def lowest_free_simps std_tab_def)

lemma std_tab_close: "(std_tab i out)(3 := None, 4 := None) = std_tab i out"
  by (auto simp: std_tab_def)

lemma execs_fork1:
  "execs (ubind fork1 f) t n =
    (let (as, n1) = execs (f 0) t n; (bs, n2) = execs (f 1) t n1 in (as @ bs, n2))"
  by (simp add: fork1_def u_call_def)

lemma execs_calls:
  "execs (uthen (u_call (SClose fd)) p) t n = execs p (t(nat fd := None)) n"
  "execs (uthen (u_call SWait) p) t n = execs p t n"
  "execs (uthen (u_call (SDup fd)) p) t n = execs p (snd (fd_alloc t (t (nat fd)))) n"
  "execs (ubind (u_call (SOpen f m)) g) t n = (let (fd, t') = fd_alloc t (Some (File f m)) in execs (g fd) t' n)"
  "execs (uthen (u_call (SExec path argv)) p) t n = ([(argv, t)], n)"
  by (simp_all add: u_call_def split: prod.split)

abbreviation started :: "(byte list list \<times> desc \<times> desc) list \<times> nat \<Rightarrow> (byte list list \<times> fdtab) list \<times> nat" where
  "started \<equiv> apfst (map (\<lambda>(argv, i, out). (argv, std_tab i out)))"

lemma execs_runcmd: "shape_ok c \<Longrightarrow> execs (runcmd c) (std_tab i out) n = started (wiring c i out n)"
proof (induction c arbitrary: i out n)
  case (REDIR c f m fd)
  then show ?case by (auto simp: execs_calls std_tab_alloc std_tab_alloc [unfolded One_nat_def] redir_ok_def)
next
  case (PIPE l r)
  have "execs (runcmd (PIPE l r)) (std_tab i out) n =
    (let (as, n1) = execs (runcmd l) (std_tab i (PipeW n)) (n + 1); (bs, n2) = execs (runcmd r) (std_tab (PipeR n) out) n1 in (as @ bs, n2))"
    by (simp add: u_pipe_def std_tab_alloc pipe_res_def execs_fork1 execs_calls
      pipe_tab_alloc pipe_tab_alloc [unfolded One_nat_def] std_tab_close split: prod.split)
  then show ?case using PIPE by (simp split: prod.split)
qed (simp_all add: execs_calls execs_fork1 split: prod.split)

lemma shape_ok_map [simp]: "shape_ok (map_cmd f c) = shape_ok c"
  by (induction c) simp_all

text \<open>
  C39: The shell connects the programs of a command line as the line says. For every line that the
  parser accepts, in a shell with three open descriptors, when the system calls succeed, the child started
  for it and the child's children execute exactly the programs of the tree, each once. Each of them has exactly three open
  descriptors: its input and output are those of the shell, the ends of the pipe between it and its
  neighbour, or the file of its innermost redirection, and no end of a pipe stays open in a program it does not belong to.
\<close>

theorem shell_plumbing:
  assumes "parsecmd buf = Inr (c, b)"
  shows "execs (run_child buf) (std_tab i out) n = started (wiring (cmd_words b c) i out n)"
proof -
  obtain s' where "parseline (sh_fuel buf) buf 0 = Inr (c, s')"
    using assms by (auto simp: parsecmd_def sh_bind_Inr split: if_splits)
  then have "tree_ok buf c" using parse_sound parse_tree_ok(1) by blast
  then have "shape_ok c" by (simp add: tree_ok_def)
  then have "execs (runcmd (cmd_words b c)) (std_tab i out) n = started (wiring (cmd_words b c) i out n)"
    by (simp add: execs_runcmd cmd_words_def)
  then show ?thesis using assms by (simp add: run_child_def)
qed

text \<open>The line \<open>a|b>c\<close>: \<open>a\<close> writes to the pipe from which \<open>b\<close> reads, and \<open>b\<close> writes to the file.\<close>

theorem shell_plumbing_witness:
  "execs (run_child [0x61, 0x7C, 0x62, 0x3E, 0x63]) (std_tab Console Console) 0 =
    ([([[0x61]], std_tab Console (PipeW 0)), ([[0x62]], std_tab (PipeR 0) (File [0x63] (O_WRONLY OR O_CREATE)))], 1)"
proof -
  have p: "parsecmd [0x61, 0x7C, 0x62, 0x3E, 0x63] =
      Inr (PIPE (EXEC [(0, 1)]) (REDIR (EXEC [(2, 3)]) (4, 5) (O_WRONLY OR O_CREATE) 1), [0x61, 0, 0x62, 0, 0x63])"
    by code_simp
  show ?thesis by (subst shell_plumbing [OF p]) (simp_all add: cmd_words_def cstring_at_def)
qed

end
