(* ===== verification/UserProgs.thy ===== *)
theory UserProgs
  imports Uprog
begin

text \<open>
  The small user programs: cat, echo, init, kill, ln, ls, mkdir, rm, wc, zombie, forktest and stressfs. A loop that
  only the kernel's answers end takes fuel. The arguments of a program are \<open>argv\<close>, its name first.
\<close>

section \<open>cat.c\<close>

primrec cat :: "nat \<Rightarrow> int \<Rightarrow> unit uprog" where
  "cat 0 fd = UFuel"
| "cat (Suc k) fd = ubind (u_read fd 512) (\<lambda>(n, buf).
     if n > 0 then ubind (u_call (SWrite 1 buf)) (\<lambda>m.
       if m \<noteq> n then uthen (printf 1 (line ''cat: write error'') []) UExit else cat k fd)
     else if n < 0 then uthen (printf 1 (line ''cat: read error'') []) UExit
     else URet ())"

primrec cat_files :: "nat \<Rightarrow> byte list list \<Rightarrow> unit uprog" where
  "cat_files k [] = UExit"
| "cat_files k (a # as) = ubind (u_call (SOpen a 0)) (\<lambda>fd.
     if fd < 0 then uthen (printf 1 (line ''cat: cannot open %s'') [AStr a]) UExit
     else uthen (cat k fd) (uthen (u_call (SClose fd)) (cat_files k as)))"

definition cat_main :: "nat \<Rightarrow> byte list list \<Rightarrow> unit uprog" where
  "cat_main k argv = (if length argv \<le> 1 then uthen (cat k 0) UExit else cat_files k (tl argv))"

section \<open>wc.c\<close>

record wcount =
  wc_l :: uint
  wc_w :: uint
  wc_c :: uint
  wc_inword :: bool

definition wc_char :: "byte \<Rightarrow> wcount \<Rightarrow> wcount" where
  "wc_char ch s = (let s = s\<lparr>wc_c := wc_c s + 1\<rparr>; s = (if ch = 0x0A then s\<lparr>wc_l := wc_l s + 1\<rparr> else s) in
     if strchr (cstring [0x20, 0x0D, 0x09, 0x0A, 0x0B]) ch \<noteq> Some None then s\<lparr>wc_inword := False\<rparr>
     else if \<not> wc_inword s then s\<lparr>wc_w := wc_w s + 1, wc_inword := True\<rparr> else s)"

primrec wc_loop :: "nat \<Rightarrow> int \<Rightarrow> byte list \<Rightarrow> wcount \<Rightarrow> unit uprog" where
  "wc_loop 0 fd name s = UFuel"
| "wc_loop (Suc k) fd name s = ubind (u_read fd 512) (\<lambda>(n, buf).
     if n > 0 then wc_loop k fd name (fold wc_char buf s)
     else if n < 0 then uthen (printf 1 (line ''wc: read error'') []) UExit
     else printf 1 (line ''%d %d %d %s'') [AInt (wc_l s), AInt (wc_w s), AInt (wc_c s), AStr name])"

definition wc :: "nat \<Rightarrow> int \<Rightarrow> byte list \<Rightarrow> unit uprog" where
  "wc k fd name = wc_loop k fd name \<lparr>wc_l = 0, wc_w = 0, wc_c = 0, wc_inword = False\<rparr>"

primrec wc_files :: "nat \<Rightarrow> byte list list \<Rightarrow> unit uprog" where
  "wc_files k [] = UExit"
| "wc_files k (a # as) = ubind (u_call (SOpen a 0)) (\<lambda>fd.
     if fd < 0 then uthen (printf 1 (line ''wc: cannot open %s'') [AStr a]) UExit
     else uthen (wc k fd a) (uthen (u_call (SClose fd)) (wc_files k as)))"

definition wc_main :: "nat \<Rightarrow> byte list list \<Rightarrow> unit uprog" where
  "wc_main k argv = (if length argv \<le> 1 then uthen (wc k 0 []) UExit else wc_files k (tl argv))"

section \<open>echo.c, kill.c, ln.c, mkdir.c, rm.c, zombie.c\<close>

primrec echo_loop :: "byte list list \<Rightarrow> unit uprog" where
  "echo_loop [] = UExit"
| "echo_loop (a # as) = uthen (printf 1 ''%s%s'' [AStr a, AStr (if as \<noteq> [] then [0x20] else [0x0A])]) (echo_loop as)"

definition echo_main :: "byte list list \<Rightarrow> unit uprog" where
  "echo_main argv = echo_loop (tl argv)"

primrec kill_loop :: "byte list list \<Rightarrow> unit uprog" where
  "kill_loop [] = UExit"
| "kill_loop (a # as) = (case atoi (cstring a) of None \<Rightarrow> UFuel | Some pid \<Rightarrow> uthen (u_call (SKill pid)) (kill_loop as))"

definition kill_main :: "byte list list \<Rightarrow> unit uprog" where
  "kill_main argv = (if length argv < 2 then uthen (printf 2 (line ''usage: kill pid...'') []) UExit else kill_loop (tl argv))"

definition ln_main :: "byte list list \<Rightarrow> unit uprog" where
  "ln_main argv = (if length argv \<noteq> 3 then uthen (printf 2 (line ''Usage: ln old new'') []) UExit
     else ubind (u_call (SLink (argv ! 1) (argv ! 2))) (\<lambda>r.
       uthen (if r < 0 then printf 2 (line ''link %s %s: failed'') [AStr (argv ! 1), AStr (argv ! 2)] else URet ()) UExit))"

primrec mkdir_loop :: "byte list list \<Rightarrow> unit uprog" where
  "mkdir_loop [] = UExit"
| "mkdir_loop (a # as) = ubind (u_call (SMkdir a)) (\<lambda>r.
     if r < 0 then uthen (printf 2 (line ''mkdir: %s failed to create'') [AStr a]) UExit else mkdir_loop as)"

definition mkdir_main :: "byte list list \<Rightarrow> unit uprog" where
  "mkdir_main argv = (if length argv < 2 then uthen (printf 2 (line ''Usage: mkdir files...'') []) UExit else mkdir_loop (tl argv))"

primrec rm_loop :: "byte list list \<Rightarrow> unit uprog" where
  "rm_loop [] = UExit"
| "rm_loop (a # as) = ubind (u_call (SUnlink a)) (\<lambda>r.
     if r < 0 then uthen (printf 2 (line ''rm: %s failed to delete'') [AStr a]) UExit else rm_loop as)"

definition rm_main :: "byte list list \<Rightarrow> unit uprog" where
  "rm_main argv = (if length argv < 2 then uthen (printf 2 (line ''Usage: rm files...'') []) UExit else rm_loop (tl argv))"

definition zombie_main :: "unit uprog" where
  "zombie_main = ubind (u_call SFork) (\<lambda>pid. if pid > 0 then uthen (u_call (SSleep 5)) UExit else UExit)"

section \<open>init.c\<close>

text \<open>The two loops: waiting for the shell, and starting it again.\<close>

primrec init_wait :: "nat \<Rightarrow> int \<Rightarrow> unit uprog" where
  "init_wait 0 pid = UFuel"
| "init_wait (Suc k) pid = ubind (u_call SWait) (\<lambda>wpid.
     if wpid \<ge> 0 \<and> wpid \<noteq> pid then uthen (printf 1 (line ''zombie!'') []) (init_wait k pid) else URet ())"

primrec init_loop :: "nat \<Rightarrow> unit uprog" where
  "init_loop 0 = UFuel"
| "init_loop (Suc k) = uthen (printf 1 (line ''init: starting sh'') []) (ubind (u_call SFork) (\<lambda>pid.
     if pid < 0 then uthen (printf 1 (line ''init: fork failed'') []) UExit
     else if pid = 0 then uthen (u_call (SExec (ascii ''sh'') [ascii ''sh'']))
       (uthen (printf 1 (line ''init: exec sh failed'') []) UExit)
     else uthen (init_wait k pid) (init_loop k)))"

definition init_main :: "nat \<Rightarrow> unit uprog" where
  "init_main k = ubind (u_call (SOpen (ascii ''console'') O_RDWR)) (\<lambda>fd.
     uthen (if fd < 0 then uthen (u_call (SMknod (ascii ''console'') 1 1)) (u_call (SOpen (ascii ''console'') O_RDWR)) else URet 0)
       (uthen (u_call (SDup 0)) (uthen (u_call (SDup 0)) (init_loop k))))"

section \<open>forktest.c and stressfs.c\<close>

text \<open>forktest has a printf() of its own, which writes the format as it is.\<close>

definition ft_printf :: "int \<Rightarrow> string \<Rightarrow> int uprog" where
  "ft_printf fd s = u_call (SWrite fd (ascii s))"

text \<open>The loop that forks, from the count \<open>n\<close> on; it returns the final count.\<close>

primrec ft_fork :: "nat \<Rightarrow> nat \<Rightarrow> nat uprog" where
  "ft_fork 0 n = URet n"
| "ft_fork (Suc left) n = ubind (u_call SFork) (\<lambda>pid.
     if pid < 0 then URet n else if pid = 0 then UExit else ft_fork left (Suc n))"

primrec ft_wait :: "nat \<Rightarrow> unit uprog" where
  "ft_wait 0 = URet ()"
| "ft_wait (Suc n) = ubind (u_call SWait) (\<lambda>r.
     if r < 0 then uthen (ft_printf 1 (line ''wait stopped early'')) UExit else ft_wait n)"

definition forktest_main :: "unit uprog" where
  "forktest_main = uthen (ft_printf 1 (line ''fork test'')) (ubind (ft_fork 1000 0) (\<lambda>n.
     if n = 1000 then uthen (ft_printf 1 (line ''fork claimed to work N times!'')) UExit
     else uthen (ft_wait n) (ubind (u_call SWait) (\<lambda>r.
       if r \<noteq> -1 then uthen (ft_printf 1 (line ''wait got too many'')) UExit
       else uthen (ft_printf 1 (line ''fork test OK'')) UExit))))"

primrec stress_fork :: "nat \<Rightarrow> nat \<Rightarrow> nat uprog" where
  "stress_fork 0 i = URet i"
| "stress_fork (Suc left) i = ubind (u_call SFork) (\<lambda>pid. if pid > 0 then URet i else stress_fork left (Suc i))"

definition stressfs_main :: "unit uprog" where
  "stressfs_main = uthen (printf 1 (line ''stressfs starting'') []) (ubind (stress_fork 4 0) (\<lambda>i.
     uthen (printf 1 (line ''write %d'') [AInt (of_nat i)])
     (let path = ascii ''stressfs'' @ [0x30 + of_nat i] in
      ubind (u_call (SOpen path (O_CREATE OR O_RDWR))) (\<lambda>fd.
      uthen (useq (replicate 20 (u_call (SWrite fd (replicate 512 0x61)))))
      (uthen (u_call (SClose fd)) (uthen (printf 1 (line ''read'') [])
      (ubind (u_call (SOpen path O_RDONLY)) (\<lambda>fd.
      uthen (useq (replicate 20 (u_read fd 512)))
      (uthen (u_call (SClose fd)) (uthen (u_call SWait) UExit))))))))))"

section \<open>ls.c\<close>

text \<open>
  fmtname(): the name after the last slash, padded with blanks. A path is its characters.
\<close>

definition fmtname :: "byte list \<Rightarrow> byte list" where
  "fmtname path = (let p = rev (takeWhile (\<lambda>c. c \<noteq> 0x2F) (rev path)) in
     if length p \<ge> DIRSIZ then p else p @ replicate (DIRSIZ - length p) 0x20)"

definition ls_entry :: "byte list \<Rightarrow> stat \<Rightarrow> unit uprog" where
  "ls_entry path st = printf 1 (line ''%s %d %d %d'')
     [AStr (fmtname path), AInt (scast (st_type st)), AInt (st_ino st), AInt (st_size st)]"

text \<open>The loop over the directory entries: 16 bytes each, the inode number and the name.\<close>

primrec ls_dir :: "nat \<Rightarrow> int \<Rightarrow> byte list \<Rightarrow> stat \<Rightarrow> unit uprog" where
  "ls_dir 0 fd path st = UFuel"
| "ls_dir (Suc k) fd path st = ubind (u_read fd 16) (\<lambda>(n, de).
     if n \<noteq> 16 then URet ()
     else if take 2 de = [0, 0] then ls_dir k fd path st
     else let buf = path @ [0x2F] @ takeWhile (\<lambda>c. c \<noteq> 0) (drop 2 de) in
       ubind (ustat buf st) (\<lambda>(r, st').
         if r < 0 then uthen (printf 1 (line ''ls: cannot stat %s'') [AStr buf]) (ls_dir k fd path st')
         else uthen (ls_entry buf st') (ls_dir k fd path st')))"

definition ls :: "nat \<Rightarrow> byte list \<Rightarrow> unit uprog" where
  "ls k path = ubind (u_call (SOpen path 0)) (\<lambda>fd.
     if fd < 0 then printf 2 (line ''ls: cannot open %s'') [AStr path]
     else ubind (u_fstat fd) (\<lambda>(r, st).
       if r < 0 then uthen (printf 2 (line ''ls: cannot stat %s'') [AStr path]) (uthen (u_call (SClose fd)) (URet ()))
       else uthen (if st_type st = T_FILE then ls_entry path st
         else if st_type st = T_DIR then
           if length path + 1 + DIRSIZ + 1 > 512 then printf 1 (line ''ls: path too long'') [] else ls_dir k fd path st
         else URet ())
       (uthen (u_call (SClose fd)) (URet ()))))"

definition ls_main :: "nat \<Rightarrow> byte list list \<Rightarrow> unit uprog" where
  "ls_main k argv = (if length argv < 2 then uthen (ls k (ascii ''.'')) UExit else uthen (useq (map (ls k) (tl argv))) UExit)"

end
