(* ===== verification/UserSpec.thy ===== *)
theory UserSpec
  imports UserProgs
begin

text \<open>
  What the filters do with their input, whatever pieces it arrives in: cat copies it and wc
  counts its lines, words and characters.
\<close>

section \<open>Decimal numbers\<close>

fun dec :: "nat \<Rightarrow> byte list" where
  "dec n = (if n < 10 then [0x30 + of_nat n] else dec (n div 10) @ [0x30 + of_nat (n mod 10)])"

declare dec.simps [simp del]

lemma udigits_nth: "d < 10 \<Longrightarrow> udigits ! d = 0x30 + of_nat d"
proof -
  assume "d < 10"
  then have "d \<in> {0, 1, 2, 3, 4, 5, 6, 7, 8, 9}" by auto
  then show ?thesis by (auto simp: udigits_def ascii_def of_char_def)
qed

lemma udigits_rev_dec: "n < 2 ^ 32 \<Longrightarrow> rev (udigits_rev 10 (of_nat n)) = dec n"
proof (induction n rule: dec.induct)
  case (1 n)
  have d: "(of_nat n :: uint) div 10 = of_nat (n div 10)" "(of_nat n :: uint) mod 10 = of_nat (n mod 10)"
    using 1(2) by (simp_all add: word_unat_eq_iff unat_div_distrib unat_mod_distrib unat_of_nat)
  have m: "udigits ! unat (of_nat (n mod 10) :: uint) = 0x30 + of_nat (n mod 10)" by (simp add: unat_of_nat udigits_nth)
  have z: "(of_nat (n div 10) :: uint) = 0 \<longleftrightarrow> n < 10" using 1(2) by (simp add: word_unat_eq_iff unat_of_nat div_eq_0_iff)
  have t: "\<not> (10 :: uint) \<le> 1" by (simp add: word_le_nat_alt)
  show ?case using 1 d m z t by (subst udigits_rev.simps, subst dec.simps) auto
qed

lemma printint_buf_dec:
  assumes "n < 2 ^ 31"
  shows "rev (printint_buf (sint (of_nat n :: uint)) 10 True) = dec n"
proof -
  have "sint (of_nat n :: uint) = int n" using assms by (simp add: sint_uint uint_nat unat_of_nat signed_take_bit_int_eq_self)
  then show ?thesis using udigits_rev_dec [of n] assms by (simp add: printint_buf_def)
qed

section \<open>Reading in pieces\<close>

definition pieces :: "byte list list \<Rightarrow> bool" where
  "pieces ds \<longleftrightarrow> (\<forall>d\<in>set ds. d \<noteq> [] \<and> length d \<le> 512)"

definition w_eof :: "int \<Rightarrow> uworld \<Rightarrow> uworld" where
  "w_eof fd w = w\<lparr>w_in := (w_in w)(fd := [])\<rparr>"

lemma w_eof_id: "w_in w fd = [] \<Longrightarrow> w_eof fd w = w"
  by (cases w) (simp add: w_eof_def fun_upd_idem)

lemma urun_read_piece:
  "w_in w fd = d # ds \<Longrightarrow> length d \<le> 512 \<Longrightarrow>
   urun io_step (u_read fd 512) w = (Returned (int (length d), d), w\<lparr>w_in := (w_in w)(fd := ds)\<rparr>)"
  by (simp add: u_read_def)

lemma urun_read_eof: "w_in w fd = [] \<Longrightarrow> urun io_step (u_read fd 512) w = (Returned (0, []), w)"
  by (simp add: u_read_def int_res_def)

text \<open>A loop that folds over what it reads.\<close>

lemma cat_run:
  assumes "w_in w fd = ds" "pieces ds" "length ds < k"
  shows "urun io_step (cat k fd) w = (Returned (), w_put 1 (concat ds) (w_eof fd w))"
  using assms
proof (induction ds arbitrary: k w)
  case Nil
  then show ?case by (cases k) (auto simp: urun_bind urun_read_eof w_eof_id)
next
  case (Cons d ds)
  then obtain k' where k: "k = Suc k'" by (cases k) auto
  let ?w = "w_put 1 d (w\<lparr>w_in := (w_in w)(fd := ds)\<rparr>)"
  have "urun io_step (cat k fd) w = urun io_step (cat k' fd) ?w"
    using Cons.prems k by (simp add: urun_bind urun_read_piece pieces_def urun_write)
  also have "\<dots> = (Returned (), w_put 1 (concat ds) (w_eof fd ?w))"
    by (rule Cons.IH) (use Cons.prems k in \<open>simp_all add: pieces_def\<close>)
  finally show ?case by (simp add: w_put_def w_eof_def)
qed

section \<open>Counting\<close>

definition blank :: "byte \<Rightarrow> bool" where
  "blank ch \<longleftrightarrow> ch \<in> {0x20, 0x0D, 0x09, 0x0A, 0x0B}"

text \<open>A word starts at a character that is no blank and is the first or follows one.\<close>

definition nwords :: "byte list \<Rightarrow> nat" where
  "nwords xs = card {i. i < length xs \<and> \<not> blank (xs ! i) \<and> (i = 0 \<or> blank (xs ! (i - 1)))}"

definition nlines :: "byte list \<Rightarrow> nat" where
  "nlines xs = length (filter (\<lambda>c. c = 0x0A) xs)"

lemma nwords_snoc: "nwords (xs @ [x]) = nwords xs + (if \<not> blank x \<and> (xs = [] \<or> blank (last xs)) then 1 else 0)"
proof -
  let ?S = "\<lambda>xs. {i. i < length xs \<and> \<not> blank (xs ! i) \<and> (i = 0 \<or> blank (xs ! (i - 1)))}"
  have s: "?S (xs @ [x]) = ?S xs \<union> (if \<not> blank x \<and> (xs = [] \<or> blank (last xs)) then {length xs} else {})"
    by (cases "xs = []") (auto simp: nth_append last_conv_nth less_Suc_eq split: if_splits)
  show ?thesis unfolding nwords_def s by (auto simp: card_insert_if)
qed

lemma strchr_from_absent:
  "0 \<notin> set xs \<Longrightarrow> i \<le> length xs \<Longrightarrow> strchr_from (cstring xs) c i = Some None \<longleftrightarrow> c \<notin> set (drop i xs)"
proof (induction "length xs - i" arbitrary: i)
  case 0
  then show ?case by (subst strchr_from.simps) (simp add: cstring_def)
next
  case (Suc n)
  then have i: "i < length xs" "drop i xs = xs ! i # drop (Suc i) xs" by (simp_all add: Cons_nth_drop_Suc)
  then have "xs ! i \<noteq> 0" using Suc.prems by (metis nth_mem)
  moreover have "strchr_from (cstring xs) c (Suc i) = Some None \<longleftrightarrow> c \<notin> set (drop (Suc i) xs)" using Suc i by simp
  ultimately show ?case using i by (subst strchr_from.simps) (auto simp: cstring_def)
qed

lemma strchr_blank: "strchr (cstring [0x20, 0x0D, 0x09, 0x0A, 0x0B]) ch \<noteq> Some None \<longleftrightarrow> blank ch"
  using strchr_from_absent [of "[0x20, 0x0D, 0x09, 0x0A, 0x0B]" 0 ch] by (simp add: strchr_def blank_def)

definition counted :: "byte list \<Rightarrow> wcount" where
  "counted xs = \<lparr>wc_l = of_nat (nlines xs), wc_w = of_nat (nwords xs), wc_c = of_nat (length xs),
     wc_inword = (xs \<noteq> [] \<and> \<not> blank (last xs))\<rparr>"

lemma wc_char_counted: "wc_char ch (counted xs) = counted (xs @ [ch])"
proof -
  have "blank 0x0A" by (simp add: blank_def)
  then show ?thesis by (auto simp: wc_char_def strchr_blank [simplified] counted_def Let_def nwords_snoc nlines_def)
qed

lemma wc_fold_counted: "fold wc_char ys (counted xs) = counted (xs @ ys)"
  by (induction ys arbitrary: xs) (simp_all add: wc_char_counted)

definition wc_line :: "byte list \<Rightarrow> byte list \<Rightarrow> byte list" where
  "wc_line xs name = dec (nlines xs) @ [0x20] @ dec (nwords xs) @ [0x20] @ dec (length xs) @ [0x20] @ name @ [0x0A]"

lemma nwords_le: "nwords xs \<le> length xs"
  unfolding nwords_def using card_mono [of "{..<length xs}" "{i. i < length xs \<and> \<not> blank (xs ! i) \<and> (i = 0 \<or> blank (xs ! (i - 1)))}"] by auto

lemma wc_line_printed:
  assumes "length xs < 2 ^ 31"
  shows "urun io_step (printf 1 (line ''%d %d %d %s'')
    [AInt (wc_l (counted xs)), AInt (wc_w (counted xs)), AInt (wc_c (counted xs)), AStr name]) w = (Returned (), w_put 1 (wc_line xs name) w)"
proof (rule urun_printf)
  have "nlines xs < 2 ^ 31" "nwords xs < 2 ^ 31" using assms nwords_le [of xs] length_filter_le [of "\<lambda>c. c = 0x0A" xs]
    unfolding nlines_def by linarith+
  then show "format (ascii (line ''%d %d %d %s''))
      [AInt (wc_l (counted xs)), AInt (wc_w (counted xs)), AInt (wc_c (counted xs)), AStr name] = Some (wc_line xs name)"
    using assms by (simp add: line_def ascii_def of_char_def counted_def wc_line_def printint_buf_dec)
qed

lemma wc_run:
  assumes "w_in w fd = ds" "pieces ds" "length ds < k" "length (xs @ concat ds) < 2 ^ 31"
  shows "urun io_step (wc_loop k fd name (counted xs)) w = (Returned (), w_put 1 (wc_line (xs @ concat ds) name) (w_eof fd w))"
  using assms
proof (induction ds arbitrary: k w xs)
  case Nil
  then show ?case by (cases k) (auto simp: urun_bind urun_read_eof w_eof_id wc_line_printed)
next
  case (Cons d ds)
  then obtain k' where k: "k = Suc k'" by (cases k) auto
  let ?w = "w\<lparr>w_in := (w_in w)(fd := ds)\<rparr>"
  have "urun io_step (wc_loop k fd name (counted xs)) w = urun io_step (wc_loop k' fd name (counted (xs @ d))) ?w"
    using Cons.prems k by (simp add: urun_bind urun_read_piece pieces_def wc_fold_counted)
  also have "\<dots> = (Returned (), w_put 1 (wc_line ((xs @ d) @ concat ds) name) (w_eof fd ?w))"
    by (rule Cons.IH) (use Cons.prems k in \<open>simp_all add: pieces_def\<close>)
  finally show ?case by (simp add: w_eof_def)
qed

text \<open>
  C40: wc counts correctly however its input is cut. Whatever pieces of at most 512 bytes the reads deliver,
  wc() returns, having read the input to its end and printed the number of its newlines, the number of its words (maximal runs
  without blanks, also those cut by the end of a piece) and its length, in decimal, and the name.
\<close>

theorem wc_counts:
  assumes "w_in w fd = ds" "pieces ds" "length ds < k" "length (concat ds) < 2 ^ 31"
  shows "urun io_step (wc k fd name) w = (Returned (), w_put 1 (wc_line (concat ds) name) (w_eof fd w))"
proof -
  have "counted [] = \<lparr>wc_l = 0, wc_w = 0, wc_c = 0, wc_inword = False\<rparr>" by (simp add: counted_def nlines_def nwords_def)
  then show ?thesis unfolding wc_def using wc_run [of w fd ds k "[]" name] assms by simp
qed

text \<open>The input \<open>a bc\<close> and a newline, cut inside its second word.\<close>

theorem wc_counts_witness:
  "urun io_step (wc 3 0 []) \<lparr>w_in = (\<lambda>fd. [[0x61, 0x20, 0x62], [0x63, 0x0A]]), w_out = (\<lambda>fd. []), w_open = (\<lambda>p. 3)\<rparr> =
    (Returned (), w_put 1 (wc_line [0x61, 0x20, 0x62, 0x63, 0x0A] [])
      (w_eof 0 \<lparr>w_in = (\<lambda>fd. [[0x61, 0x20, 0x62], [0x63, 0x0A]]), w_out = (\<lambda>fd. []), w_open = (\<lambda>p. 3)\<rparr>))"
  using wc_counts [of "\<lparr>w_in = (\<lambda>fd. [[0x61, 0x20, 0x62], [0x63, 0x0A]]), w_out = (\<lambda>fd. []), w_open = (\<lambda>p. 3)\<rparr>" 0
      "[[0x61, 0x20, 0x62], [0x63, 0x0A]]" 3 "[]"]
  by (simp add: pieces_def)

end
