(* ===== verification/Hardware.thy ===== *)
theory Hardware
  imports Trap
begin

text \<open>
  Programming the hardware: the port instructions of x86.h and the drivers that only use them and
  memory-mapped registers (ioapic.c, picirq.c, lapic.c and uart.c). The
  hardware itself is a parameter: its state, and what each access returns and does to it.
\<close>

section \<open>Accesses\<close>

record 'h hwops =
  hw_inb :: "ushort \<Rightarrow> 'h \<Rightarrow> byte \<times> 'h"
  hw_outb :: "ushort \<Rightarrow> byte \<Rightarrow> 'h \<Rightarrow> 'h"
  hw_insl :: "ushort \<Rightarrow> nat \<Rightarrow> 'h \<Rightarrow> byte list \<times> 'h"
  hw_outsl :: "ushort \<Rightarrow> byte list \<Rightarrow> 'h \<Rightarrow> 'h"
  hw_load :: "addr \<Rightarrow> 'h \<Rightarrow> uint \<times> 'h"
  hw_store :: "addr \<Rightarrow> uint \<Rightarrow> 'h \<Rightarrow> 'h"
  hw_store16 :: "addr \<Rightarrow> ushort \<Rightarrow> 'h \<Rightarrow> 'h"

definition access :: "('h \<Rightarrow> 'a \<times> 'h) \<Rightarrow> ('h, 'a) prog" where
  "access f = (\<lambda>h. case f h of (a, h') \<Rightarrow> Done a h')"

definition inb :: "'h hwops \<Rightarrow> ushort \<Rightarrow> ('h, byte) prog" where
  "inb d port = access (hw_inb d port)"

definition outb :: "'h hwops \<Rightarrow> ushort \<Rightarrow> byte \<Rightarrow> ('h, unit) prog" where
  "outb d port v = kmodify (hw_outb d port v)"

definition insl :: "'h hwops \<Rightarrow> ushort \<Rightarrow> nat \<Rightarrow> ('h, byte list) prog" where
  "insl d port cnt = access (hw_insl d port cnt)"

definition outsl :: "'h hwops \<Rightarrow> ushort \<Rightarrow> byte list \<Rightarrow> ('h, unit) prog" where
  "outsl d port bs = kmodify (hw_outsl d port bs)"

text \<open>
  A loop that reads until the value is acceptable; \<open>None\<close> is a loop that never ends, which the
  drivers have as the outcome of a fault.
\<close>

partial_function (option) poll :: "('h \<Rightarrow> 'a \<times> 'h) \<Rightarrow> ('a \<Rightarrow> bool) \<Rightarrow> 'h \<Rightarrow> ('a \<times> 'h) option" where
  "poll rd ok h = (case rd h of (a, h') \<Rightarrow> if ok a then Some (a, h') else poll rd ok h')"

definition spin :: "('h \<Rightarrow> 'a \<times> 'h) \<Rightarrow> ('a \<Rightarrow> bool) \<Rightarrow> ('h, 'a) prog" where
  "spin rd ok = (\<lambda>h. case poll rd ok h of None \<Rightarrow> Fault ''never ready'' | Some (a, h') \<Rightarrow> Done a h')"

section \<open>ioapic.c\<close>

definition IOAPIC :: addr where "IOAPIC = 0xFEC00000"
definition REG_ID :: uint where "REG_ID = 0x00"
definition REG_VER :: uint where "REG_VER = 0x01"
definition REG_TABLE :: uint where "REG_TABLE = 0x10"
definition INT_DISABLED :: uint where "INT_DISABLED = 0x00010000"

text \<open>The two registers of struct ioapic, at the offsets 0 and 16.\<close>

definition ioapicread :: "'h hwops \<Rightarrow> uint \<Rightarrow> ('h, uint) prog" where
  "ioapicread d reg = kthen (kmodify (hw_store d IOAPIC reg)) (access (hw_load d (IOAPIC + 16)))"

definition ioapicwrite :: "'h hwops \<Rightarrow> uint \<Rightarrow> uint \<Rightarrow> ('h, unit) prog" where
  "ioapicwrite d reg v = kthen (kmodify (hw_store d IOAPIC reg)) (kmodify (hw_store d (IOAPIC + 16) v))"

text \<open>ioapicinit(): the result is whether the warning about the id is printed.\<close>

definition ioapicinit :: "'h hwops \<Rightarrow> byte \<Rightarrow> ('h, bool) prog" where
  "ioapicinit d ioapicid = kbind (ioapicread d REG_VER) (\<lambda>v. let maxintr = drop_bit 16 v AND 0xFF in
     kbind (ioapicread d REG_ID) (\<lambda>v. let i = drop_bit 24 v in
     kthen (kfor [0..<Suc (unat maxintr)] (\<lambda>i.
       kthen (ioapicwrite d (REG_TABLE + 2 * of_nat i) (INT_DISABLED OR (T_IRQ0 + of_nat i)))
         (ioapicwrite d (REG_TABLE + 2 * of_nat i + 1) 0)))
     (kreturn (i \<noteq> ucast ioapicid))))"

definition ioapicenable :: "'h hwops \<Rightarrow> uint \<Rightarrow> uint \<Rightarrow> ('h, unit) prog" where
  "ioapicenable d irq cpunum = kthen (ioapicwrite d (REG_TABLE + 2 * irq) (T_IRQ0 + irq))
     (ioapicwrite d (REG_TABLE + 2 * irq + 1) (push_bit 24 cpunum))"

section \<open>picirq.c\<close>

definition picinit :: "'h hwops \<Rightarrow> ('h, unit) prog" where
  "picinit d = kthen (outb d 0x21 0xFF) (outb d 0xA1 0xFF)"

section \<open>lapic.c\<close>

text \<open>The registers as indices; \<open>lapic\<close> is the address mpinit() found, 0 when there is none.\<close>

definition L_ID :: uint where "L_ID = 0x0020 div 4"
definition L_VER :: uint where "L_VER = 0x0030 div 4"
definition L_TPR :: uint where "L_TPR = 0x0080 div 4"
definition L_EOI :: uint where "L_EOI = 0x00B0 div 4"
definition L_SVR :: uint where "L_SVR = 0x00F0 div 4"
definition L_ENABLE :: uint where "L_ENABLE = 0x100"
definition L_ESR :: uint where "L_ESR = 0x0280 div 4"
definition L_ICRLO :: uint where "L_ICRLO = 0x0300 div 4"
definition L_INIT :: uint where "L_INIT = 0x500"
definition L_STARTUP :: uint where "L_STARTUP = 0x600"
definition L_DELIVS :: uint where "L_DELIVS = 0x1000"
definition L_ASSERT :: uint where "L_ASSERT = 0x4000"
definition L_LEVEL :: uint where "L_LEVEL = 0x8000"
definition L_BCAST :: uint where "L_BCAST = 0x80000"
definition L_ICRHI :: uint where "L_ICRHI = 0x0310 div 4"
definition L_TIMER :: uint where "L_TIMER = 0x0320 div 4"
definition L_X1 :: uint where "L_X1 = 0xB"
definition L_PERIODIC :: uint where "L_PERIODIC = 0x20000"
definition L_PCINT :: uint where "L_PCINT = 0x0340 div 4"
definition L_LINT0 :: uint where "L_LINT0 = 0x0350 div 4"
definition L_LINT1 :: uint where "L_LINT1 = 0x0360 div 4"
definition L_ERROR :: uint where "L_ERROR = 0x0370 div 4"
definition L_MASKED :: uint where "L_MASKED = 0x10000"
definition L_TICR :: uint where "L_TICR = 0x0380 div 4"
definition L_TDCR :: uint where "L_TDCR = 0x03E0 div 4"
definition IRQ_ERROR :: uint where "IRQ_ERROR = 19"

definition lapicr :: "'h hwops \<Rightarrow> addr \<Rightarrow> uint \<Rightarrow> ('h, uint) prog" where
  "lapicr d lapic i = access (hw_load d (lapic + 4 * i))"

definition lapicw :: "'h hwops \<Rightarrow> addr \<Rightarrow> uint \<Rightarrow> uint \<Rightarrow> ('h, unit) prog" where
  "lapicw d lapic i v = kthen (kmodify (hw_store d (lapic + 4 * i) v)) (kthen (lapicr d lapic L_ID) (kreturn ()))"

definition lapicinit :: "'h hwops \<Rightarrow> addr \<Rightarrow> ('h, unit) prog" where
  "lapicinit d lapic = (if lapic = 0 then kreturn () else
     kthen (kfor [(L_SVR, L_ENABLE OR (T_IRQ0 + IRQ_SPURIOUS)), (L_TDCR, L_X1), (L_TIMER, L_PERIODIC OR (T_IRQ0 + IRQ_TIMER)),
       (L_TICR, 10000000), (L_LINT0, L_MASKED), (L_LINT1, L_MASKED)] (\<lambda>(i, v). lapicw d lapic i v))
     (kbind (lapicr d lapic L_VER) (\<lambda>ver.
     kthen (kwhen (drop_bit 16 ver AND 0xFF \<ge> 4) (lapicw d lapic L_PCINT L_MASKED))
     (kthen (kfor [(L_ERROR, T_IRQ0 + IRQ_ERROR), (L_ESR, 0), (L_ESR, 0), (L_EOI, 0), (L_ICRHI, 0),
       (L_ICRLO, L_BCAST OR L_INIT OR L_LEVEL)] (\<lambda>(i, v). lapicw d lapic i v))
     (kthen (spin (hw_load d (lapic + 4 * L_ICRLO)) (\<lambda>v. v AND L_DELIVS = 0))
     (lapicw d lapic L_TPR 0))))))"

definition lapicid :: "'h hwops \<Rightarrow> addr \<Rightarrow> ('h, uint) prog" where
  "lapicid d lapic = (if lapic = 0 then kreturn 0 else kbind (lapicr d lapic L_ID) (\<lambda>v. kreturn (drop_bit 24 v)))"

definition lapiceoi :: "'h hwops \<Rightarrow> addr \<Rightarrow> ('h, unit) prog" where
  "lapiceoi d lapic = kwhen (lapic \<noteq> 0) (lapicw d lapic L_EOI 0)"

definition lapicstartap :: "'h hwops \<Rightarrow> addr \<Rightarrow> byte \<Rightarrow> uint \<Rightarrow> ('h, unit) prog" where
  "lapicstartap d lapic apicid a = kthen (outb d 0x70 0xF) (kthen (outb d 0x71 0x0A)
     (kthen (kmodify (hw_store16 d (P2V 0x467) 0)) (kthen (kmodify (hw_store16 d (P2V 0x469) (ucast (drop_bit 4 a))))
     (kfor [(L_ICRHI, push_bit 24 (ucast apicid)), (L_ICRLO, L_INIT OR L_LEVEL OR L_ASSERT), (L_ICRLO, L_INIT OR L_LEVEL),
       (L_ICRHI, push_bit 24 (ucast apicid)), (L_ICRLO, L_STARTUP OR drop_bit 12 a),
       (L_ICRHI, push_bit 24 (ucast apicid)), (L_ICRLO, L_STARTUP OR drop_bit 12 a)] (\<lambda>(i, v). lapicw d lapic i v)))))"

subsection \<open>The clock\<close>

record rtcdate =
  r_second :: uint
  r_minute :: uint
  r_hour :: uint
  r_day :: uint
  r_month :: uint
  r_year :: uint

definition cmos_read :: "'h hwops \<Rightarrow> byte \<Rightarrow> 'h \<Rightarrow> uint \<times> 'h" where
  "cmos_read d reg h = (let (v, h') = hw_inb d 0x71 (hw_outb d 0x70 reg h) in (ucast v, h'))"

definition fill_rtcdate :: "'h hwops \<Rightarrow> 'h \<Rightarrow> rtcdate \<times> 'h" where
  "fill_rtcdate d h = (let (se, h) = cmos_read d 0x00 h; (mi, h) = cmos_read d 0x02 h; (ho, h) = cmos_read d 0x04 h;
     (da, h) = cmos_read d 0x07 h; (mo, h) = cmos_read d 0x08 h; (ye, h) = cmos_read d 0x09 h in
     (\<lparr>r_second = se, r_minute = mi, r_hour = ho, r_day = da, r_month = mo, r_year = ye\<rparr>, h))"

text \<open>The loop of cmostime(), until two readings agree.\<close>

partial_function (option) cmos_loop :: "'h hwops \<Rightarrow> 'h \<Rightarrow> (rtcdate \<times> 'h) option" where
  "cmos_loop d h = (case fill_rtcdate d h of (t1, h1) \<Rightarrow> case cmos_read d 0x0A h1 of (a, h2) \<Rightarrow>
     if a AND 0x80 \<noteq> 0 then cmos_loop d h2
     else case fill_rtcdate d h2 of (t2, h3) \<Rightarrow> if t1 = t2 then Some (t1, h3) else cmos_loop d h3)"

definition CONV :: "uint \<Rightarrow> uint" where
  "CONV x = drop_bit 4 x * 10 + (x AND 0xF)"

definition cmostime :: "'h hwops \<Rightarrow> 'h \<Rightarrow> (rtcdate \<times> 'h) option" where
  "cmostime d h = (let (sb, h) = cmos_read d 0x0B h; bcd = (sb AND 4 = 0) in
     map_option (\<lambda>(t, h). let c = (if bcd then CONV else id) in
       (\<lparr>r_second = c (r_second t), r_minute = c (r_minute t), r_hour = c (r_hour t), r_day = c (r_day t),
         r_month = c (r_month t), r_year = c (r_year t) + 2000\<rparr>, h)) (cmos_loop d h))"

section \<open>uart.c\<close>

text \<open>The variable uart is passed and returned.\<close>

fun uart_wait :: "'h hwops \<Rightarrow> nat \<Rightarrow> 'h \<Rightarrow> 'h" where
  "uart_wait d 0 h = h"
| "uart_wait d (Suc n) h = (let (v, h') = hw_inb d 0x3FD h in if v AND 0x20 \<noteq> 0 then h' else uart_wait d n h')"

definition uart_put :: "'h hwops \<Rightarrow> bool \<Rightarrow> byte \<Rightarrow> ('h, unit) prog" where
  "uart_put d uart c = kwhen uart (kthen (kmodify (uart_wait d 128)) (outb d 0x3F8 c))"

definition uartinit :: "'h hwops \<Rightarrow> ('h, bool) prog" where
  "uartinit d = kthen (kfor [(0x3FA, 0), (0x3FB, 0x80), (0x3F8, 12), (0x3F9, 0), (0x3FB, 3), (0x3FC, 0), (0x3F9, 1)] (\<lambda>(p, v). outb d p v))
     (kbind (inb d 0x3FD) (\<lambda>st. if st = 0xFF then kreturn False else
       kthen (inb d 0x3FA) (kthen (inb d 0x3F8) (kthen (ioapicenable d IRQ_COM1 0)
       (kthen (kfor (ascii ''xv6...'' @ [0x0A]) (uart_put d True)) (kreturn True))))))"

definition uartgetc :: "'h hwops \<Rightarrow> bool \<Rightarrow> ('h, int) prog" where
  "uartgetc d uart = (if \<not> uart then kreturn (-1) else kbind (inb d 0x3FD) (\<lambda>st.
     if st AND 1 = 0 then kreturn (-1) else kbind (inb d 0x3F8) (\<lambda>c. kreturn (uint c))))"

end
