(* ===== verification/Ide.thy ===== *)
theory Ide
  imports Hardware
begin

text \<open>
  ide.c: the disk driver. The queue of requests is threaded through the buffers by qnext, as in the
  source; its first element is the request the controller works on.
\<close>

definition FSSIZE :: uint where "FSSIZE = 1000"
definition SECTOR_SIZE :: nat where "SECTOR_SIZE = 512"
definition IDE_BSY :: byte where "IDE_BSY = 0x80"
definition IDE_DRDY :: byte where "IDE_DRDY = 0x40"
definition IDE_DF :: byte where "IDE_DF = 0x20"
definition IDE_ERR :: byte where "IDE_ERR = 0x01"
definition IDE_CMD_READ :: byte where "IDE_CMD_READ = 0x20"
definition IDE_CMD_WRITE :: byte where "IDE_CMD_WRITE = 0x30"
definition IDE_CMD_RDMUL :: byte where "IDE_CMD_RDMUL = 0xC4"
definition IDE_CMD_WRMUL :: byte where "IDE_CMD_WRMUL = 0xC5"

record 'h kide = kbio +
  idequeue :: "nat option"
  qnext :: "nat \<Rightarrow> nat option"
  havedisk1 :: bool
  hw :: 'h

definition on_hw :: "('h, 'a) prog \<Rightarrow> (('h, 'z) kide_scheme, 'a) prog" where
  "on_hw m = (\<lambda>s. case m (hw s) of
     Done a h \<Rightarrow> Done a (s\<lparr>hw := h\<rparr>) | Panic e \<Rightarrow> Panic e | Fault e \<Rightarrow> Fault e
   | Block c h \<Rightarrow> Block c (s\<lparr>hw := h\<rparr>) | Gone h \<Rightarrow> Gone (s\<lparr>hw := h\<rparr>))"

definition idewait :: "'h hwops \<Rightarrow> bool \<Rightarrow> ('h, int) prog" where
  "idewait d checkerr = kbind (spin (hw_inb d 0x1F7) (\<lambda>r. r AND (IDE_BSY OR IDE_DRDY) = IDE_DRDY)) (\<lambda>r.
     kreturn (if checkerr \<and> r AND (IDE_DF OR IDE_ERR) \<noteq> 0 then -1 else 0))"

text \<open>The loop of ideinit() that looks for disk 1.\<close>

fun probe :: "'h hwops \<Rightarrow> nat \<Rightarrow> 'h \<Rightarrow> bool \<times> 'h" where
  "probe d 0 h = (False, h)"
| "probe d (Suc n) h = (let (v, h') = hw_inb d 0x1F7 h in if v \<noteq> 0 then (True, h') else probe d n h')"

definition ideinit :: "'h hwops \<Rightarrow> uint \<Rightarrow> (('h, 'z) kide_scheme, unit) prog" where
  "ideinit d ncpus = kthen (on_hw (ioapicenable d IRQ_IDE (ncpus - 1))) (kthen (on_hw (idewait d False))
     (kthen (on_hw (outb d 0x1F6 (0xE0 OR push_bit 4 1)))
     (kbind (on_hw (access (probe d 1000))) (\<lambda>found.
     kthen (kmodify (\<lambda>s. if found then s\<lparr>havedisk1 := True\<rparr> else s))
       (on_hw (outb d 0x1F6 (0xE0 OR push_bit 4 0)))))))"

definition idestart :: "'h hwops \<Rightarrow> nat option \<Rightarrow> (('h, 'z) kide_scheme, unit) prog" where
  "idestart d r = (case r of None \<Rightarrow> panic ''idestart''
   | Some i \<Rightarrow> kbind (kget (\<lambda>s. bufs s i)) (\<lambda>b.
     if b_blockno b \<ge> FSSIZE then panic ''incorrect blockno''
     else let spb = BSIZE div SECTOR_SIZE; sector = b_blockno b * of_nat spb;
        read_cmd = (if spb = 1 then IDE_CMD_READ else IDE_CMD_RDMUL);
        write_cmd = (if spb = 1 then IDE_CMD_WRITE else IDE_CMD_WRMUL) in
     if spb > 7 then panic ''idestart''
     else on_hw (kthen (idewait d False)
       (kthen (kfor [(0x3F6, 0), (0x1F2, of_nat spb), (0x1F3, ucast (sector AND 0xFF)), (0x1F4, ucast (drop_bit 8 sector AND 0xFF)),
          (0x1F5, ucast (drop_bit 16 sector AND 0xFF)),
          (0x1F6, ucast (0xE0 OR push_bit 4 (b_dev b AND 1) OR (drop_bit 24 sector AND 0x0F)))] (\<lambda>(p, v). outb d p v))
       (if b_flags b AND B_DIRTY \<noteq> 0
        then kthen (outb d 0x1F7 write_cmd) (outsl d 0x1F0 (b_data b))
        else outb d 0x1F7 read_cmd)))))"

definition ideintr :: "'h hwops \<Rightarrow> (('h, 'z) kide_scheme, unit) prog" where
  "ideintr d = kbind (kget idequeue) (\<lambda>q. case q of None \<Rightarrow> kreturn ()
   | Some i \<Rightarrow> kthen (kmodify (\<lambda>s. s\<lparr>idequeue := qnext s i\<rparr>))
     (kbind (kget (\<lambda>s. b_flags (bufs s i))) (\<lambda>fl.
     kthen (if fl AND B_DIRTY = 0
            then kbind (on_hw (idewait d True)) (\<lambda>e. kwhen (e \<ge> 0)
              (kbind (on_hw (insl d 0x1F0 (BSIZE div 4))) (\<lambda>bs. set_data i (\<lambda>_. bs))))
            else kreturn ())
     (kthen (kmodify (upd_buf i (\<lambda>b. b\<lparr>b_flags := (b_flags b OR B_VALID) AND NOT B_DIRTY\<rparr>)))
     (kthen (wakeup (ChanIde i))
     (kbind (kget idequeue) (\<lambda>q. kwhen (q \<noteq> None) (idestart d q))))))))"

text \<open>
  iderw(): the walk to the end of the queue, the start of the request, and the wait, which a
  process resumes when it is woken.
\<close>

fun queue_end :: "nat \<Rightarrow> (nat \<Rightarrow> nat option) \<Rightarrow> nat \<Rightarrow> nat option" where
  "queue_end 0 nx i = None"
| "queue_end (Suc k) nx i = (case nx i of None \<Rightarrow> Some i | Some j \<Rightarrow> queue_end k nx j)"

definition ide_append :: "nat \<Rightarrow> (('h, 'z) kide_scheme, unit) prog" where
  "ide_append i = kthen (kmodify (\<lambda>s. s\<lparr>qnext := (qnext s)(i := None)\<rparr>))
     (kbind (kget idequeue) (\<lambda>q. case q of
        None \<Rightarrow> kmodify (\<lambda>s. s\<lparr>idequeue := Some i\<rparr>)
      | Some j \<Rightarrow> kbind (kget (\<lambda>s. queue_end (Suc NBUF) (qnext s) j)) (\<lambda>e. case e of
          None \<Rightarrow> kfault ''idequeue'' | Some e \<Rightarrow> kmodify (\<lambda>s. s\<lparr>qnext := (qnext s)(e := Some i)\<rparr>))))"

definition ide_wait :: "nat \<Rightarrow> (('h, 'z) kide_scheme, unit) prog" where
  "ide_wait i = kbind (kget (\<lambda>s. b_flags (bufs s i))) (\<lambda>fl.
     if fl AND (B_VALID OR B_DIRTY) \<noteq> B_VALID then sleep (ChanIde i) else kreturn ())"

definition ide_rw :: "'h hwops \<Rightarrow> nat \<Rightarrow> (('h, 'z) kide_scheme, unit) prog" where
  "ide_rw d i = kbind (holdingsleep (buf_lock i)) (\<lambda>h.
     if \<not> h then panic ''iderw: buf not locked'' else
     kbind (kget (\<lambda>s. bufs s i)) (\<lambda>b.
     if b_flags b AND (B_VALID OR B_DIRTY) = B_VALID then panic ''iderw: nothing to do'' else
     kbind (kget havedisk1) (\<lambda>h1.
     if b_dev b \<noteq> 0 \<and> \<not> h1 then panic ''iderw: ide disk 1 not present'' else
     kthen (ide_append i)
     (kthen (kbind (kget idequeue) (\<lambda>q. kwhen (q = Some i) (idestart d q)))
     (ide_wait i)))))"

end
