(* ===== verification/IdeSpec.thy ===== *)
theory IdeSpec
  imports Ide BioSpec
begin

text \<open>
  What the disk driver does with its queue: requests are served in order, each one reads or writes the block
  of its buffer, and the process that waits for it is woken.
\<close>

section \<open>The controller\<close>

text \<open>
  A controller that serves every request without an error: polling the status ends; writing the task file and a command makes
  the command pending for the addressed sector; the words written after a write command become the contents of the
  sector, and those read after a read command are the contents. \<open>media\<close> and \<open>pend\<close> observe the state of the
  hardware: the contents of the two disks, and the command with its disk and sector.
\<close>

definition lba :: "byte \<Rightarrow> byte \<Rightarrow> byte \<Rightarrow> byte \<Rightarrow> uint" where
  "lba l0 l1 l2 l3 = ucast l0 OR push_bit 8 (ucast l1) OR push_bit 16 (ucast l2) OR push_bit 24 (ucast (l3 AND 0x0F))"

definition ata_ready :: "byte \<Rightarrow> bool" where
  "ata_ready r \<longleftrightarrow> r AND (IDE_BSY OR IDE_DRDY) = IDE_DRDY"

definition ata_command :: "'h hwops \<Rightarrow> byte \<Rightarrow> byte \<Rightarrow> byte \<Rightarrow> byte \<Rightarrow> byte \<Rightarrow> 'h \<Rightarrow> 'h" where
  "ata_command d l0 l1 l2 l3 cmd h = hw_outb d 0x1F7 cmd (hw_outb d 0x1F6 l3 (hw_outb d 0x1F5 l2 (hw_outb d 0x1F4 l1
     (hw_outb d 0x1F3 l0 (hw_outb d 0x1F2 1 (hw_outb d 0x3F6 0 h))))))"

definition ata_disk :: "'h hwops \<Rightarrow> ('h \<Rightarrow> bool \<times> uint \<Rightarrow> block) \<Rightarrow> ('h \<Rightarrow> (byte \<times> bool \<times> uint) option) \<Rightarrow> bool" where
  "ata_disk d media pend \<longleftrightarrow>
     (\<forall>h. \<exists>r h'. poll (hw_inb d 0x1F7) ata_ready h = Some (r, h') \<and> r AND (IDE_DF OR IDE_ERR) = 0 \<and>
       media h' = media h \<and> pend h' = pend h) \<and>
     (\<forall>h l0 l1 l2 l3 cmd. l3 AND 0xE0 = 0xE0 \<longrightarrow> media (ata_command d l0 l1 l2 l3 cmd h) = media h \<and>
       pend (ata_command d l0 l1 l2 l3 cmd h) = Some (cmd, bit l3 4, lba l0 l1 l2 l3)) \<and>
     (\<forall>h a bs. pend h = Some (IDE_CMD_WRITE, a) \<and> length bs = BSIZE \<longrightarrow> media (hw_outsl d 0x1F0 bs h) = (media h)(a := bs)) \<and>
     (\<forall>h a. pend h = Some (IDE_CMD_READ, a) \<longrightarrow> (\<exists>h'. hw_insl d 0x1F0 (BSIZE div 4) h = (media h a, h') \<and> media h' = media h))"

lemma ata_poll:
  assumes "ata_disk d media pend"
  obtains r h' where "poll (hw_inb d 0x1F7) ata_ready h = Some (r, h')" "r AND (IDE_DF OR IDE_ERR) = 0" "media h' = media h" "pend h' = pend h"
  using assms unfolding ata_disk_def by meson

lemma ata_issue:
  assumes "ata_disk d media pend" "l3 AND 0xE0 = 0xE0"
  shows "media (ata_command d l0 l1 l2 l3 cmd h) = media h" "pend (ata_command d l0 l1 l2 l3 cmd h) = Some (cmd, bit l3 4, lba l0 l1 l2 l3)"
  using assms unfolding ata_disk_def by blast+

lemma ata_write:
  "ata_disk d media pend \<Longrightarrow> pend h = Some (IDE_CMD_WRITE, a) \<Longrightarrow> length bs = BSIZE \<Longrightarrow> media (hw_outsl d 0x1F0 bs h) = (media h)(a := bs)"
  unfolding ata_disk_def by blast

lemma ata_read:
  assumes "ata_disk d media pend" "pend h = Some (IDE_CMD_READ, a)"
  obtains h' where "hw_insl d 0x1F0 (BSIZE div 4) h = (media h a, h')" "media h' = media h"
  using assms unfolding ata_disk_def by meson

lemma idewait_run:
  assumes "ata_disk d media pend"
  obtains h' where "idewait d c h = Done 0 h'" "media h' = media h" "pend h' = pend h"
proof -
  obtain r h' where p: "poll (hw_inb d 0x1F7) ata_ready h = Some (r, h')" "r AND (IDE_DF OR IDE_ERR) = 0" "media h' = media h" "pend h' = pend h"
    by (rule ata_poll [OF assms])
  have "(\<lambda>r. r AND (IDE_BSY OR IDE_DRDY) = IDE_DRDY) = ata_ready" by (simp add: ata_ready_def fun_eq_iff)
  then have "idewait d c h = Done 0 h'" using p by (simp add: idewait_def spin_def kbind_def)
  then show ?thesis using p that by blast
qed

section \<open>Sectors\<close>

definition dev_byte :: "uint \<Rightarrow> uint \<Rightarrow> byte" where
  "dev_byte dev sector = ucast (0xE0 OR push_bit 4 (dev AND 1) OR (drop_bit 24 sector AND 0x0F))"

lemma dev_byte_mode: "dev_byte dev sector AND 0xE0 = 0xE0"
  by (rule bit_word_eqI) (auto simp: dev_byte_def bit_simps)

lemma dev_byte_disk: "bit (dev_byte dev sector) 4 \<longleftrightarrow> odd dev"
  by (simp add: dev_byte_def bit_simps bit_0)

lemma byte_mask: "(0xFF :: uint) = mask 8" "(0x0F :: byte) = mask 4"
  by (simp_all add: mask_eq_exp_minus_1)

lemma ucast_byte: "(ucast (x AND 0xFF) :: byte) = ucast (x :: uint)"
  by (rule bit_word_eqI) (simp add: byte_mask bit_simps)

lemma dev_byte_high: "dev_byte dev sector AND 0x0F = ucast (drop_bit 24 sector) AND mask 4"
proof (rule bit_word_eqI)
  fix n assume "n < LENGTH(8)"
  then have "n \<in> {0, 1, 2, 3, 4, 5, 6, 7}" by auto
  then show "bit (dev_byte dev sector AND 0x0F) n = bit (ucast (drop_bit 24 sector) AND mask 4 :: byte) n"
    by (elim insertE emptyE) (simp_all add: dev_byte_def bit_simps)
qed

lemma high_bits: "sector < 2 ^ 28 \<Longrightarrow> 28 \<le> n \<Longrightarrow> \<not> bit (sector :: uint) n"
  using less_mask_eq [of sector 28] by (metis bit_and_iff bit_mask_iff linorder_not_less)

lemma lba_sector:
  assumes "sector < 2 ^ 28"
  shows "lba (ucast (sector AND 0xFF)) (ucast (drop_bit 8 sector AND 0xFF)) (ucast (drop_bit 16 sector AND 0xFF)) (dev_byte dev sector) = sector"
  unfolding lba_def dev_byte_high ucast_byte
proof (rule bit_word_eqI)
  fix n assume n: "n < LENGTH(32)"
  consider "n < 8" | "8 \<le> n" "n < 16" | "16 \<le> n" "n < 24" | "24 \<le> n" "n < 28" | "28 \<le> n" by linarith
  then show "bit ((ucast (ucast sector :: byte) :: uint) OR push_bit 8 (ucast (ucast (drop_bit 8 sector) :: byte)) OR
      push_bit 16 (ucast (ucast (drop_bit 16 sector) :: byte)) OR push_bit 24 (ucast (ucast (drop_bit 24 sector) AND mask 4 :: byte))) n = bit sector n"
    by cases (use n high_bits [OF assms, of n] in \<open>auto simp: bit_simps\<close>)
qed

section \<open>The queue\<close>

fun chain :: "(nat \<Rightarrow> nat option) \<Rightarrow> nat option \<Rightarrow> nat list \<Rightarrow> bool" where
  "chain nx p [] \<longleftrightarrow> p = None"
| "chain nx p (x # xs) \<longleftrightarrow> p = Some x \<and> chain nx (nx x) xs"

lemma chain_upd: "i \<notin> set q \<Longrightarrow> chain (nx(i := v)) p q = chain nx p q"
  by (induction q arbitrary: p) auto

lemma chain_last: "chain nx p (q @ [e]) \<Longrightarrow> nx e = None"
  by (induction q arbitrary: p) auto

lemma chain_snoc: "chain nx p (q @ [e]) \<Longrightarrow> distinct (q @ [e, i]) \<Longrightarrow> chain (nx(i := None, e := Some i)) p (q @ [e, i])"
  by (induction q arbitrary: p) auto

lemma queue_end_chain: "chain nx (Some j) (q @ [e]) \<Longrightarrow> length q < k \<Longrightarrow> queue_end k nx j = Some e"
proof (induction q arbitrary: j k)
  case Nil
  then show ?case by (cases k) auto
next
  case (Cons x q)
  then obtain k' where k: "k = Suc k'" by (cases k) auto
  obtain y where "nx j = Some y" using Cons.prems by (cases q) auto
  then show ?case using Cons k by auto
qed

section \<open>Requests\<close>

definition dirty :: "buf \<Rightarrow> bool" where
  "dirty b \<longleftrightarrow> b_flags b AND B_DIRTY \<noteq> 0"

definition place :: "buf \<Rightarrow> bool \<times> uint" where
  "place b = (odd (b_dev b), b_blockno b)"

definition req_ok :: "buf \<Rightarrow> bool" where
  "req_ok b \<longleftrightarrow> b_blockno b < FSSIZE \<and> length (b_data b) = BSIZE \<and> b_flags b AND (B_VALID OR B_DIRTY) \<noteq> B_VALID"

text \<open>The controller works on the request for \<open>b\<close>: it is reading the block, or has been given the data.\<close>

definition underway :: "('h \<Rightarrow> bool \<times> uint \<Rightarrow> block) \<Rightarrow> ('h \<Rightarrow> (byte \<times> bool \<times> uint) option) \<Rightarrow> buf \<Rightarrow> 'h \<Rightarrow> bool" where
  "underway media pend b h \<longleftrightarrow> (if dirty b then media h (place b) = b_data b else pend h = Some (IDE_CMD_READ, place b))"

definition ide_inv where
  "ide_inv media pend s q \<longleftrightarrow> chain (qnext s) (idequeue s) q \<and> distinct q \<and> (\<forall>i\<in>set q. i < NBUF \<and> req_ok (bufs s i)) \<and>
     (q \<noteq> [] \<longrightarrow> underway media pend (bufs s (hd q)) (hw s))"

definition write_media :: "('h \<Rightarrow> bool \<times> uint \<Rightarrow> block) \<Rightarrow> buf \<Rightarrow> 'h \<Rightarrow> bool \<times> uint \<Rightarrow> block" where
  "write_media media b h = (if dirty b then (media h)(place b := b_data b) else media h)"

lemma idestart_run:
  assumes d: "ata_disk d media pend" and b: "req_ok (bufs s i)"
  obtains h where "idestart d (Some i) s = Done () (s\<lparr>hw := h\<rparr>)" "underway media pend (bufs s i) h" "media h = write_media media (bufs s i) (hw s)"
proof -
  let ?b = "bufs s i" let ?n = "b_blockno ?b"
  obtain h0 where h0: "idewait d False (hw s) = Done 0 h0" "media h0 = media (hw s)" "pend h0 = pend (hw s)" by (rule idewait_run [OF d])
  have lt: "?n < 2 ^ 28" using b by (simp add: req_ok_def FSSIZE_def word_less_nat_alt)
  let ?c = "\<lambda>cmd. ata_command d (ucast (?n AND 0xFF)) (ucast (drop_bit 8 ?n AND 0xFF)) (ucast (drop_bit 16 ?n AND 0xFF)) (dev_byte (b_dev ?b) ?n) cmd h0"
  have c: "media (?c cmd) = media (hw s)" "pend (?c cmd) = Some (cmd, place ?b)" for cmd
    using ata_issue [OF d dev_byte_mode] lba_sector [OF lt] dev_byte_disk h0 by (simp_all add: place_def)
  have run: "idestart d (Some i) s = Done () (s\<lparr>hw := if dirty ?b then hw_outsl d 0x1F0 (b_data ?b) (?c IDE_CMD_WRITE) else ?c IDE_CMD_READ\<rparr>)"
    using b h0(1) by (simp add: idestart_def req_ok_def linorder_not_le BSIZE_def SECTOR_SIZE_def Let_def on_hw_def kthen_def kbind_def outb_def outsl_def
      ata_command_def dev_byte_def dirty_def)
  have "media (hw_outsl d 0x1F0 (b_data ?b) (?c IDE_CMD_WRITE)) = (media (hw s))(place ?b := b_data ?b)"
    using ata_write [OF d c(2)] c(1) b by (simp add: req_ok_def)
  then show ?thesis using run c by (intro that [OF run]) (auto simp: underway_def write_media_def)
qed

section \<open>Interrupts\<close>

definition served :: "buf \<Rightarrow> block \<Rightarrow> buf" where
  "served b bs = b\<lparr>b_data := if dirty b then b_data b else bs, b_flags := (b_flags b OR B_VALID) AND NOT B_DIRTY\<rparr>"

text \<open>The part of ideintr() up to the start of the next request.\<close>

definition after_intr :: "nat \<Rightarrow> ('h, 'z) kide_scheme \<Rightarrow> block \<Rightarrow> 'h \<Rightarrow> ('h, 'z) kide_scheme" where
  "after_intr i s bs h = s\<lparr>idequeue := qnext s i, hw := h, bufs := (bufs s)(i := served (bufs s i) bs),
     ptable := wake_below NPROC (ChanIde i) (ptable s)\<rparr>"

lemma ideintr_run:
  assumes d: "ata_disk d media pend" and inv: "ide_inv media pend s (i # q)"
  obtains h where "ideintr d s = kwhen (qnext s i \<noteq> None) (idestart d (qnext s i)) (after_intr i s (media (hw s) (place (bufs s i))) h)"
    "media h = media (hw s)"
proof (cases "dirty (bufs s i)")
  case True
  have "ideintr d s = kwhen (qnext s i \<noteq> None) (idestart d (qnext s i)) (after_intr i s (media (hw s) (place (bufs s i))) (hw s))"
    using inv True by (simp add: ide_inv_def ideintr_def dirty_def after_intr_def served_def upd_buf_def kthen_def kbind_def wakeup_eq)
  then show ?thesis using that by blast
next
  case False
  then have p: "pend (hw s) = Some (IDE_CMD_READ, place (bufs s i))" using inv by (simp add: ide_inv_def underway_def)
  obtain h1 where h1: "idewait d True (hw s) = Done 0 h1" "media h1 = media (hw s)" "pend h1 = pend (hw s)" by (rule idewait_run [OF d])
  obtain h2 where h2: "hw_insl d 0x1F0 (BSIZE div 4) h1 = (media h1 (place (bufs s i)), h2)" "media h2 = media h1"
    by (rule ata_read [OF d]) (use h1 p in simp)
  have "ideintr d s = kwhen (qnext s i \<noteq> None) (idestart d (qnext s i)) (after_intr i s (media (hw s) (place (bufs s i))) h2)"
    using inv False h1 h2 by (simp add: ide_inv_def ideintr_def dirty_def after_intr_def served_def upd_buf_def kthen_def kbind_def wakeup_eq
      on_hw_def insl_def access_def set_data_def kwhen_def [of True])
  then show ?thesis using that h1 h2 by simp
qed

text \<open>An interrupt serves the first request and starts the next one.\<close>

lemma ideintr_serves:
  assumes d: "ata_disk d media pend" and inv: "ide_inv media pend s (i # q)"
  obtains h where "ideintr d s = Done () (after_intr i s (media (hw s) (place (bufs s i))) h)"
    "ide_inv media pend (after_intr i s (media (hw s) (place (bufs s i))) h) q"
    "media h = (case q of [] \<Rightarrow> media (hw s) | j # _ \<Rightarrow> write_media media (bufs s j) (hw s))"
proof -
  let ?t = "\<lambda>h. after_intr i s (media (hw s) (place (bufs s i))) h"
  obtain h where h: "ideintr d s = kwhen (qnext s i \<noteq> None) (idestart d (qnext s i)) (?t h)" "media h = media (hw s)"
    by (rule ideintr_run [OF d inv])
  have c: "chain (qnext s) (qnext s i) q" "i \<notin> set q" "distinct q" "\<forall>j\<in>set q. j < NBUF \<and> req_ok (bufs s j)"
    using inv by (auto simp: ide_inv_def)
  show ?thesis
  proof (cases q)
    case Nil
    then show ?thesis using h c by (intro that [of h]) (auto simp: ide_inv_def after_intr_def kwhen_def)
  next
    case (Cons j q')
    then have j: "qnext s i = Some j" "j \<noteq> i" "req_ok (bufs s j)" using c by auto
    then have b: "bufs (?t h) j = bufs s j" by (simp add: after_intr_def)
    obtain h' where h': "idestart d (Some j) (?t h) = Done () ((?t h)\<lparr>hw := h'\<rparr>)" "underway media pend (bufs (?t h) j) h'"
        "media h' = write_media media (bufs (?t h) j) (hw (?t h))"
      by (rule idestart_run [OF d, of "?t h" j]) (use j b in simp)
    have "(?t h)\<lparr>hw := h'\<rparr> = ?t h'" by (simp add: after_intr_def)
    then show ?thesis using h h' c Cons j b
      by (intro that [of h']) (auto simp: ide_inv_def after_intr_def write_media_def kwhen_def)
  qed
qed

section \<open>Requests joining the queue\<close>

lemma queue_room: "ide_inv media pend s q \<Longrightarrow> length q \<le> NBUF"
proof -
  assume "ide_inv media pend s q"
  then have "distinct q" "set q \<subseteq> {..<NBUF}" by (auto simp: ide_inv_def)
  then show ?thesis using card_mono [of "{..<NBUF}" "set q"] by (simp add: distinct_card)
qed

lemma ide_append_run:
  assumes inv: "ide_inv media pend s q" and i: "i \<notin> set q"
  obtains nx where "ide_append i s = Done () (s\<lparr>qnext := nx, idequeue := if q = [] then Some i else idequeue s\<rparr>)"
    "chain nx (if q = [] then Some i else idequeue s) (q @ [i])"
proof (cases q rule: rev_cases)
  case Nil
  then show ?thesis using inv by (intro that [of "(qnext s)(i := None)"]) (simp_all add: ide_append_def ide_inv_def)
next
  case (snoc q' e)
  then obtain j where j: "idequeue s = Some j" using inv by (cases q') (auto simp: ide_inv_def)
  let ?nx = "(qnext s)(i := None)"
  have c: "chain ?nx (Some j) (q' @ [e])" using inv i snoc j by (simp add: ide_inv_def chain_upd)
  have "queue_end (Suc NBUF) ?nx j = Some e"
    by (rule queue_end_chain [OF c]) (use queue_room [OF inv] snoc in simp)
  then have "ide_append i s = Done () (s\<lparr>qnext := ?nx(e := Some i)\<rparr>)" using j by (simp add: ide_append_def del: queue_end.simps)
  moreover have "s\<lparr>qnext := ?nx(e := Some i)\<rparr> = s\<lparr>qnext := ?nx(e := Some i), idequeue := idequeue s\<rparr>" by (cases s) simp
  ultimately have "ide_append i s = Done () (s\<lparr>qnext := ?nx(e := Some i), idequeue := idequeue s\<rparr>)" by (simp only:)
  moreover have "chain (?nx(e := Some i)) (idequeue s) (q' @ [e, i])"
    using chain_snoc [of "qnext s" "Some j" q' e i] inv i snoc j by (auto simp: ide_inv_def)
  ultimately show ?thesis using that [of "?nx(e := Some i)"] snoc by simp
qed

definition asleep_on :: "chan \<Rightarrow> nat \<Rightarrow> (nat \<Rightarrow> proc) \<Rightarrow> nat \<Rightarrow> proc" where
  "asleep_on c p t = t(p := (t p)\<lparr>p_chan := Some c, p_state := SLEEPING\<rparr>)"

text \<open>The caller of iderw() holds the lock of the buffer, and the disk of the buffer is there.\<close>

definition may_request :: "nat \<Rightarrow> nat \<Rightarrow> ('h, 'z) kide_scheme \<Rightarrow> bool" where
  "may_request p i s \<longleftrightarrow> cpu_proc s = Some p \<and> p < NPROC \<and> sl_locked (b_lock (bufs s i)) \<and> sl_pid (b_lock (bufs s i)) = p_pid (ptable s p) \<and>
     i < NBUF \<and> req_ok (bufs s i) \<and> (b_dev (bufs s i) = 0 \<or> havedisk1 s)"

lemma ide_rw_run:
  assumes d: "ata_disk d media pend" and inv: "ide_inv media pend s q" and i: "i \<notin> set q" and r: "may_request p i s"
  obtains t where "ide_rw d i s = Block (ChanIde i) t" "ide_inv media pend t (q @ [i])" "bufs t = bufs s"
    "ptable t = asleep_on (ChanIde i) p (ptable s)" "media (hw t) = (if q = [] then write_media media (bufs s i) (hw s) else media (hw s))"
proof -
  obtain nx where nx: "ide_append i s = Done () (s\<lparr>qnext := nx, idequeue := if q = [] then Some i else idequeue s\<rparr>)"
      "chain nx (if q = [] then Some i else idequeue s) (q @ [i])" by (rule ide_append_run [OF inv i])
  let ?s = "s\<lparr>qnext := nx, idequeue := if q = [] then Some i else idequeue s\<rparr>"
  have b: "req_ok (bufs ?s i)" using r by (simp add: may_request_def)
  obtain h where h0: "idestart d (Some i) ?s = Done () (?s\<lparr>hw := h\<rparr>)" "underway media pend (bufs ?s i) h" "media h = write_media media (bufs ?s i) (hw ?s)"
    by (rule idestart_run [OF d b])
  then have h: "underway media pend (bufs s i) h" "media h = write_media media (bufs s i) (hw s)" by simp_all
  let ?t = "?s\<lparr>hw := if q = [] then h else hw s\<rparr>"
  have head: "idequeue ?s = Some i \<longleftrightarrow> q = []" using inv i by (cases q) (auto simp: ide_inv_def)
  have w: "ide_wait i ?t = Block (ChanIde i) (upd_proc p (\<lambda>x. x\<lparr>p_chan := Some (ChanIde i), p_state := SLEEPING\<rparr>) ?t)"
    using r by (simp add: ide_wait_def may_request_def req_ok_def sleep_def myproc_def)
  have "holdingsleep (buf_lock i) s = Done True s" using r by (simp add: holdingsleep_eq may_request_def buf_lock_def)
  then have "ide_rw d i s = Block (ChanIde i) (upd_proc p (\<lambda>x. x\<lparr>p_chan := Some (ChanIde i), p_state := SLEEPING\<rparr>) ?t)"
    using r nx(1) h0(1) head w by (auto simp: ide_rw_def kbind_Done kthen_Done may_request_def req_ok_def kwhen_def kthen_def kbind_def)
  then show ?thesis
    by (rule that) (use inv i nx(2) h r in \<open>auto simp: ide_inv_def asleep_on_def may_request_def upd_proc_def hd_append\<close>)
qed

section \<open>Service\<close>

definition interrupts :: "'h hwops \<Rightarrow> nat \<Rightarrow> (('h, 'z) kide_scheme, unit) prog" where
  "interrupts d n = kfor (replicate n ()) (\<lambda>_. ideintr d)"

lemma interrupts_simps [simp]: "interrupts d 0 s = Done () s" "interrupts d (Suc n) = kthen (ideintr d) (interrupts d n)"
  by (simp_all add: interrupts_def)

lemma interrupts_snoc: "interrupts d n s = Done () t \<Longrightarrow> interrupts d (Suc n) s = ideintr d t"
proof (induction n arbitrary: s)
  case 0
  then show ?case by (simp add: kthen_def kbind_def split: outcome.split)
next
  case (Suc n)
  then obtain u where "ideintr d s = Done () u" "interrupts d n u = Done () t" by (auto simp: kthen_eq_Done)
  then show ?case using Suc.IH [of u] by (simp add: kthen_Done)
qed

text \<open>The requests before \<open>i\<close> are served, one by each interrupt, and leave its buffer, its block and its waiter alone.\<close>

lemma ide_drain:
  assumes d: "ata_disk d media pend" and "ide_inv media pend s (q @ [i])" "\<forall>j\<in>set q. place (bufs s j) \<noteq> place (bufs s i)"
    and "p_chan (ptable s p) = Some (ChanIde i)"
  shows "\<exists>t. interrupts d (length q) s = Done () t \<and> ide_inv media pend t [i] \<and> bufs t i = bufs s i \<and> ptable t p = ptable s p \<and>
    (\<not> dirty (bufs s i) \<longrightarrow> media (hw t) (place (bufs s i)) = media (hw s) (place (bufs s i)))"
  using assms(2-)
proof (induction q arbitrary: s)
  case Nil
  then show ?case by simp
next
  case (Cons j q)
  obtain h where h: "ideintr d s = Done () (after_intr j s (media (hw s) (place (bufs s j))) h)"
      "ide_inv media pend (after_intr j s (media (hw s) (place (bufs s j))) h) (q @ [i])"
      "media h = (case q @ [i] of [] \<Rightarrow> media (hw s) | k # _ \<Rightarrow> write_media media (bufs s k) (hw s))"
    by (rule ideintr_serves [OF d]) (use Cons.prems in simp)
  let ?t = "after_intr j s (media (hw s) (place (bufs s j))) h"
  have ne: "j \<noteq> i" "j \<notin> set q" using Cons.prems(1) by (auto simp: ide_inv_def)
  have b: "bufs ?t k = bufs s k" if "k \<noteq> j" for k using that by (simp add: after_intr_def)
  have m: "\<not> dirty (bufs s i) \<Longrightarrow> media h (place (bufs s i)) = media (hw s) (place (bufs s i))"
    using h(3) Cons.prems(2) by (cases q) (auto simp: write_media_def)
  have p: "ptable ?t p = ptable s p" using Cons.prems(3) ne by (simp add: after_intr_def wake_below_def wake_proc_def)
  have pl: "\<forall>k\<in>set q. place (bufs ?t k) \<noteq> place (bufs ?t i)"
  proof
    fix k assume k: "k \<in> set q"
    then have "k \<noteq> j" using ne by auto
    then have "bufs ?t k = bufs s k" "bufs ?t i = bufs s i" using b ne(1) by simp_all
    then show "place (bufs ?t k) \<noteq> place (bufs ?t i)" using Cons.prems(2) k by simp
  qed
  obtain t where "interrupts d (length q) ?t = Done () t" "ide_inv media pend t [i]" "bufs t i = bufs ?t i" "ptable t p = ptable ?t p"
      "\<not> dirty (bufs ?t i) \<longrightarrow> media (hw t) (place (bufs ?t i)) = media (hw ?t) (place (bufs ?t i))"
    using Cons.IH [OF h(2) pl] Cons.prems(3) p by auto
  then show ?case using h(1) b ne p m by (intro exI [of _ t]) (auto simp: kthen_Done after_intr_def)
qed

lemma served_flags: "b_flags (served b bs) AND (B_VALID OR B_DIRTY) = B_VALID"
proof -
  have "(x OR y) AND y = y" for x y :: uint by (rule bit_word_eqI) (auto simp: bit_and_iff bit_or_iff)
  moreover have "NOT B_DIRTY AND (B_VALID OR B_DIRTY) = B_VALID" by (simp add: B_VALID_def B_DIRTY_def)
  ultimately have "((x OR B_VALID) AND NOT B_DIRTY) AND (B_VALID OR B_DIRTY) = B_VALID" for x by (simp only: and.assoc)
  then show ?thesis by (simp add: served_def)
qed

text \<open>
  C38: Every disk request is served in its turn. Let a process that holds the lock of a buffer call
  iderw() for it while the requests \<open>q\<close> for other blocks are waiting, with a controller that
  follows the ATA protocol and reports no error. Then the process sleeps, and after one interrupt for each request
  before it and one more it is runnable again and iderw() returns: a buffer with B_DIRTY has its data on the disk at its block, any
  other buffer holds what the disk had there, and the buffer is valid and clean.
\<close>

theorem ide_served:
  assumes d: "ata_disk d media pend" and inv: "ide_inv media pend s q" and i: "i \<notin> set q" and r: "may_request p i s"
    and other: "\<forall>j\<in>set q. place (bufs s j) \<noteq> place (bufs s i)"
  shows "\<exists>t u. ide_rw d i s = Block (ChanIde i) t \<and> interrupts d (Suc (length q)) t = Done () u \<and>
    p_state (ptable t p) = SLEEPING \<and> p_state (ptable u p) = RUNNABLE \<and> ide_wait i u = Done () u \<and>
    bufs u i = served (bufs s i) (media (hw s) (place (bufs s i))) \<and>
    (dirty (bufs s i) \<longrightarrow> media (hw u) (place (bufs s i)) = b_data (bufs s i))"
proof -
  obtain t where t: "ide_rw d i s = Block (ChanIde i) t" "ide_inv media pend t (q @ [i])" "bufs t = bufs s"
    "ptable t = asleep_on (ChanIde i) p (ptable s)" "media (hw t) = (if q = [] then write_media media (bufs s i) (hw s) else media (hw s))"
    by (rule ide_rw_run [OF d inv i r])
  have m: "\<not> dirty (bufs s i) \<Longrightarrow> media (hw t) = media (hw s)" using t(5) by (simp add: write_media_def)
  have c: "p_chan (ptable t p) = Some (ChanIde i)" "p_state (ptable t p) = SLEEPING" using t(4) by (simp_all add: asleep_on_def)
  obtain v where v: "interrupts d (length q) t = Done () v" "ide_inv media pend v [i]" "bufs v i = bufs s i" "ptable v p = ptable t p"
      "\<not> dirty (bufs s i) \<longrightarrow> media (hw v) (place (bufs s i)) = media (hw t) (place (bufs s i))"
    using ide_drain [OF d t(2) _ c(1)] t(3) other by auto
  obtain h where h: "ideintr d v = Done () (after_intr i v (media (hw v) (place (bufs v i))) h)"
      "media h = (case [] of [] \<Rightarrow> media (hw v) | j # _ \<Rightarrow> write_media media (bufs v j) (hw v))"
    by (rule ideintr_serves [OF d v(2)])
  let ?u = "after_intr i v (media (hw v) (place (bufs v i))) h"
  have u: "bufs ?u i = served (bufs s i) (media (hw s) (place (bufs s i)))"
    using v(3,5) m by (auto simp: after_intr_def served_def)
  moreover have "ide_wait i ?u = Done () ?u" using u by (simp add: ide_wait_def served_flags)
  moreover have "p_state (ptable ?u p) = RUNNABLE" using v(4) c r by (simp add: after_intr_def may_request_def)
  moreover have "dirty (bufs s i) \<longrightarrow> media (hw ?u) (place (bufs s i)) = b_data (bufs s i)"
    using v(2,3) h(2) by (auto simp: ide_inv_def underway_def after_intr_def)
  moreover have "interrupts d (Suc (length q)) t = Done () ?u" using interrupts_snoc [OF v(1)] h(1) by simp
  ultimately show ?thesis using t(1) c(2) by blast
qed

text \<open>A controller that is always ready: the registers last written, the command, and the contents.\<close>

record ata_state =
  a_regs :: "ushort \<Rightarrow> byte"
  a_pend :: "(byte \<times> bool \<times> uint) option"
  a_media :: "bool \<times> uint \<Rightarrow> block"

definition ata_sim :: "ata_state hwops" where
  "ata_sim = \<lparr>hw_inb = (\<lambda>p h. (0x40, h)),
     hw_outb = (\<lambda>p v h. let r = (a_regs h)(p := v) in
       if p = 0x1F7 then h\<lparr>a_regs := r, a_pend := Some (v, bit (r 0x1F6) 4, lba (r 0x1F3) (r 0x1F4) (r 0x1F5) (r 0x1F6))\<rparr>
       else h\<lparr>a_regs := r\<rparr>),
     hw_insl = (\<lambda>p n h. (case a_pend h of Some (c, a) \<Rightarrow> a_media h a | None \<Rightarrow> [], h)),
     hw_outsl = (\<lambda>p bs h. case a_pend h of Some (c, a) \<Rightarrow> h\<lparr>a_media := (a_media h)(a := bs)\<rparr> | None \<Rightarrow> h),
     hw_load = (\<lambda>a h. (0, h)), hw_store = (\<lambda>a v h. h), hw_store16 = (\<lambda>a v h. h)\<rparr>"

lemma ata_sim_disk: "ata_disk ata_sim a_media a_pend"
  unfolding ata_disk_def
proof (intro conjI allI impI)
  fix h show "\<exists>r h'. poll (hw_inb ata_sim 0x1F7) ata_ready h = Some (r, h') \<and> r AND (IDE_DF OR IDE_ERR) = 0 \<and> a_media h' = a_media h \<and> a_pend h' = a_pend h"
    by (subst poll.simps) (simp add: ata_sim_def ata_ready_def IDE_BSY_def IDE_DRDY_def IDE_DF_def IDE_ERR_def)
qed (auto simp: ata_command_def ata_sim_def Let_def)

text \<open>Buffer 0 is being read from block 5 when process 0 asks to write buffer 1 to block 6.\<close>

definition ide_demo :: "ata_state kide" where
  "ide_demo = \<lparr>ptable = (\<lambda>_. proc_zero\<lparr>p_pid := 1\<rparr>), nextpid = 2, initproc = None, cpu_proc = Some 0,
     disk = (\<lambda>_. []), disksize = 0, dtrace = [],
     bufs = (\<lambda>i. \<lparr>b_flags = if i = 0 then 0 else B_DIRTY, b_dev = 1, b_blockno = if i = 0 then 5 else 6,
       b_lock = \<lparr>sl_locked = True, sl_pid = 1\<rparr>, b_refcnt = 1, b_prev = 0, b_next = 0, b_data = replicate BSIZE 7\<rparr>),
     idequeue = Some 0, qnext = (\<lambda>_. None), havedisk1 = True,
     hw = \<lparr>a_regs = (\<lambda>_. 0), a_pend = Some (IDE_CMD_READ, True, 5), a_media = (\<lambda>_. replicate BSIZE 0)\<rparr>\<rparr>"

theorem ide_served_witness:
  "\<exists>t u. ide_rw ata_sim 1 ide_demo = Block (ChanIde 1) t \<and> interrupts ata_sim 2 t = Done () u \<and>
    p_state (ptable u 0) = RUNNABLE \<and> ide_wait 1 u = Done () u \<and> a_media (hw u) (True, 6) = replicate BSIZE 7"
proof -
  have "ide_inv a_media a_pend ide_demo [0]"
    by (simp add: ide_inv_def ide_demo_def NBUF_def req_ok_def FSSIZE_def B_VALID_def B_DIRTY_def underway_def dirty_def place_def)
  moreover have "may_request 0 1 ide_demo"
    by (simp add: may_request_def ide_demo_def NPROC_def NBUF_def req_ok_def FSSIZE_def B_VALID_def B_DIRTY_def)
  ultimately have "\<exists>t u. ide_rw ata_sim 1 ide_demo = Block (ChanIde 1) t \<and> interrupts ata_sim (Suc (length [0 :: nat])) t = Done () u \<and>
      p_state (ptable t 0) = SLEEPING \<and> p_state (ptable u 0) = RUNNABLE \<and> ide_wait 1 u = Done () u \<and>
      bufs u 1 = served (bufs ide_demo 1) (a_media (hw ide_demo) (place (bufs ide_demo 1))) \<and>
      (dirty (bufs ide_demo 1) \<longrightarrow> a_media (hw u) (place (bufs ide_demo 1)) = b_data (bufs ide_demo 1))"
    by (intro ide_served [OF ata_sim_disk]) (simp_all add: ide_demo_def place_def)
  moreover have "dirty (bufs ide_demo 1)" "place (bufs ide_demo 1) = (True, 6)" "b_data (bufs ide_demo 1) = replicate BSIZE 7"
    by (simp_all add: ide_demo_def dirty_def place_def B_DIRTY_def)
  ultimately show ?thesis by (auto simp: numeral_2_eq_2 simp del: interrupts_simps)
qed

section \<open>Errors\<close>

text \<open>
  When the controller reports an error for a read, ideintr() still marks the buffer valid, with
  the data it had before.
\<close>

lemma ide_error_valid:
  assumes "idequeue s = Some i" "qnext s i = None" "\<not> dirty (bufs s i)" "idewait d True (hw s) = Done (-1) h"
  shows "\<exists>t. ideintr d s = Done () t \<and> bufs t i = served (bufs s i) (b_data (bufs s i))"
  using assms by (simp add: ideintr_def dirty_def kthen_def kbind_def on_hw_def wakeup_eq upd_buf_def served_def kwhen_def)

end
