(* ===== verification/Spec2Isabelle.thy ===== *)
theory Spec2Isabelle
  imports LogOps BioProps FsInode Grep Spinlock VmSpec ConsoleSpec ArgSpec ShRound ShRun UserSpec IdeSpec
begin

text \<open>
  A verification development for xv6, a teaching Unix kernel for the x86, with its shell and
  some of its user programs.

  \<^bold>\<open>The program.\<close> The kernel is a stack of components. Processes (proc.c) run on CPUs and exclude
  each other with spin-locks (spinlock.c), which also turn interrupts off, and with sleep-locks
  (sleeplock.c), whose waiters sleep. Their memory is made of pages from the page allocator
  (kalloc.c) under page tables (vm.c). The file system is layered: the disk (memide.c), the buffer
  cache (bio.c), the write-ahead log (log.c), inodes, directories and paths (fs.c), open files
  (file.c) with pipes (pipe.c), and the system calls (sysfile.c, sysproc.c, syscall.c, exec.c) that
  trap.c enters. The console (console.c, uart.c, kbd.c) is a device of the file layer; ide.c is the disk driver for real
  hardware, and lapic.c, ioapic.c and picirq.c program the interrupt controllers. User
  programs (sh.c, grep.c, wc.c and others) reach all this through system calls only.

  \<^bold>\<open>How code is modelled.\<close> A kernel function is a value of type \<open>('s, 'a) prog\<close> (theory Prelude): from a
  state it returns a value and a state, panics, faults (a memory access the hardware would refuse),
  blocks on a channel (sleep()), or does not come back (exit()). C integers are words of their width, so arithmetic wraps
  around where the code's does; \<open>int\<close> fields of structs that are only counted are integers. Kernel memory is a map from
  addresses to bytes, and the structures that live in pages (page tables, the free list) are read
  and written there. The state is a record that grows with the layers, in the order of the
  calls between them: \<open>kproc\<close> (process table), \<open>kbio\<close>, \<open>klog\<close>, \<open>kfs\<close>, \<open>kmm\<close> (memory), \<open>kfile\<close>, \<open>kcons\<close>, \<open>ksys\<close>.
  A section of code under a spin-lock is one step of the model; theory Spinlock justifies
  this for the locks themselves. A function that sleeps in a loop ends with the outcome
  that it blocks, having changed what the source changed before it slept; the loop's next turn starts it again. Interleavings are
  inductive step relations over these functions, and their invariants are proved
  by rule induction through the locale \<open>safe_system\<close>.

  \<^bold>\<open>Processes and locks.\<close> ProcTable has struct proc, sleep(), wakeup(), kill(); Proc the rest of proc.c
  (allocproc, userinit, growproc, fork, exit, wait, scheduler, yield, procdump). ProcSpec shows that exit() and wait()
  lose no wakeup in any interleaving and that a round of the scheduler runs every
  process that is runnable when it comes to it, whatever other CPUs do meanwhile. Sleeplock and Spinlock have mutual exclusion; Sleeplock has absence of lost wakeups,
  Spinlock the nesting of pushcli() and popcli(), and getcallerpcs().

  \<^bold>\<open>Memory.\<close> Mmu has the constants and macros of mmu.h and memlayout.h; Kalloc the free list, with the
  theorem that no page is handed out twice; Vm the functions of vm.c. VmSpec describes an
  address space by \<open>vm_entry\<close> (the entry that the hardware's walk finds) and proves walkpgdir()
  and mappages() against it; VmFork adds setupkvm() and the loop of copyuvm(), VmCopy the
  isolation of the copy from the original, and ForkSpec the whole of fork(). Syscall
  has the argument fetching; ArgSpec shows that it is safe for every user program.

  \<^bold>\<open>File system.\<close> Bio has bio.c over the disk of memide.c. BlockLayer is the contract that
  the cache gives (locale \<open>block_cache\<close>); BioSpec proves it for the code, BioProps has the properties
  of the cache. Superblock and Log have readsb() and log.c; LogSpec has the crash proofs of commit and recovery, LogOps
  the reservation of log space by concurrent operations, whose calls of log_write() are two steps (\<open>log_check\<close>, \<open>log_append\<close>)
  since its tests are made without the lock, and the run that exhausts a log of the size mkfs makes. TxnLayer is the contract that the log
  gives to fs.c (locale \<open>txn_layer\<close>), Txn proves it. Fs has fs.c; FsAlloc proves the allocator of disk
  blocks, FsInode the round trip of inodes through the disk and the inode cache. File has pipe.c and file.c, Pipe the
  properties of pipes, for readers and writers that may be killed and may close either end, through the locale \<open>ring_buffer\<close> of Ring, which the input buffer of the
  console uses as well (\<open>edit_buffer\<close>). Sysfile, Exec and Trap have sysfile.c, exec.c,
  sysproc.c, the table of syscall.c and trap.c.

  \<^bold>\<open>Devices and user code.\<close> Console and Kbd have console.c, the receiving side of uart.c, and kbd.c;
  ConsoleSpec shows that the input buffer implements a line-edited terminal and that output stays on the screen.
  CStrings has string.c and the string functions of ulib.c. Grep has grep.c, with the matcher
  shown equivalent to a declarative meaning of patterns. Sh has the parser of sh.c, ShSpec its termination and
  the well-formedness of its trees, ShRound the round trip with a printer. Uprog has user programs as
  trees of system calls, with printf.c and the rest of ulib.c; ShRun has runcmd() and the command loop of the shell, and shows that
  every program of a line is started with the descriptors that the line asks for. UserProgs has the small
  programs, and UserSpec shows that wc counts and cat copies their input however the reads cut it.

  \<^bold>\<open>Drivers.\<close> Hardware has the port instructions, lapic.c, ioapic.c, picirq.c and uart.c as
  sequences of register accesses, over a parameter that says what each access does. Ide has ide.c over the same
  parameter. IdeSpec states what the driver relies on of the controller (\<open>ata_disk\<close>) and shows that each request
  is served in its turn; a simple controller shows that the assumption can hold. The file system is proved over memide.c, which has the same interface.

  \<^bold>\<open>Bounds and fuel.\<close> The scan of the buffer list has fuel \<open>Suc NBUF\<close>: the cache invariant says
  that the list has NBUF buffers, so it returns to the head by then. The parser of the shell has fuel \<open>sh_fuel\<close>, four times the length of the
  line plus four: ShSpec proves that it never runs out and that more fuel gives the same result. The walk along the disk queue
  has fuel \<open>Suc NBUF\<close>, and the queue has at most NBUF distinct buffers. The loops of user programs that only the kernel's answers end have a fuel argument;
  the properties of wc and cat ask for more fuel than there are pieces of input. Loops that wait for hardware are partial functions, and
  \<open>ata_disk\<close> says that those of ide.c end. The other loops are recursions over lists of indices or addresses.

  \<^bold>\<open>Parameters.\<close> What is not code of the repository is an argument of the definitions: the hardware behind ports and registers, the time
  at which other processes run, the bytes that read() delivers to grep, the device table, and the addresses that the linker
  assigns.

  \<^bold>\<open>Not modelled.\<close> The assembly files, the boot loader and the start-up sequence main.c, which set up the
  machine below the level of this model, with seginit(), tvinit() and idtinit(), which fill the
  processor's descriptor tables; mp.c, which finds the CPUs in the firmware's tables (they are part of the initial state in
  Spinlock); umalloc.c (the shell's malloc() is taken to succeed); mkfs.c, which runs on the host; the main function of grep.c, which opens
  its files; and the tests of usertests.c, which define no behaviour of the system. Of
  the functions that are modelled, the messages that iinit() and allocuvm() print are left out (the console is a layer above them), as are the
  steps of switchuvm() that load the task-state descriptor; pushcli() reads the flags and disables interrupts in one
  step. ShRun's account of the shell supposes that system calls succeed while descriptors are free.
\<close>

end
